(* ===== verification/Kvpack_Prelude.thy ===== *)
theory Kvpack_Prelude
  imports "HOL-Library.Word"
begin

text \<open>
  Shared vocabulary of the development: machine integers and byte strings, the error monad
  that models Rust's \<^verbatim>\<open>Result\<close> with the \<^verbatim>\<open>?\<close> operator, Rust's checked arithmetic, the loop
  combinators that stop at the first error, little-endian conversion and slices.
  The target is the 64-bit one: a \<^verbatim>\<open>usize\<close> is a natural number and every checked operation on
  it compares with \<open>2 ^ 64\<close>.

  The collections \<open>ok_iff\<close> (what a successful result says about the steps that produced it)
  and \<open>wire_bytes\<close> (facts about little-endian byte strings) carry the component proofs.
\<close>

named_theorems ok_iff \<open>inversion of successful results\<close>
named_theorems wire_bytes \<open>little-endian encodings and slices\<close>

type_synonym byte = "8 word"
type_synonym bytes = "byte list"
type_synonym u8 = "8 word"
type_synonym u16 = "16 word"
type_synonym u32 = "32 word"
type_synonym u64 = "64 word"
type_synonym id32 = bytes

section \<open>Results\<close>

definition rbind :: "'e + 'a \<Rightarrow> ('a \<Rightarrow> 'e + 'b) \<Rightarrow> 'e + 'b" where
  "rbind m f = (case m of Inl e \<Rightarrow> Inl e | Inr x \<Rightarrow> f x)"

definition ok_or :: "'a option \<Rightarrow> 'e \<Rightarrow> 'e + 'a" where
  "ok_or m e = (case m of None \<Rightarrow> Inl e | Some x \<Rightarrow> Inr x)"

definition is_ok :: "'e + 'a \<Rightarrow> bool" where
  "is_ok m = (case m of Inl _ \<Rightarrow> False | Inr _ \<Rightarrow> True)"

fun try_fold :: "('b \<Rightarrow> 'a \<Rightarrow> 'e + 'b) \<Rightarrow> 'b \<Rightarrow> 'a list \<Rightarrow> 'e + 'b" where
  "try_fold f acc [] = Inr acc"
| "try_fold f acc (x # xs) = rbind (f acc x) (\<lambda>acc'. try_fold f acc' xs)"

fun for_each :: "('a \<Rightarrow> 'e + unit) \<Rightarrow> 'a list \<Rightarrow> 'e + unit" where
  "for_each f [] = Inr ()"
| "for_each f (x # xs) = rbind (f x) (\<lambda>_. for_each f xs)"

lemma rbind_simps [simp]:
  "rbind (Inl e) f = Inl e"
  "rbind (Inr x) f = f x"
  by (simp_all add: rbind_def)

lemma rbind_weak_cong [cong]: "m = m' \<Longrightarrow> rbind m f = rbind m' f"
  by simp

lemma rbind_cong [fundef_cong]:
  "m = m' \<Longrightarrow> (\<And>x. m' = Inr x \<Longrightarrow> f x = g x) \<Longrightarrow> rbind m f = rbind m' g"
  by (cases m') auto

lemma rbind_assoc: "rbind (rbind m f) g = rbind m (\<lambda>x. rbind (f x) g)"
  by (cases m) auto

lemma rbind_eq_Inr [ok_iff]: "rbind m f = Inr y \<longleftrightarrow> (\<exists>x. m = Inr x \<and> f x = Inr y)"
  by (cases m) auto

lemma rbind_eq_Inl: "rbind m f = Inl e \<longleftrightarrow> m = Inl e \<or> (\<exists>x. m = Inr x \<and> f x = Inl e)"
  by (cases m) auto

lemma if_Inl_eq_Inr [ok_iff]: "(if c then Inl e else m) = Inr y \<longleftrightarrow> \<not> c \<and> m = Inr y"
  by simp

lemma ok_or_simps [simp]: "ok_or None e = Inl e" "ok_or (Some x) e = Inr x"
  by (simp_all add: ok_or_def)

lemma ok_or_eq_Inr [ok_iff]: "ok_or m e = Inr x \<longleftrightarrow> m = Some x"
  by (cases m) auto

lemma is_ok_simps [simp]: "\<not> is_ok (Inl e)" "is_ok (Inr x)"
  by (simp_all add: is_ok_def)

lemma is_ok_iff: "is_ok m \<longleftrightarrow> (\<exists>x. m = Inr x)"
  by (cases m) auto

lemma for_each_ok [ok_iff]: "for_each f xs = Inr u \<longleftrightarrow> (\<forall>x \<in> set xs. f x = Inr ())"
  by (induction xs) (auto simp: rbind_eq_Inr)

lemma try_fold_append:
  "try_fold f acc (xs @ ys) = rbind (try_fold f acc xs) (\<lambda>acc'. try_fold f acc' ys)"
proof (induction xs arbitrary: acc)
  case Nil
  then show ?case by simp
next
  case (Cons x xs)
  then show ?case by (cases "f acc x") simp_all
qed

text \<open>An invariant of a loop that stops at the first error.\<close>

lemma try_fold_invariant:
  assumes "try_fold f acc xs = Inr r" and "I acc"
    and "\<And>a x b. x \<in> set xs \<Longrightarrow> I a \<Longrightarrow> f a x = Inr b \<Longrightarrow> I b"
  shows "I r"
  using assms by (induction xs arbitrary: acc) (auto simp: rbind_eq_Inr)

lemma try_fold_nth:
  assumes "try_fold f acc xs = Inr r" and "i < length xs"
  shows "\<exists>a b. f a (xs ! i) = Inr b"
  using assms
proof (induction xs arbitrary: acc i)
  case Nil
  then show ?case by simp
next
  case (Cons x xs)
  then show ?case by (cases i) (auto simp: rbind_eq_Inr)
qed

section \<open>Checked arithmetic\<close>

definition checked_add :: "'a::len word \<Rightarrow> 'a word \<Rightarrow> 'a word option" where
  "checked_add a b = (if unat a + unat b < 2 ^ LENGTH('a) then Some (a + b) else None)"

definition checked_mul :: "'a::len word \<Rightarrow> 'a word \<Rightarrow> 'a word option" where
  "checked_mul a b = (if unat a * unat b < 2 ^ LENGTH('a) then Some (a * b) else None)"

definition checked_sub :: "'a::len word \<Rightarrow> 'a word \<Rightarrow> 'a word option" where
  "checked_sub a b = (if b \<le> a then Some (a - b) else None)"

definition usize_checked_add :: "nat \<Rightarrow> nat \<Rightarrow> nat option" where
  "usize_checked_add a b = (if a + b < 2 ^ 64 then Some (a + b) else None)"

definition usize_checked_mul :: "nat \<Rightarrow> nat \<Rightarrow> nat option" where
  "usize_checked_mul a b = (if a * b < 2 ^ 64 then Some (a * b) else None)"

definition div_ceil :: "nat \<Rightarrow> nat \<Rightarrow> nat" where
  "div_ceil n d = (n + d - 1) div d"

lemma unat_bound: "unat (w :: 'a::len word) < 2 ^ LENGTH('a)"
  by (rule unsigned_less)

lemma unat_ucast_u32 [simp]: "unat (ucast (x :: u32) :: u64) = unat x"
proof -
  have "unat x < 2 ^ 64" using unat_bound [of x] by simp
  then show ?thesis by (simp add: unsigned_ucast_eq take_bit_nat_eq_self)
qed

lemma ucast_u32_eq_0 [simp]: "(ucast (x :: u32) :: u64) = 0 \<longleftrightarrow> x = 0"
  by (simp add: word_unat_eq_iff)

lemma checked_add_Some [ok_iff]: "checked_add a b = Some c \<longleftrightarrow> unat c = unat a + unat b"
proof (cases "unat a + unat b < 2 ^ LENGTH('a)")
  case True
  then show ?thesis
    by (auto simp: checked_add_def unat_word_ariths word_unat_eq_iff)
next
  case False
  then have "unat c \<noteq> unat a + unat b"
    using unat_bound [of c] by linarith
  with False show ?thesis by (simp add: checked_add_def)
qed

lemma checked_mul_Some [ok_iff]: "checked_mul a b = Some c \<longleftrightarrow> unat c = unat a * unat b"
proof (cases "unat a * unat b < 2 ^ LENGTH('a)")
  case True
  then show ?thesis
    by (auto simp: checked_mul_def unat_word_ariths word_unat_eq_iff)
next
  case False
  then have "unat c \<noteq> unat a * unat b"
    using unat_bound [of c] by linarith
  with False show ?thesis by (simp add: checked_mul_def)
qed

lemma checked_sub_Some [ok_iff]:
  "checked_sub a b = Some c \<longleftrightarrow> unat b \<le> unat a \<and> unat c = unat a - unat b"
  by (auto simp: checked_sub_def word_le_nat_alt unat_sub_if' word_unat_eq_iff)

lemma usize_checked_add_Some [ok_iff]:
  "usize_checked_add a b = Some c \<longleftrightarrow> a + b < 2 ^ 64 \<and> c = a + b"
  by (auto simp: usize_checked_add_def)

lemma usize_checked_mul_Some [ok_iff]:
  "usize_checked_mul a b = Some c \<longleftrightarrow> a * b < 2 ^ 64 \<and> c = a * b"
  by (auto simp: usize_checked_mul_def)

lemma try_fold_checked_mul:
  "try_fold (\<lambda>acc v. ok_or (checked_mul acc v) e) a vs = Inr r \<Longrightarrow>
     unat r = unat a * prod_list (map unat vs)"
  by (induction vs arbitrary: a) (auto simp: ok_iff)

section \<open>Tilings\<close>

text \<open>A list of (start, length) pairs that covers \<open>[a, b)\<close> left to right without gap or overlap.\<close>

fun tiles :: "nat \<Rightarrow> (nat \<times> nat) list \<Rightarrow> nat \<Rightarrow> bool" where
  "tiles a [] b \<longleftrightarrow> a = b"
| "tiles a ((s, n) # xs) b \<longleftrightarrow> s = a \<and> 0 < n \<and> tiles (a + n) xs b"

lemma tiles_le: "tiles a xs b \<Longrightarrow> a \<le> b"
  by (induction a xs b rule: tiles.induct) auto

lemma tiles_within:
  "tiles a xs b \<Longrightarrow> j < length xs \<Longrightarrow> a \<le> fst (xs ! j) \<and> fst (xs ! j) + snd (xs ! j) \<le> b"
proof (induction a xs b arbitrary: j rule: tiles.induct)
  case (2 a s n xs b)
  then show ?case
  proof (cases j)
    case 0
    with 2 tiles_le [of "a + n" xs b] show ?thesis by simp
  next
    case (Suc j')
    with 2 show ?thesis by fastforce
  qed
qed simp

lemma tiles_cover:
  assumes "tiles a xs b" and "a \<le> x" and "x < b"
  shows "\<exists>!j. j < length xs \<and> fst (xs ! j) \<le> x \<and> x < fst (xs ! j) + snd (xs ! j)"
  using assms
proof (induction a xs b rule: tiles.induct)
  case (1 a b)
  then show ?case by simp
next
  case (2 a s n xs b)
  have "tiles (a + n) xs b" using 2(2) by simp
  then have later: "a + n \<le> fst (xs ! j)" if "j < length xs" for j
    using tiles_within that by blast
  show ?case
  proof (cases "x < a + n")
    case True
    have "j = 0" if "j < length ((s, n) # xs)" "fst (((s, n) # xs) ! j) \<le> x" for j
      using that later [of "j - 1"] True by (cases j) auto
    with True 2(2,3) show ?thesis by (intro ex1I [of _ 0]) auto
  next
    case False
    with 2(1) [OF \<open>tiles (a + n) xs b\<close>] 2(4) obtain j where j: "j < length xs" "fst (xs ! j) \<le> x" "x < fst (xs ! j) + snd (xs ! j)"
      and unique: "\<And>k. k < length xs \<Longrightarrow> fst (xs ! k) \<le> x \<Longrightarrow> x < fst (xs ! k) + snd (xs ! k) \<Longrightarrow> k = j"
      by (metis not_less)
    show ?thesis
    proof (rule ex1I [of _ "Suc j"])
      show "k = Suc j" if "k < length ((s, n) # xs) \<and> fst (((s, n) # xs) ! k) \<le> x
          \<and> x < fst (((s, n) # xs) ! k) + snd (((s, n) # xs) ! k)" for k
        using that unique [of "k - 1"] False 2(2) by (cases k) auto
    qed (use j in simp)
  qed
qed

section \<open>Slices\<close>

definition subslice :: "'a list \<Rightarrow> nat \<Rightarrow> nat \<Rightarrow> 'a list" where
  "subslice xs i j = take (j - i) (drop i xs)"

lemma length_subslice [simp]: "j \<le> length xs \<Longrightarrow> length (subslice xs i j) = j - i"
  by (simp add: subslice_def)

lemma subslice_append_middle [simp]:
  "subslice (xs @ ys @ zs) (length xs) (length xs + length ys) = ys"
  by (simp add: subslice_def)

lemma subslice_full [simp]: "subslice xs 0 (length xs) = xs"
  by (simp add: subslice_def)

lemma subslice_eq_Nil [simp]: "subslice xs i i = []"
  by (simp add: subslice_def)

lemma subslice_concat [wire_bytes]:
  "i \<le> j \<Longrightarrow> j \<le> k \<Longrightarrow> subslice xs i j @ subslice xs j k = subslice xs i k"
  using take_add [of "j - i" "k - j" "drop i xs"] by (simp add: subslice_def)

lemma nth_subslice: "i + n < j \<Longrightarrow> j \<le> length xs \<Longrightarrow> subslice xs i j ! n = xs ! (i + n)"
  by (simp add: subslice_def)

text \<open>\<^verbatim>\<open>Vec::resize\<close> with zeros, and overwriting a slice in place.\<close>

definition resize :: "bytes \<Rightarrow> nat \<Rightarrow> bytes" where
  "resize bs n = take n bs @ replicate (n - length bs) 0"

definition patch :: "bytes \<Rightarrow> nat \<Rightarrow> bytes \<Rightarrow> bytes" where
  "patch bs off v = take off bs @ v @ drop (off + length v) bs"

definition any_nonzero :: "bytes \<Rightarrow> bool" where
  "any_nonzero bs \<longleftrightarrow> list_ex (\<lambda>b. b \<noteq> 0) bs"

section \<open>Little-endian byte strings\<close>

fun le_bytes :: "nat \<Rightarrow> nat \<Rightarrow> bytes" where
  "le_bytes 0 v = []"
| "le_bytes (Suc n) v = of_nat (v mod 256) # le_bytes n (v div 256)"

fun le_value :: "bytes \<Rightarrow> nat" where
  "le_value [] = 0"
| "le_value (b # bs) = unat b + 256 * le_value bs"

definition to_le_bytes :: "'a::len word \<Rightarrow> bytes" where
  "to_le_bytes w = le_bytes (LENGTH('a) div 8) (unat w)"

definition from_le_bytes :: "bytes \<Rightarrow> 'a::len word" where
  "from_le_bytes bs = of_nat (le_value bs)"

lemma length_le_bytes [simp]: "length (le_bytes n v) = n"
  by (induction n arbitrary: v) auto

lemma le_value_bound: "le_value bs < 256 ^ length bs"
proof (induction bs)
  case Nil
  then show ?case by simp
next
  case (Cons b bs)
  have "unat b < 256"
    using unsigned_less [of b] by simp
  with Cons show ?case by simp
qed

lemma le_value_le_bytes: "le_value (le_bytes n v) = v mod 256 ^ n"
proof (induction n arbitrary: v)
  case 0
  then show ?case by simp
next
  case (Suc n)
  have "unat (of_nat (v mod 256) :: byte) = v mod 256"
    by (simp add: unat_of_nat)
  with Suc show ?case
    by (simp add: mod_mult2_eq)
qed

lemma le_bytes_le_value: "le_bytes (length bs) (le_value bs) = bs"
proof (induction bs)
  case Nil
  then show ?case by simp
next
  case (Cons b bs)
  have "unat b < 256"
    using unsigned_less [of b] by simp
  with Cons show ?case by simp
qed

lemma length_to_le_bytes [simp]:
  "length (to_le_bytes (w :: 'a::len word)) = LENGTH('a) div 8"
  by (simp add: to_le_bytes_def)

lemma two_power_byte_width: "8 dvd n \<Longrightarrow> (256 :: nat) ^ (n div 8) = 2 ^ n"
proof -
  assume "8 dvd n"
  then obtain k where n: "n = 8 * k" ..
  have "(256 :: nat) ^ k = (2 ^ 8) ^ k" by simp
  also have "\<dots> = 2 ^ (8 * k)" by (simp only: power_mult)
  finally show ?thesis using n by simp
qed

lemma from_to_le_bytes [simp]:
  "8 dvd LENGTH('a) \<Longrightarrow> from_le_bytes (to_le_bytes (w :: 'a::len word)) = w"
  by (simp add: from_le_bytes_def to_le_bytes_def le_value_le_bytes two_power_byte_width)

lemma to_from_le_bytes [simp]:
  assumes "length bs = LENGTH('a) div 8" and "8 dvd LENGTH('a::len)"
  shows "to_le_bytes (from_le_bytes bs :: 'a word) = bs"
proof -
  have "le_value bs < 2 ^ LENGTH('a)"
    using le_value_bound [of bs] assms two_power_byte_width [of "LENGTH('a)"] by simp
  then have "unat (from_le_bytes bs :: 'a word) = le_value bs"
    by (simp add: from_le_bytes_def unat_of_nat)
  then show ?thesis
    using assms le_bytes_le_value [of bs] by (simp add: to_le_bytes_def)
qed

end
