(* ===== verification/Canonical.thy ===== *)
theory Canonical
  imports Kvpack_Prelude
begin

text \<open>
  The canonical encoder and decoder of \<^verbatim>\<open>kvpack-core/src/canonical.rs\<close> and the error type of
  \<^verbatim>\<open>error.rs\<close>.  An \<open>encoder\<close> is the byte vector built so far and a \<open>put\<close> is one statement that
  extends it or fails; \<open>enc_seq\<close> is a block of such statements.  A \<open>decoder\<close> is the borrowed
  input with its offset and a \<open>get\<close> is one fallible read; \<open>dbind\<close> is the sequence of two reads,
  the second of which sees the value of the first, and \<open>dec_times\<close> is the loop that pushes a
  counted number of elements.

  The contract that every wire type of the development satisfies is the locale \<open>wire_codec\<close>:
  a well-formed value is read back from the bytes it emits, and whatever a decoder accepts is
  well formed and is exactly the bytes its value emits.  Lists are proved once, in the locale.
  The locale \<open>canonical_object\<close> is the contract of a whole authenticated object.
\<close>

named_theorems codes_then \<open>composition rules for reading back what was emitted\<close>
named_theorems spec_then \<open>composition rules for what an accepting decoder consumed\<close>

section \<open>Errors\<close>

datatype pack_error =
    UnknownEnum string u64
  | U64Range string
  | BadMagic string
  | Checksum string
  | Reserved string
  | Truncated string
  | Bounds string
  | Semantics string
  | Graph string
  | Authentication string
  | Codec string
  | Poisoned string

type_synonym 'a result = "pack_error + 'a"

section \<open>UTF-8 validity, as checked by the standard library's str::from_utf8\<close>

definition utf8_cont :: "byte \<Rightarrow> bool" where
  "utf8_cont b \<longleftrightarrow> 0x80 \<le> b \<and> b \<le> 0xBF"

definition utf8_pair :: "byte \<Rightarrow> bool" where
  "utf8_pair b0 \<longleftrightarrow> 0xC2 \<le> b0 \<and> b0 \<le> 0xDF"

definition utf8_triple :: "byte \<Rightarrow> byte \<Rightarrow> bool" where
  "utf8_triple b0 b1 \<longleftrightarrow>
     (b0 = 0xE0 \<and> 0xA0 \<le> b1 \<and> b1 \<le> 0xBF)
   \<or> (0xE1 \<le> b0 \<and> b0 \<le> 0xEC \<and> utf8_cont b1)
   \<or> (b0 = 0xED \<and> 0x80 \<le> b1 \<and> b1 \<le> 0x9F)
   \<or> (0xEE \<le> b0 \<and> b0 \<le> 0xEF \<and> utf8_cont b1)"

definition utf8_quad :: "byte \<Rightarrow> byte \<Rightarrow> bool" where
  "utf8_quad b0 b1 \<longleftrightarrow>
     (b0 = 0xF0 \<and> 0x90 \<le> b1 \<and> b1 \<le> 0xBF)
   \<or> (0xF1 \<le> b0 \<and> b0 \<le> 0xF3 \<and> utf8_cont b1)
   \<or> (b0 = 0xF4 \<and> 0x80 \<le> b1 \<and> b1 \<le> 0x8F)"

fun valid_utf8 :: "bytes \<Rightarrow> bool" where
  "valid_utf8 [] = True"
| "valid_utf8 (b0 # r0) =
     (if b0 < 0x80 then valid_utf8 r0
      else case r0 of
        [] \<Rightarrow> False
      | b1 # r1 \<Rightarrow>
          if utf8_pair b0 then utf8_cont b1 \<and> valid_utf8 r1
          else case r1 of
            [] \<Rightarrow> False
          | b2 # r2 \<Rightarrow>
              if utf8_triple b0 b1 then utf8_cont b2 \<and> valid_utf8 r2
              else case r2 of
                [] \<Rightarrow> False
              | b3 # r3 \<Rightarrow> utf8_quad b0 b1 \<and> utf8_cont b2 \<and> utf8_cont b3 \<and> valid_utf8 r3)"

section \<open>Encoder\<close>

type_synonym encoder = bytes
type_synonym put = "encoder \<Rightarrow> encoder result"

definition enc_new :: "bytes \<Rightarrow> encoder" where
  "enc_new magic = magic"

definition enc_u8 :: "u8 \<Rightarrow> put" where
  "enc_u8 v out = Inr (out @ [v])"

definition enc_u16 :: "u16 \<Rightarrow> put" where
  "enc_u16 v out = Inr (out @ to_le_bytes v)"

definition enc_u32 :: "u32 \<Rightarrow> put" where
  "enc_u32 v out = Inr (out @ to_le_bytes v)"

definition enc_u64 :: "u64 \<Rightarrow> put" where
  "enc_u64 v out = Inr (out @ to_le_bytes v)"

definition enc_bytes :: "bytes \<Rightarrow> put" where
  "enc_bytes v out = Inr (out @ v)"

definition enc_id :: "id32 \<Rightarrow> put" where
  "enc_id v = enc_bytes v"

fun enc_seq :: "put list \<Rightarrow> put" where
  "enc_seq [] out = Inr out"
| "enc_seq (e # es) out = rbind (e out) (enc_seq es)"

declare enc_seq.simps [simp del]

definition try_from_usize :: "nat \<Rightarrow> string \<Rightarrow> 'a::len word result" where
  "try_from_usize n msg = (if n < 2 ^ LENGTH('a) then Inr (of_nat n) else Inl (Bounds msg))"

definition enc_try :: "'a result \<Rightarrow> ('a \<Rightarrow> put) \<Rightarrow> put" where
  "enc_try m f out = rbind m (\<lambda>v. f v out)"

definition enc_string :: "bytes \<Rightarrow> put" where
  "enc_string s = enc_try (try_from_usize (length s) ''string is too long'')
     (\<lambda>len. enc_seq [enc_u16 len, enc_bytes s])"

definition enc_finish :: "encoder \<Rightarrow> bytes" where
  "enc_finish out = out"

section \<open>Decoder\<close>

record decoder =
  dec_bytes :: bytes
  dec_offset :: nat

type_synonym 'a get = "decoder \<Rightarrow> ('a \<times> decoder) result"

definition dec_new :: "bytes \<Rightarrow> bytes \<Rightarrow> decoder result" where
  "dec_new bs magic =
     (if length bs < 8 then Inl (Truncated ''truncated canonical object'')
      else if take 8 bs \<noteq> magic then Inl (BadMagic ''invalid canonical object magic'')
      else Inr \<lparr>dec_bytes = bs, dec_offset = 8\<rparr>)"

definition dret :: "'a \<Rightarrow> 'a get" where
  "dret x d = Inr (x, d)"

definition dfail :: "pack_error \<Rightarrow> 'a get" where
  "dfail e d = Inl e"

definition dbind :: "'a get \<Rightarrow> ('a \<Rightarrow> 'b get) \<Rightarrow> 'b get" where
  "dbind p f d = rbind (p d) (\<lambda>(x, d'). f x d')"

definition dlift :: "'a result \<Rightarrow> 'a get" where
  "dlift m d = rbind m (\<lambda>x. Inr (x, d))"

definition dec_take :: "nat \<Rightarrow> bytes get" where
  "dec_take len d =
     (case usize_checked_add (dec_offset d) len of
        None \<Rightarrow> Inl (Bounds ''canonical offset overflow'')
      | Some end \<Rightarrow>
          if end \<le> length (dec_bytes d)
          then Inr (subslice (dec_bytes d) (dec_offset d) end, d\<lparr>dec_offset := end\<rparr>)
          else Inl (Truncated ''truncated canonical object''))"

definition dec_u8 :: "u8 get" where
  "dec_u8 = dbind (dec_take 1) (\<lambda>bs. dret (bs ! 0))"

definition dec_u16 :: "u16 get" where
  "dec_u16 = dbind (dec_take 2) (\<lambda>bs. dret (from_le_bytes bs))"

definition dec_u32 :: "u32 get" where
  "dec_u32 = dbind (dec_take 4) (\<lambda>bs. dret (from_le_bytes bs))"

definition dec_u64 :: "u64 get" where
  "dec_u64 = dbind (dec_take 8) (\<lambda>bs. dret (from_le_bytes bs))"

definition dec_id :: "id32 get" where
  "dec_id = dec_take 32"

definition dec_string :: "bytes get" where
  "dec_string = dbind dec_u16 (\<lambda>len. dbind (dec_take (unat len)) (\<lambda>bs.
     if valid_utf8 bs then dret bs else dfail (Semantics ''state name is not UTF-8'')))"

definition dec_finish :: "decoder \<Rightarrow> unit result" where
  "dec_finish d =
     (if dec_offset d \<noteq> length (dec_bytes d)
      then Inl (Reserved ''trailing canonical bytes'') else Inr ())"

fun dec_times :: "nat \<Rightarrow> 'a get \<Rightarrow> 'a list get" where
  "dec_times 0 p = dret []"
| "dec_times (Suc n) p = dbind p (\<lambda>x. dbind (dec_times n p) (\<lambda>xs. dret (x # xs)))"

text \<open>The frame shared by the canonical objects: a decoder over the whole input, one body, and
  no trailing bytes.\<close>

definition decode_object :: "bytes \<Rightarrow> 'a get \<Rightarrow> bytes \<Rightarrow> 'a result" where
  "decode_object magic p bs =
     rbind (dec_new bs magic) (\<lambda>d.
     rbind (p d) (\<lambda>(v, d').
     rbind (dec_finish d') (\<lambda>_. Inr v)))"

section \<open>Reading back what was emitted\<close>

definition emits :: "put \<Rightarrow> bytes \<Rightarrow> bool" where
  "emits e bs \<longleftrightarrow> (\<forall>out. e out = Inr (out @ bs))"

definition reads :: "'a get \<Rightarrow> bytes \<Rightarrow> 'a \<Rightarrow> bool" where
  "reads p bs x \<longleftrightarrow> (\<forall>pre post. length (pre @ bs @ post) < 2 ^ 64 \<longrightarrow>
     p \<lparr>dec_bytes = pre @ bs @ post, dec_offset = length pre\<rparr>
       = Inr (x, \<lparr>dec_bytes = pre @ bs @ post, dec_offset = length pre + length bs\<rparr>))"

definition codes :: "put \<Rightarrow> 'a get \<Rightarrow> 'a \<Rightarrow> bool" where
  "codes e p x \<longleftrightarrow> (\<exists>bs. emits e bs \<and> reads p bs x)"

definition well_placed :: "decoder \<Rightarrow> bool" where
  "well_placed d \<longleftrightarrow> dec_offset d \<le> length (dec_bytes d) \<and> dec_offset d < 2 ^ 64"

definition consumed :: "decoder \<Rightarrow> bytes \<Rightarrow> decoder \<Rightarrow> bool" where
  "consumed d bs d' \<longleftrightarrow>
     dec_bytes d' = dec_bytes d \<and> dec_offset d \<le> dec_offset d' \<and>
     dec_offset d' \<le> length (dec_bytes d) \<and> dec_offset d' < 2 ^ 64 \<and>
     bs = subslice (dec_bytes d) (dec_offset d) (dec_offset d')"

definition get_spec :: "'a get \<Rightarrow> ('a \<Rightarrow> bytes \<Rightarrow> bool) \<Rightarrow> bool" where
  "get_spec p R \<longleftrightarrow>
     (\<forall>d x d'. well_placed d \<longrightarrow> p d = Inr (x, d') \<longrightarrow> (\<exists>bs. consumed d bs d' \<and> R x bs))"

lemma emits_unique: "emits e bs \<Longrightarrow> emits e cs \<Longrightarrow> bs = cs"
  by (simp add: emits_def)

lemma emits_run: "emits e bs \<Longrightarrow> e out = Inr (out @ bs)"
  by (simp add: emits_def)

lemma emits_Nil: "emits (enc_seq []) []"
  by (simp add: emits_def enc_seq.simps)

lemma emits_Cons:
  "emits e bs \<Longrightarrow> emits (enc_seq es) cs \<Longrightarrow> emits (enc_seq (e # es)) (bs @ cs)"
  by (simp add: emits_def enc_seq.simps)

lemma emits_append:
  "emits (enc_seq es) bs \<Longrightarrow> emits (enc_seq fs) cs \<Longrightarrow> emits (enc_seq (es @ fs)) (bs @ cs)"
proof (unfold emits_def, intro allI)
  fix out
  assume es: "\<forall>out. enc_seq es out = Inr (out @ bs)"
    and fs: "\<forall>out. enc_seq fs out = Inr (out @ cs)"
  have "enc_seq (es @ fs) out = rbind (enc_seq es out) (enc_seq fs)"
  proof (induction es arbitrary: out)
    case Nil
    then show ?case by (simp add: enc_seq.simps)
  next
    case (Cons e es)
    then show ?case by (cases "e out") (simp_all add: enc_seq.simps)
  qed
  with es fs show "enc_seq (es @ fs) out = Inr (out @ bs @ cs)" by simp
qed

lemma emits_prims [simp]:
  "emits (enc_u8 a) bs \<longleftrightarrow> bs = [a]"
  "emits (enc_u16 b) bs \<longleftrightarrow> bs = to_le_bytes b"
  "emits (enc_u32 c) bs \<longleftrightarrow> bs = to_le_bytes c"
  "emits (enc_u64 d) bs \<longleftrightarrow> bs = to_le_bytes d"
  "emits (enc_bytes v) bs \<longleftrightarrow> bs = v"
  "emits (enc_id v) bs \<longleftrightarrow> bs = v"
  by (auto simp: emits_def enc_u8_def enc_u16_def enc_u32_def enc_u64_def enc_bytes_def enc_id_def)

lemma emits_try [simp]: "emits (enc_try (Inr v) f) bs \<longleftrightarrow> emits (f v) bs"
  by (simp add: emits_def enc_try_def)

lemma try_from_usize_Inr [simp]:
  "n < 2 ^ LENGTH('a) \<Longrightarrow> (try_from_usize n msg :: 'a::len word result) = Inr (of_nat n)"
  by (simp add: try_from_usize_def)

lemma try_from_usize_eq_Inr [ok_iff]:
  "(try_from_usize n msg = Inr (w :: 'a::len word)) \<longleftrightarrow> n = unat w"
  by (auto simp: try_from_usize_def unat_of_nat)

lemma reads_run:
  "reads p bs x \<Longrightarrow> length (pre @ bs @ post) < 2 ^ 64 \<Longrightarrow>
   p \<lparr>dec_bytes = pre @ bs @ post, dec_offset = length pre\<rparr>
     = Inr (x, \<lparr>dec_bytes = pre @ bs @ post, dec_offset = length pre + length bs\<rparr>)"
  by (simp add: reads_def)

lemma reads_dret [simp]: "reads (dret x) [] x"
  by (simp add: reads_def dret_def)

lemma reads_bind:
  assumes p: "reads p bs x" and f: "reads (f x) cs y"
  shows "reads (dbind p f) (bs @ cs) y"
  unfolding reads_def
proof (intro allI impI)
  fix pre post :: bytes
  let ?all = "pre @ (bs @ cs) @ post"
  assume len: "length ?all < 2 ^ 64"
  have "p \<lparr>dec_bytes = ?all, dec_offset = length pre\<rparr>
      = Inr (x, \<lparr>dec_bytes = ?all, dec_offset = length pre + length bs\<rparr>)"
    using reads_run [OF p, of pre "cs @ post"] len by simp
  moreover have "f x \<lparr>dec_bytes = ?all, dec_offset = length pre + length bs\<rparr>
      = Inr (y, \<lparr>dec_bytes = ?all, dec_offset = length pre + length (bs @ cs)\<rparr>)"
    using reads_run [OF f, of "pre @ bs" post] len by (simp add: add.assoc)
  ultimately show "dbind p f \<lparr>dec_bytes = ?all, dec_offset = length pre\<rparr>
      = Inr (y, \<lparr>dec_bytes = ?all, dec_offset = length pre + length (bs @ cs)\<rparr>)"
    by (simp add: dbind_def)
qed

lemma reads_take: "reads (dec_take (length bs)) bs bs"
  by (simp add: reads_def dec_take_def usize_checked_add_def)

lemma codesI: "emits e bs \<Longrightarrow> reads p bs x \<Longrightarrow> codes e p x"
  by (auto simp: codes_def)

lemma codes_dret [codes_then]: "x = y \<Longrightarrow> codes (enc_seq []) (dret x) y"
  using codesI [OF emits_Nil reads_dret] by simp

lemma codes_bind:
  "codes e p x \<Longrightarrow> codes (enc_seq es) (f x) y \<Longrightarrow> codes (enc_seq (e # es)) (dbind p f) y"
  unfolding codes_def by (blast intro: emits_Cons reads_bind)

lemma codes_bind_pure: "codes e p x \<Longrightarrow> f x = dret y \<Longrightarrow> codes e (dbind p f) y"
  unfolding codes_def using reads_bind [of p _ x f "[]" y] by fastforce

lemma reads_map_take:
  "length bs = n \<Longrightarrow> reads (dbind (dec_take n) (\<lambda>bs. dret (g bs))) bs (g bs)"
  using reads_bind [of "dec_take n" bs bs "\<lambda>bs. dret (g bs)" "[]" "g bs"] reads_take [of bs]
  by simp

lemma codes_prims:
  "codes (enc_u8 a) dec_u8 a"
  "codes (enc_u16 b) dec_u16 b"
  "codes (enc_u32 c) dec_u32 c"
  "codes (enc_u64 d) dec_u64 d"
  using reads_map_take [of "[a]" 1 "\<lambda>bs. bs ! 0"]
    reads_map_take [of "to_le_bytes b" 2 "from_le_bytes :: bytes \<Rightarrow> u16"]
    reads_map_take [of "to_le_bytes c" 4 "from_le_bytes :: bytes \<Rightarrow> u32"]
    reads_map_take [of "to_le_bytes d" 8 "from_le_bytes :: bytes \<Rightarrow> u64"]
  by (auto simp: codes_def dec_u8_def dec_u16_def dec_u32_def dec_u64_def)

lemma codes_bytes: "length v = n \<Longrightarrow> codes (enc_bytes v) (dec_take n) v"
  using reads_take [of v] by (auto simp: codes_def)

lemma codes_id: "length v = 32 \<Longrightarrow> codes (enc_id v) dec_id v"
  using reads_take [of v] by (auto simp: codes_def dec_id_def)

lemma codes_try: "m = Inr v \<Longrightarrow> codes (f v) p x \<Longrightarrow> codes (enc_try m f) p x"
  by (auto simp: codes_def)

lemma codes_prims_then [codes_then]:
  "codes (enc_seq es) (f8 a) y \<Longrightarrow> codes (enc_seq (enc_u8 a # es)) (dbind dec_u8 f8) y"
  "codes (enc_seq es) (f16 b) y \<Longrightarrow> codes (enc_seq (enc_u16 b # es)) (dbind dec_u16 f16) y"
  "codes (enc_seq es) (f32 c) y \<Longrightarrow> codes (enc_seq (enc_u32 c # es)) (dbind dec_u32 f32) y"
  "codes (enc_seq es) (f64 d) y \<Longrightarrow> codes (enc_seq (enc_u64 d # es)) (dbind dec_u64 f64) y"
  by (rule codes_bind [OF codes_prims(1)] codes_bind [OF codes_prims(2)]
      codes_bind [OF codes_prims(3)] codes_bind [OF codes_prims(4)], assumption)+

lemma codes_id_then [codes_then]:
  "length v = 32 \<Longrightarrow> codes (enc_seq es) (f v) y \<Longrightarrow> codes (enc_seq (enc_id v # es)) (dbind dec_id f) y"
  by (rule codes_bind [OF codes_id])

lemma codes_bytes_then [codes_then]:
  "length v = n \<Longrightarrow> codes (enc_seq es) (f v) y \<Longrightarrow>
   codes (enc_seq (enc_bytes v # es)) (dbind (dec_take n) f) y"
  by (rule codes_bind [OF codes_bytes])

lemma codes_try_cong: "m = Inr v \<Longrightarrow> codes (enc_seq (e v # es)) p y \<Longrightarrow> codes (enc_seq (enc_try m e # es)) p y"
proof -
  assume "m = Inr v"
  then have "enc_try m e = e v" by (simp add: enc_try_def fun_eq_iff)
  then show "codes (enc_seq (e v # es)) p y \<Longrightarrow> codes (enc_seq (enc_try m e # es)) p y" by simp
qed

lemma codes_count_then [codes_then]:
  "n < 2 ^ 8 \<Longrightarrow> codes (enc_seq es) (f8 (of_nat n)) y \<Longrightarrow>
     codes (enc_seq (enc_try (try_from_usize n msg) enc_u8 # es)) (dbind dec_u8 f8) y"
  "n < 2 ^ 16 \<Longrightarrow> codes (enc_seq es) (f16 (of_nat n)) y \<Longrightarrow>
     codes (enc_seq (enc_try (try_from_usize n msg) enc_u16 # es)) (dbind dec_u16 f16) y"
  "n < 2 ^ 32 \<Longrightarrow> codes (enc_seq es) (f32 (of_nat n)) y \<Longrightarrow>
     codes (enc_seq (enc_try (try_from_usize n msg) enc_u32 # es)) (dbind dec_u32 f32) y"
  by (rule codes_try_cong [where v = "of_nat n"], simp, erule codes_prims_then)+

lemma codes_count32:
  "n < 2 ^ 32 \<Longrightarrow> codes (enc_try (try_from_usize n msg) enc_u32) dec_u32 (of_nat n)"
  by (rule codes_try [where f = enc_u32 and v = "of_nat n"]) (simp_all add: codes_prims)

lemma codes_guard [codes_then]:
  "\<not> c \<Longrightarrow> codes e p y \<Longrightarrow> codes e (if c then q else p) y"
  by simp

section \<open>What an accepting decoder consumed\<close>

lemma get_specI:
  "(\<And>d x d'. well_placed d \<Longrightarrow> p d = Inr (x, d') \<Longrightarrow> \<exists>bs. consumed d bs d' \<and> R x bs)
   \<Longrightarrow> get_spec p R"
  by (simp add: get_spec_def)

lemma get_specD:
  "get_spec p R \<Longrightarrow> well_placed d \<Longrightarrow> p d = Inr (x, d') \<Longrightarrow> \<exists>bs. consumed d bs d' \<and> R x bs"
  by (simp add: get_spec_def)

lemma get_spec_mono: "get_spec p R \<Longrightarrow> (\<And>x bs. R x bs \<Longrightarrow> S x bs) \<Longrightarrow> get_spec p S"
  unfolding get_spec_def by blast

lemma consumed_refl: "well_placed d \<Longrightarrow> consumed d [] d"
  by (simp add: consumed_def well_placed_def)

lemma consumed_placed: "consumed d bs d' \<Longrightarrow> well_placed d'"
  by (simp add: consumed_def well_placed_def)

lemma consumed_trans: "consumed d bs d' \<Longrightarrow> consumed d' cs d'' \<Longrightarrow> consumed d (bs @ cs) d''"
  by (auto simp: consumed_def subslice_concat)

lemma get_spec_dret [spec_then]: "R x [] \<Longrightarrow> get_spec (dret x) R"
  by (rule get_specI) (auto simp: dret_def dest: consumed_refl)

lemma get_spec_dfail [spec_then]: "get_spec (dfail e) R"
  by (rule get_specI) (simp add: dfail_def)

lemma get_spec_dlift [spec_then]: "(\<And>x. m = Inr x \<Longrightarrow> R x []) \<Longrightarrow> get_spec (dlift m) R"
  by (rule get_specI) (auto simp: dlift_def rbind_eq_Inr dest: consumed_refl)

lemma get_spec_bind:
  assumes p: "get_spec p P" and f: "\<And>x bs. P x bs \<Longrightarrow> get_spec (f x) (\<lambda>y cs. R y (bs @ cs))"
  shows "get_spec (dbind p f) R"
proof (rule get_specI)
  fix d y d''
  assume d: "well_placed d" and run: "dbind p f d = Inr (y, d'')"
  then obtain x d' where p_run: "p d = Inr (x, d')" and f_run: "f x d' = Inr (y, d'')"
    by (auto simp: dbind_def rbind_eq_Inr)
  from p d p_run obtain bs where bs: "consumed d bs d'" "P x bs"
    unfolding get_spec_def by blast
  with f [of x bs] f_run obtain cs where "consumed d' cs d''" "R y (bs @ cs)"
    unfolding get_spec_def using consumed_placed by blast
  with bs show "\<exists>bs. consumed d bs d'' \<and> R y bs"
    using consumed_trans by blast
qed

lemma get_spec_if [spec_then]:
  "(c \<Longrightarrow> get_spec p R) \<Longrightarrow> (\<not> c \<Longrightarrow> get_spec q R) \<Longrightarrow> get_spec (if c then p else q) R"
  by simp

lemma get_spec_take: "get_spec (dec_take n) (\<lambda>v bs. length v = n \<and> bs = v)"
  by (rule get_specI)
    (auto simp: dec_take_def usize_checked_add_def consumed_def split: if_splits)

lemma get_spec_map_take:
  assumes "\<And>bs. length bs = n \<Longrightarrow> R (g bs) bs"
  shows "get_spec (dbind (dec_take n) (\<lambda>bs. dret (g bs))) R"
  by (rule get_spec_bind [OF get_spec_take], rule get_spec_dret) (use assms in auto)

lemma get_spec_prims:
  "get_spec dec_u8 (\<lambda>v. emits (enc_u8 v))"
  "get_spec dec_u16 (\<lambda>v. emits (enc_u16 v))"
  "get_spec dec_u32 (\<lambda>v. emits (enc_u32 v))"
  "get_spec dec_u64 (\<lambda>v. emits (enc_u64 v))"
proof -
  show "get_spec dec_u8 (\<lambda>v. emits (enc_u8 v))"
    unfolding dec_u8_def
    by (rule get_spec_map_take) (metis One_nat_def emits_prims(1) length_0_conv length_Suc_conv
        nth_Cons_0)
qed (auto simp: dec_u16_def dec_u32_def dec_u64_def intro!: get_spec_map_take)

lemma get_spec_id: "get_spec dec_id (\<lambda>v bs. length v = 32 \<and> emits (enc_id v) bs)"
  unfolding dec_id_def by (rule get_spec_mono [OF get_spec_take]) simp

lemma get_spec_prims_then [spec_then]:
  "(\<And>a. get_spec (f8 a) (\<lambda>y cs. R y (a # cs))) \<Longrightarrow> get_spec (dbind dec_u8 f8) R"
  "(\<And>b. get_spec (f16 b) (\<lambda>y cs. R y (to_le_bytes b @ cs))) \<Longrightarrow> get_spec (dbind dec_u16 f16) R"
  "(\<And>c. get_spec (f32 c) (\<lambda>y cs. R y (to_le_bytes c @ cs))) \<Longrightarrow> get_spec (dbind dec_u32 f32) R"
  "(\<And>d. get_spec (f64 d) (\<lambda>y cs. R y (to_le_bytes d @ cs))) \<Longrightarrow> get_spec (dbind dec_u64 f64) R"
  by (rule get_spec_bind [OF get_spec_prims(1)], simp)
    (rule get_spec_bind [OF get_spec_prims(2)], simp,
     rule get_spec_bind [OF get_spec_prims(3)], simp,
     rule get_spec_bind [OF get_spec_prims(4)], simp)

lemma get_spec_id_then [spec_then]:
  "(\<And>v. length v = 32 \<Longrightarrow> get_spec (f v) (\<lambda>y cs. R y (v @ cs))) \<Longrightarrow> get_spec (dbind dec_id f) R"
  by (rule get_spec_bind [OF get_spec_id]) simp

lemma emits_Cons_u8:
  "emits (enc_seq es) cs \<Longrightarrow> emits (enc_seq (enc_u8 a # es)) (a # cs)"
  "emits (enc_seq es) cs \<Longrightarrow> emits (enc_seq (enc_try (Inr a) enc_u8 # es)) (a # cs)"
  using emits_Cons [of "enc_u8 a" "[a]" es cs] emits_Cons [of "enc_try (Inr a) enc_u8" "[a]" es cs]
  by simp_all

lemmas emits_steps = emits_Cons emits_Cons_u8 emits_Nil

section \<open>The contract of a wire type\<close>

locale wire_codec =
  fixes enc :: "'a \<Rightarrow> put"
    and dec :: "'a get"
    and ok :: "'a \<Rightarrow> bool"
  assumes round: "ok x \<Longrightarrow> codes (enc x) dec x"
    and canon: "get_spec dec (\<lambda>x bs. ok x \<and> emits (enc x) bs)"
begin

lemma enc_total: "ok x \<Longrightarrow> \<exists>bs. emits (enc x) bs"
  using round by (auto simp: codes_def)

lemma enc_reads: "ok x \<Longrightarrow> emits (enc x) bs \<Longrightarrow> reads dec bs x"
  using round emits_unique by (fastforce simp: codes_def)

lemma round_then:
  "ok x \<Longrightarrow> codes (enc_seq es) (f x) y \<Longrightarrow> codes (enc_seq (enc x # es)) (dbind dec f) y"
  by (rule codes_bind [OF round])

lemma canon_then:
  "(\<And>x bs. ok x \<Longrightarrow> emits (enc x) bs \<Longrightarrow> get_spec (f x) (\<lambda>y cs. R y (bs @ cs)))
   \<Longrightarrow> get_spec (dbind dec f) R"
  by (rule get_spec_bind [OF canon]) simp

lemma round_list:
  "list_all ok xs \<Longrightarrow> n = length xs \<Longrightarrow> codes (enc_seq (map enc xs)) (dec_times n dec) xs"
proof (induction xs arbitrary: n)
  case Nil
  then show ?case by (simp add: codes_dret)
next
  case (Cons x xs)
  then have x: "codes (enc x) dec x" and xs: "codes (enc_seq (map enc xs)) (dec_times (length xs) dec) xs"
    by (simp_all add: round)
  then obtain bs cs where "emits (enc x) bs" "reads dec bs x"
    "emits (enc_seq (map enc xs)) cs" "reads (dec_times (length xs) dec) cs xs"
    by (auto simp: codes_def)
  then have "emits (enc_seq (map enc (x # xs))) (bs @ cs @ [])"
    "reads (dec_times (length (x # xs)) dec) (bs @ cs @ []) (x # xs)"
    by (auto intro!: emits_Cons reads_bind reads_dret simp del: append_Nil2)
      (auto intro: emits_Cons)
  then show ?case using Cons.prems by (auto simp: codes_def)
qed

lemma round_list_then:
  "list_all ok xs \<Longrightarrow> n = length xs \<Longrightarrow> codes (enc_seq es) (f xs) y \<Longrightarrow>
   codes (enc_seq (enc_seq (map enc xs) # es)) (dbind (dec_times n dec) f) y"
  by (rule codes_bind [OF round_list])

lemma canon_list:
  "get_spec (dec_times n dec)
     (\<lambda>xs bs. length xs = n \<and> list_all ok xs \<and> emits (enc_seq (map enc xs)) bs)"
proof (induction n)
  case 0
  show ?case by (auto intro!: spec_then emits_Nil)
next
  case (Suc n)
  show ?case
    unfolding dec_times.simps
    by (rule canon_then, rule get_spec_bind [OF Suc], rule get_spec_dret) (auto intro: emits_Cons)
qed

lemma canon_list_then:
  "(\<And>xs bs. length xs = n \<Longrightarrow> list_all ok xs \<Longrightarrow> emits (enc_seq (map enc xs)) bs \<Longrightarrow>
      get_spec (f xs) (\<lambda>y cs. R y (bs @ cs)))
   \<Longrightarrow> get_spec (dbind (dec_times n dec) f) R"
  by (rule get_spec_bind [OF canon_list]) simp

text \<open>Two well-formed values with the same bytes are equal, and no encoding is a proper prefix
  of another: a decoder never has to look past a value to find its end.\<close>

lemma enc_inj:
  assumes "ok x" "ok y" "emits (enc x) bs" "emits (enc y) (bs @ cs)" "length (bs @ cs) < 2 ^ 64"
  shows "x = y \<and> cs = []"
proof -
  have "dec \<lparr>dec_bytes = bs @ cs, dec_offset = 0\<rparr>
      = Inr (x, \<lparr>dec_bytes = bs @ cs, dec_offset = length bs\<rparr>)"
    using reads_run [OF enc_reads [OF assms(1,3)], of "[]" cs] assms(5) by simp
  moreover have "dec \<lparr>dec_bytes = bs @ cs, dec_offset = 0\<rparr>
      = Inr (y, \<lparr>dec_bytes = bs @ cs, dec_offset = length (bs @ cs)\<rparr>)"
    using reads_run [OF enc_reads [OF assms(2,4)], of "[]" "[]"] assms(5) by simp
  ultimately show ?thesis by simp
qed

end

interpretation u16_codec: wire_codec enc_u16 dec_u16 "\<lambda>_. True"
  by unfold_locales (auto intro: codes_prims get_spec_mono [OF get_spec_prims(2)])

interpretation u32_codec: wire_codec enc_u32 dec_u32 "\<lambda>_. True"
  by unfold_locales (auto intro: codes_prims get_spec_mono [OF get_spec_prims(3)])

interpretation u64_codec: wire_codec enc_u64 dec_u64 "\<lambda>_. True"
  by unfold_locales (auto intro: codes_prims get_spec_mono [OF get_spec_prims(4)])

interpretation id_codec: wire_codec enc_id dec_id "\<lambda>v. length v = 32"
  by unfold_locales (auto intro: codes_id get_spec_mono [OF get_spec_id])

definition ok_string :: "bytes \<Rightarrow> bool" where
  "ok_string s \<longleftrightarrow> length s < 2 ^ 16 \<and> valid_utf8 s"

interpretation string_codec: wire_codec enc_string dec_string ok_string
proof
  fix s
  assume ok: "ok_string s"
  then have len: "unat (of_nat (length s) :: u16) = length s"
    by (simp add: ok_string_def unat_of_nat)
  have run: "enc_string s = enc_seq [enc_u16 (of_nat (length s)), enc_bytes s]"
    using ok by (simp add: enc_string_def enc_try_def fun_eq_iff ok_string_def)
  show "codes (enc_string s) dec_string s"
    unfolding run dec_string_def
    by (intro codes_prims_then codes_bytes_then)
      (use ok in \<open>simp_all add: len ok_string_def codes_dret\<close>)
next
  have "get_spec (dbind (dec_take (unat len)) (\<lambda>bs.
          if valid_utf8 bs then dret bs else dfail (Semantics ''state name is not UTF-8'')))
        (\<lambda>s cs. ok_string s \<and> emits (enc_string s) (to_le_bytes len @ cs))" for len :: u16
  proof (rule get_spec_bind [OF get_spec_take], intro spec_then)
    fix s bs :: bytes
    assume s: "length s = unat len \<and> bs = s" and utf8: "valid_utf8 s"
    then have bound: "length s < 2 ^ 16" using unat_bound [of len] by simp
    moreover have "of_nat (length s) = len" using s by simp
    ultimately show "ok_string s \<and> emits (enc_string s) (to_le_bytes len @ bs @ [])"
      using s utf8 emits_Cons [OF _ emits_Cons [OF _ emits_Nil], of "enc_u16 len" _ "enc_bytes s" s]
      by (simp add: ok_string_def enc_string_def)
  qed
  then show "get_spec dec_string (\<lambda>s bs. ok_string s \<and> emits (enc_string s) bs)"
    unfolding dec_string_def by (intro get_spec_prims_then)
qed

section \<open>Refusing what was emitted\<close>

text \<open>The dual of \<open>codes\<close>: the encoder produces bytes on which the decoder fails.\<close>

definition refuses :: "'a get \<Rightarrow> bytes \<Rightarrow> bool" where
  "refuses p bs \<longleftrightarrow> (\<forall>pre post. length (pre @ bs @ post) < 2 ^ 64 \<longrightarrow>
     (\<exists>err. p \<lparr>dec_bytes = pre @ bs @ post, dec_offset = length pre\<rparr> = Inl err))"

definition rejects :: "put \<Rightarrow> 'a get \<Rightarrow> bool" where
  "rejects e p \<longleftrightarrow> (\<exists>bs. emits e bs \<and> refuses p bs)"

lemma rejects_dfail: "emits e bs \<Longrightarrow> rejects e (dfail err)"
  by (auto simp: rejects_def refuses_def dfail_def)

lemma refuses_bind:
  assumes p: "reads p bs x" and f: "refuses (f x) cs"
  shows "refuses (dbind p f) (bs @ cs)"
  unfolding refuses_def
proof (intro allI impI)
  fix pre post :: bytes
  let ?all = "pre @ (bs @ cs) @ post"
  assume len: "length ?all < 2 ^ 64"
  have "p \<lparr>dec_bytes = ?all, dec_offset = length pre\<rparr>
      = Inr (x, \<lparr>dec_bytes = ?all, dec_offset = length pre + length bs\<rparr>)"
    using reads_run [OF p, of pre "cs @ post"] len by simp
  moreover obtain err where "f x \<lparr>dec_bytes = ?all, dec_offset = length pre + length bs\<rparr> = Inl err"
    using f [unfolded refuses_def, rule_format, of "pre @ bs" post] len by auto
  ultimately show "\<exists>err. dbind p f \<lparr>dec_bytes = ?all, dec_offset = length pre\<rparr> = Inl err"
    by (simp add: dbind_def)
qed

lemma refuses_head: "refuses p bs \<Longrightarrow> refuses (dbind p f) (bs @ cs)"
  unfolding refuses_def
proof (intro allI impI)
  fix pre post :: bytes
  assume p: "\<forall>pre post. length (pre @ bs @ post) < 2 ^ 64 \<longrightarrow>
     (\<exists>err. p \<lparr>dec_bytes = pre @ bs @ post, dec_offset = length pre\<rparr> = Inl err)"
    and len: "length (pre @ (bs @ cs) @ post) < 2 ^ 64"
  from p [rule_format, of pre "cs @ post"] len
  obtain err where "p \<lparr>dec_bytes = pre @ (bs @ cs) @ post, dec_offset = length pre\<rparr> = Inl err"
    by auto
  then show "\<exists>err. dbind p f \<lparr>dec_bytes = pre @ (bs @ cs) @ post, dec_offset = length pre\<rparr> = Inl err"
    by (simp add: dbind_def)
qed

lemma rejects_bind:
  "codes e p x \<Longrightarrow> rejects (enc_seq es) (f x) \<Longrightarrow> rejects (enc_seq (e # es)) (dbind p f)"
  unfolding codes_def rejects_def by (blast intro: emits_Cons refuses_bind)

lemma rejects_head:
  "rejects e p \<Longrightarrow> emits (enc_seq es) cs \<Longrightarrow> rejects (enc_seq (e # es)) (dbind p f)"
  unfolding rejects_def by (blast intro: emits_Cons refuses_head)

lemma rejects_seq1: "rejects e p \<Longrightarrow> rejects (enc_seq [e]) p"
  unfolding rejects_def using emits_Cons [OF _ emits_Nil] by fastforce

context wire_codec
begin

lemma rejects_list:
  assumes "list_all ok xs" "rejects (enc y) dec" "emits (enc_seq (map enc zs)) cs"
  shows "rejects (enc_seq (map enc (xs @ y # zs))) (dec_times (length (xs @ y # zs)) dec)"
  using assms(1)
proof (induction xs)
  case Nil
  then show ?case using rejects_head [OF assms(2,3)] by simp
next
  case (Cons x xs)
  then have x: "codes (enc x) dec x"
    and "rejects (enc_seq (map enc (xs @ y # zs))) (dec_times (length (xs @ y # zs)) dec)"
    by (simp_all add: round)
  then obtain bs ds where ebs: "emits (enc x) bs" and rbs: "reads dec bs x"
    and eds: "emits (enc_seq (map enc (xs @ y # zs))) ds"
    and rds: "refuses (dec_times (length (xs @ y # zs)) dec) ds"
    by (auto simp: codes_def rejects_def)
  have "refuses (dec_times (Suc (length (xs @ y # zs))) dec) (bs @ ds @ [])"
    unfolding dec_times.simps by (rule refuses_bind [OF rbs refuses_head [OF rds]])
  moreover have "emits (enc_seq (map enc ((x # xs) @ y # zs))) (bs @ ds)"
    using emits_Cons [OF ebs eds] by simp
  ultimately have "emits (enc_seq (map enc ((x # xs) @ y # zs))) (bs @ ds)"
    "refuses (dec_times (length ((x # xs) @ y # zs)) dec) (bs @ ds)"
    by simp_all
  then show ?case by (auto simp: rejects_def)
qed

end

section \<open>The contract of a canonical object\<close>

lemma decode_object_emitted:
  assumes "length magic = 8" "codes e p v" "e (enc_new magic) = Inr bs" "length bs < 2 ^ 64"
  shows "decode_object magic p bs = Inr v"
proof -
  obtain body where body: "emits e body" "reads p body v"
    using assms(2) by (auto simp: codes_def)
  then have bs: "bs = magic @ body"
    using assms(3) by (simp add: enc_new_def emits_run)
  then have "p \<lparr>dec_bytes = bs, dec_offset = 8\<rparr> = Inr (v, \<lparr>dec_bytes = bs, dec_offset = length bs\<rparr>)"
    using reads_run [OF body(2), of magic "[]"] assms(1,4) by simp
  then show ?thesis
    using assms(1) bs by (simp add: decode_object_def dec_new_def dec_finish_def)
qed

lemma decode_object_rejected:
  assumes "length magic = 8" "rejects e p" "e (enc_new magic) = Inr bs" "length bs < 2 ^ 64"
  shows "\<exists>err. decode_object magic p bs = Inl err"
proof -
  obtain body where body: "emits e body" "refuses p body"
    using assms(2) by (auto simp: rejects_def)
  then have bs: "bs = magic @ body"
    using assms(3) by (simp add: enc_new_def emits_run)
  then obtain err where "p \<lparr>dec_bytes = bs, dec_offset = 8\<rparr> = Inl err"
    using body(2) [unfolded refuses_def, rule_format, of magic "[]"] assms(1,4) by auto
  then show ?thesis
    using assms(1) bs by (simp add: decode_object_def dec_new_def)
qed

lemma decode_object_accepted:
  assumes "get_spec p R" "decode_object magic p bs = Inr v"
  shows "\<exists>body. bs = magic @ body \<and> length magic = 8 \<and> length bs < 2 ^ 64 \<and> R v body"
proof -
  obtain d' where len: "8 \<le> length bs" and magic: "magic = take 8 bs"
    and run: "p \<lparr>dec_bytes = bs, dec_offset = 8\<rparr> = Inr (v, d')"
    and fin: "dec_offset d' = length (dec_bytes d')"
    using assms(2)
    by (auto simp: decode_object_def dec_new_def dec_finish_def rbind_eq_Inr split: if_splits)
  then obtain body where "consumed \<lparr>dec_bytes = bs, dec_offset = 8\<rparr> body d'" "R v body"
    using get_specD [OF assms(1) _ run] by (auto simp: well_placed_def)
  then have "body = drop 8 bs" "R v body" "length bs < 2 ^ 64"
    using fin by (auto simp: consumed_def subslice_def)
  then show ?thesis
    using len magic by (intro exI [of _ body]) simp
qed

context wire_codec
begin

lemma object_decode_iff:
  assumes "length magic = 8"
  shows "decode_object magic dec bs = Inr v \<longleftrightarrow>
    ok v \<and> enc v (enc_new magic) = Inr bs \<and> length bs < 2 ^ 64"
proof
  assume "decode_object magic dec bs = Inr v"
  then show "ok v \<and> enc v (enc_new magic) = Inr bs \<and> length bs < 2 ^ 64"
    using decode_object_accepted [OF canon, of magic bs v] emits_run
    by (auto simp: enc_new_def)
next
  assume "ok v \<and> enc v (enc_new magic) = Inr bs \<and> length bs < 2 ^ 64"
  then show "decode_object magic dec bs = Inr v"
    using decode_object_emitted [OF assms round] by blast
qed

text \<open>Re-encoding the decoded value and comparing it with the input rejects nothing.\<close>

lemma object_check_redundant:
  assumes "length magic = 8"
  shows "rbind (decode_object magic dec bs) (\<lambda>v. rbind (enc v (enc_new magic)) (\<lambda>encoded.
      if encoded \<noteq> bs then Inl e else Inr v)) = decode_object magic dec bs"
proof (cases "decode_object magic dec bs")
  case (Inr v)
  with object_decode_iff [OF assms] have "enc v (enc_new magic) = Inr bs" by blast
  with Inr show ?thesis by simp
qed simp

lemma object_encode_total: "ok v \<Longrightarrow> \<exists>bs. enc v (enc_new magic) = Inr bs"
  using enc_total emits_run by blast

end

locale canonical_object =
  fixes encode :: "'a \<Rightarrow> bytes result"
    and decode :: "bytes \<Rightarrow> 'a result"
    and ok :: "'a \<Rightarrow> bool"
    and fits :: "bytes \<Rightarrow> bool"
  assumes encode_total: "ok v \<Longrightarrow> \<exists>bs. encode v = Inr bs"
    and decode_encode: "ok v \<Longrightarrow> encode v = Inr bs \<Longrightarrow> fits bs \<Longrightarrow> decode bs = Inr v"
    and decode_canon: "decode bs = Inr v \<Longrightarrow> ok v \<and> encode v = Inr bs \<and> fits bs"
begin

lemma decode_iff: "decode bs = Inr v \<longleftrightarrow> ok v \<and> encode v = Inr bs \<and> fits bs"
  by (metis decode_encode decode_canon)

lemma encode_inj:
  "ok v \<Longrightarrow> ok w \<Longrightarrow> encode v = Inr bs \<Longrightarrow> encode w = Inr bs \<Longrightarrow> fits bs \<Longrightarrow> v = w"
  by (metis decode_encode sum.inject(2))

lemma decode_inj: "decode bs = Inr v \<Longrightarrow> decode cs = Inr v \<Longrightarrow> bs = cs"
  by (metis decode_canon sum.inject(2))

text \<open>A digest over a fixed label and the canonical bytes names one value, or exhibits two
  different messages with the same digest.\<close>

lemma digest_binds:
  assumes "ok v" "ok w" "encode v = Inr bs" "encode w = Inr cs" "fits bs" "fits cs"
    and "(H :: bytes \<Rightarrow> bytes) (label @ bs) = H (label @ cs)"
  shows "v = w \<or> (\<exists>m m'. m \<noteq> m' \<and> H m = H m')"
proof (cases "bs = cs")
  case True
  then show ?thesis using assms encode_inj by blast
next
  case False
  then have "label @ bs \<noteq> label @ cs" by simp
  with assms(7) show ?thesis by blast
qed

end

end
