(* ===== verification/Wire_Types.thy ===== *)
theory Wire_Types
  imports Canonical "HOL-Library.List_Lexorder"
begin

text \<open>
  The closed vocabulary of the wire contract: the constants of \<^verbatim>\<open>kvpack-core/src/consts.rs\<close>,
  the enums of \<^verbatim>\<open>enums.rs\<close> and the two small value types of \<^verbatim>\<open>manifest.rs\<close> that the identity
  and the manifest share, shapes and state keys.  A Rust \<^verbatim>\<open>String\<close> is its byte string.

  Every enum satisfies the locale \<open>wire_enum\<close>, which is a \<open>wire_codec\<close>: a value is read back
  from its wire number and an unknown number is an error.  State keys carry the order of
  \<^verbatim>\<open>impl Ord for StateKey\<close> as their \<open>linorder\<close> instance.
\<close>

named_theorems wire_consts \<open>the numeric constants of the format\<close>

section \<open>Constants\<close>

definition ascii :: "string \<Rightarrow> bytes" where
  "ascii s = map of_char s"

definition ALIGNMENT :: nat where [wire_consts]: "ALIGNMENT = 4096"
definition CHUNK_HEADER_BYTES :: nat where [wire_consts]: "CHUNK_HEADER_BYTES = ALIGNMENT"
definition PACK_HEADER_BYTES :: nat where [wire_consts]: "PACK_HEADER_BYTES = ALIGNMENT"
definition PACK_FOOTER_BYTES :: nat where [wire_consts]: "PACK_FOOTER_BYTES = ALIGNMENT"
definition MAX_CHUNK_PLAINTEXT :: nat where [wire_consts]: "MAX_CHUNK_PLAINTEXT = 4 * 1024 * 1024"
definition CODEC_FRAME_HEADER_BYTES :: nat where [wire_consts]: "CODEC_FRAME_HEADER_BYTES = 16"
definition MAX_CODEC_OVERHEAD :: nat where [wire_consts]:
  "MAX_CODEC_OVERHEAD = CODEC_FRAME_HEADER_BYTES + div_ceil MAX_CHUNK_PLAINTEXT 128"
definition MAX_CHUNK_OBJECT_BYTES :: nat where [wire_consts]:
  "MAX_CHUNK_OBJECT_BYTES =
     CHUNK_HEADER_BYTES + MAX_CHUNK_PLAINTEXT + MAX_CODEC_OVERHEAD + 16 + ALIGNMENT"
definition MAX_RANK :: nat where [wire_consts]: "MAX_RANK = 8"
definition MAX_DELTA_DEPTH :: u8 where [wire_consts]: "MAX_DELTA_DEPTH = 7"
definition PREFIX_BLOCK_TOKENS :: nat where [wire_consts]: "PREFIX_BLOCK_TOKENS = 256"
definition MAX_CUT_CHAIN_CUTS :: nat where [wire_consts]: "MAX_CUT_CHAIN_CUTS = 512"
definition MAX_STATE_NAME_BYTES :: nat where [wire_consts]: "MAX_STATE_NAME_BYTES = 255"
definition MAX_STATES :: nat where [wire_consts]: "MAX_STATES = 65536"
definition MAX_ATOMIC_GROUPS :: nat where [wire_consts]: "MAX_ATOMIC_GROUPS = MAX_STATES"
definition MAX_CHUNKS_PER_STATE :: nat where [wire_consts]: "MAX_CHUNKS_PER_STATE = 65536"
definition MAX_DEPENDENCIES_PER_STATE :: nat where [wire_consts]: "MAX_DEPENDENCIES_PER_STATE = 64"
definition MAX_MANIFEST_BYTES :: nat where [wire_consts]: "MAX_MANIFEST_BYTES = 256 * 1024 * 1024"
definition ZERO_ID :: id32 where "ZERO_ID = replicate 32 0"

definition PACK_MAGIC :: bytes where "PACK_MAGIC = ascii ''KVPKP1'' @ [0, 0]"
definition CHUNK_MAGIC :: bytes where "CHUNK_MAGIC = ascii ''KVCHK1'' @ [0, 0]"
definition FOOTER_MAGIC :: bytes where "FOOTER_MAGIC = ascii ''KVCMT1'' @ [0, 0]"
definition MANIFEST_MAGIC :: bytes where "MANIFEST_MAGIC = ascii ''KVMNF1'' @ [0, 0]"
definition FAMILY_MAGIC :: bytes where "FAMILY_MAGIC = ascii ''KVFAM1'' @ [0, 0]"
definition SCHEMA_MAGIC :: bytes where "SCHEMA_MAGIC = ascii ''KVRCS1'' @ [0, 0]"
definition STATE_SCHEMA_MAGIC :: bytes where "STATE_SCHEMA_MAGIC = ascii ''KVSTS1'' @ [0, 0]"
definition STATS_SIDECAR_MAGIC :: bytes where "STATS_SIDECAR_MAGIC = ascii ''KVSSC1'' @ [0, 0]"
definition QUANT_K_MAGIC :: bytes where "QUANT_K_MAGIC = ascii ''KVQK1'' @ [0, 0, 0]"
definition QUANT_V_MAGIC :: bytes where "QUANT_V_MAGIC = ascii ''KVQV1'' @ [0, 0, 0]"
definition RAW_FRAME_MAGIC :: bytes where "RAW_FRAME_MAGIC = ascii ''KVRAW1'' @ [0, 0]"
definition LOSSLESS_FRAME_MAGIC :: bytes where "LOSSLESS_FRAME_MAGIC = ascii ''KVRLE1'' @ [0, 0]"
definition WIRE_VERSION :: u16 where "WIRE_VERSION = 1"
definition FLAG_ENCRYPTED :: u32 where "FLAG_ENCRYPTED = 1"
definition KNOWN_FLAGS :: u32 where "KNOWN_FLAGS = FLAG_ENCRYPTED"
definition CHUNK_HEADER_SIDECAR_OFFSET :: nat where [wire_consts]:
  "CHUNK_HEADER_SIDECAR_OFFSET = 236"
definition MAX_STATS_SIDECAR_BYTES :: nat where [wire_consts]:
  "MAX_STATS_SIDECAR_BYTES = CHUNK_HEADER_BYTES - CHUNK_HEADER_SIDECAR_OFFSET - 2"

lemma length_ascii [simp]: "length (ascii s) = length s"
  by (simp add: ascii_def)

lemma length_magics [simp]:
  "length PACK_MAGIC = 8" "length CHUNK_MAGIC = 8" "length FOOTER_MAGIC = 8"
  "length MANIFEST_MAGIC = 8" "length FAMILY_MAGIC = 8" "length SCHEMA_MAGIC = 8"
  "length STATE_SCHEMA_MAGIC = 8" "length STATS_SIDECAR_MAGIC = 8"
  "length QUANT_K_MAGIC = 8" "length QUANT_V_MAGIC = 8"
  "length RAW_FRAME_MAGIC = 8" "length LOSSLESS_FRAME_MAGIC = 8" "length ZERO_ID = 32"
  by (simp_all add: PACK_MAGIC_def CHUNK_MAGIC_def FOOTER_MAGIC_def MANIFEST_MAGIC_def
      FAMILY_MAGIC_def SCHEMA_MAGIC_def STATE_SCHEMA_MAGIC_def STATS_SIDECAR_MAGIC_def QUANT_K_MAGIC_def QUANT_V_MAGIC_def
      RAW_FRAME_MAGIC_def LOSSLESS_FRAME_MAGIC_def ZERO_ID_def)

section \<open>The versioned frame\<close>

text \<open>The statements every canonical object starts with, after its magic: the wire version and
  a zero field on the way out; the same two fields, checked, on the way in.\<close>

definition enc_versioned :: "put \<Rightarrow> put" where
  "enc_versioned e = enc_seq [enc_u16 WIRE_VERSION, enc_u16 0, e]"

definition dec_versioned :: "string \<Rightarrow> string \<Rightarrow> 'a get \<Rightarrow> 'a get" where
  "dec_versioned version_msg reserved_msg p =
     dbind dec_u16 (\<lambda>version.
     if version \<noteq> WIRE_VERSION then dfail (BadMagic version_msg)
     else dbind dec_u16 (\<lambda>reserved.
     if reserved \<noteq> 0 then dfail (Reserved reserved_msg) else p))"

lemma codes_versioned:
  assumes "codes e p v"
  shows "codes (enc_versioned e) (dec_versioned m1 m2 p) v"
proof -
  obtain bs where "emits e bs" "reads p bs v" using assms by (auto simp: codes_def)
  moreover from this have "emits (enc_seq [e]) (bs @ [])" by (intro emits_steps)
  ultimately have "codes (enc_seq [e]) p v" by (auto simp: codes_def)
  then show ?thesis
    unfolding enc_versioned_def dec_versioned_def by (intro codes_then) simp_all
qed

lemma rejects_versioned:
  assumes "rejects e p"
  shows "rejects (enc_versioned e) (dec_versioned m1 m2 p)"
  unfolding enc_versioned_def dec_versioned_def
  by (rule rejects_bind [OF codes_prims(2)], simp, rule rejects_bind [OF codes_prims(2)], simp,
      rule rejects_seq1, rule assms)

lemma spec_versioned:
  assumes "get_spec p (\<lambda>v bs. ok v \<and> emits (e v) bs)"
  shows "get_spec (dec_versioned m1 m2 p) (\<lambda>v bs. ok v \<and> emits (enc_versioned (e v)) bs)"
  unfolding enc_versioned_def dec_versioned_def
proof (intro spec_then)
  have "emits (enc_seq [e v]) bs" if "emits (e v) bs" for v bs
    using emits_Cons [OF that emits_Nil] by simp
  then show "get_spec p (\<lambda>v bs. ok v \<and> emits (enc_seq [enc_u16 WIRE_VERSION, enc_u16 0, e v])
      (to_le_bytes version @ to_le_bytes reserved @ bs))"
    if "\<not> version \<noteq> WIRE_VERSION" "\<not> reserved \<noteq> 0" for version reserved :: u16
    using that by (intro get_spec_mono [OF assms]) (auto intro!: emits_Cons)
qed

context wire_codec
begin

lemma versioned: "wire_codec (\<lambda>v. enc_versioned (enc v)) (dec_versioned m1 m2 dec) ok"
  by unfold_locales (erule codes_versioned [OF round], rule spec_versioned [OF canon])

lemmas versioned_decode_iff = wire_codec.object_decode_iff [OF versioned]

lemmas versioned_check_redundant = wire_codec.object_check_redundant [OF versioned]

lemmas versioned_encode_total = wire_codec.object_encode_total [OF versioned]

end

section \<open>Enums\<close>

datatype cache_kind = OrdinaryKv

datatype dtype = U8 | U32 | I8 | I16 | I32 | F16 | Bf16 | F32 | F64

datatype codec = Raw | Lossless

datatype layout = Contiguous | Strided

datatype representation_mode = Native | Portable

datatype token_axis_rule = Direct | Gather | TailWindow

primrec cache_kind_wire :: "cache_kind \<Rightarrow> u16" where
  "cache_kind_wire OrdinaryKv = 1"

definition cache_kind_from_wire :: "u16 \<Rightarrow> cache_kind result" where
  "cache_kind_from_wire v =
     (if v = 1 then Inr OrdinaryKv else Inl (UnknownEnum ''cache kind'' (ucast v)))"

primrec dtype_wire :: "dtype \<Rightarrow> u16" where
  "dtype_wire U8 = 1"
| "dtype_wire U32 = 2"
| "dtype_wire I8 = 3"
| "dtype_wire I16 = 4"
| "dtype_wire I32 = 5"
| "dtype_wire F16 = 6"
| "dtype_wire Bf16 = 7"
| "dtype_wire F32 = 8"
| "dtype_wire F64 = 9"

definition dtype_from_wire :: "u16 \<Rightarrow> dtype result" where
  "dtype_from_wire v =
     (if v = 1 then Inr U8 else if v = 2 then Inr U32 else if v = 3 then Inr I8
      else if v = 4 then Inr I16 else if v = 5 then Inr I32 else if v = 6 then Inr F16
      else if v = 7 then Inr Bf16 else if v = 8 then Inr F32 else if v = 9 then Inr F64
      else Inl (UnknownEnum ''dtype'' (ucast v)))"

primrec codec_wire :: "codec \<Rightarrow> u16" where
  "codec_wire Raw = 1"
| "codec_wire Lossless = 2"

definition codec_from_wire :: "u16 \<Rightarrow> codec result" where
  "codec_from_wire v =
     (if v = 1 then Inr Raw else if v = 2 then Inr Lossless
      else Inl (UnknownEnum ''codec'' (ucast v)))"

primrec layout_wire :: "layout \<Rightarrow> u16" where
  "layout_wire Contiguous = 1"
| "layout_wire Strided = 2"

definition layout_from_wire :: "u16 \<Rightarrow> layout result" where
  "layout_from_wire v =
     (if v = 1 then Inr Contiguous else if v = 2 then Inr Strided
      else Inl (UnknownEnum ''layout'' (ucast v)))"

primrec mode_wire :: "representation_mode \<Rightarrow> u16" where
  "mode_wire Native = 1"
| "mode_wire Portable = 2"

definition mode_from_wire :: "u16 \<Rightarrow> representation_mode result" where
  "mode_from_wire v =
     (if v = 1 then Inr Native else if v = 2 then Inr Portable
      else Inl (UnknownEnum ''representation mode'' (ucast v)))"

primrec axis_rule_wire :: "token_axis_rule \<Rightarrow> u16" where
  "axis_rule_wire Direct = 1"
| "axis_rule_wire Gather = 2"
| "axis_rule_wire TailWindow = 3"

definition axis_rule_from_wire :: "u16 \<Rightarrow> token_axis_rule result" where
  "axis_rule_from_wire v =
     (if v = 1 then Inr Direct else if v = 2 then Inr Gather else if v = 3 then Inr TailWindow
      else Inl (UnknownEnum ''token axis rule'' (ucast v)))"

primrec width_bytes :: "dtype \<Rightarrow> u64 option" where
  "width_bytes U8 = Some 1"
| "width_bytes I8 = Some 1"
| "width_bytes I16 = Some 2"
| "width_bytes F16 = Some 2"
| "width_bytes Bf16 = Some 2"
| "width_bytes U32 = Some 4"
| "width_bytes I32 = Some 4"
| "width_bytes F32 = Some 4"
| "width_bytes F64 = Some 8"

definition enc_enum :: "('e \<Rightarrow> u16) \<Rightarrow> 'e \<Rightarrow> put" where
  "enc_enum wire e = enc_u16 (wire e)"

definition dec_enum :: "(u16 \<Rightarrow> 'e result) \<Rightarrow> 'e get" where
  "dec_enum from_wire = dbind dec_u16 (\<lambda>v. dlift (from_wire v))"

locale wire_enum =
  fixes wire :: "'e \<Rightarrow> u16" and from_wire :: "u16 \<Rightarrow> 'e result"
  assumes from_wire_wire: "from_wire (wire e) = Inr e"
    and wire_from_wire: "from_wire v = Inr e \<Longrightarrow> wire e = v"
begin

lemma from_wire_iff: "from_wire v = Inr e \<longleftrightarrow> v = wire e"
  using from_wire_wire wire_from_wire by auto

lemma enum_codes: "codes (enc_enum wire e) (dec_enum from_wire) e"
proof -
  have "reads (dlift (from_wire (wire e))) [] e"
    by (simp add: from_wire_wire reads_def dlift_def)
  then show ?thesis
    using codes_prims(2) [of "wire e"] reads_bind [of dec_u16 _ "wire e" "\<lambda>v. dlift (from_wire v)" "[]" e]
    by (auto simp: codes_def enc_enum_def dec_enum_def)
qed

lemma enum_canon: "get_spec (dec_enum from_wire) (\<lambda>e bs. True \<and> emits (enc_enum wire e) bs)"
  unfolding dec_enum_def
  by (intro spec_then) (auto simp: enc_enum_def dest: wire_from_wire)

end

sublocale wire_enum \<subseteq> wire_codec "enc_enum wire" "dec_enum from_wire" "\<lambda>_. True"
  by unfold_locales (rule enum_codes, rule enum_canon)

interpretation cache_kind_enum: wire_enum cache_kind_wire cache_kind_from_wire
proof
  show "cache_kind_from_wire (cache_kind_wire e) = Inr e" for e
    by (cases e) (simp add: cache_kind_from_wire_def)
qed (auto simp: cache_kind_from_wire_def split: if_splits)

interpretation dtype_enum: wire_enum dtype_wire dtype_from_wire
proof
  show "dtype_from_wire (dtype_wire e) = Inr e" for e
    by (cases e) (simp_all add: dtype_from_wire_def)
qed (auto simp: dtype_from_wire_def split: if_splits)

interpretation codec_enum: wire_enum codec_wire codec_from_wire
proof
  show "codec_from_wire (codec_wire e) = Inr e" for e
    by (cases e) (simp_all add: codec_from_wire_def)
qed (auto simp: codec_from_wire_def split: if_splits)

interpretation layout_enum: wire_enum layout_wire layout_from_wire
proof
  show "layout_from_wire (layout_wire e) = Inr e" for e
    by (cases e) (simp_all add: layout_from_wire_def)
qed (auto simp: layout_from_wire_def split: if_splits)

interpretation mode_enum: wire_enum mode_wire mode_from_wire
proof
  show "mode_from_wire (mode_wire e) = Inr e" for e
    by (cases e) (simp_all add: mode_from_wire_def)
qed (auto simp: mode_from_wire_def split: if_splits)

interpretation axis_rule_enum: wire_enum axis_rule_wire axis_rule_from_wire
proof
  show "axis_rule_from_wire (axis_rule_wire e) = Inr e" for e
    by (cases e) (simp_all add: axis_rule_from_wire_def)
qed (auto simp: axis_rule_from_wire_def split: if_splits)

lemmas enum_round_then [codes_then] =
  cache_kind_enum.round_then [OF TrueI] dtype_enum.round_then [OF TrueI]
  codec_enum.round_then [OF TrueI] layout_enum.round_then [OF TrueI]
  mode_enum.round_then [OF TrueI] axis_rule_enum.round_then [OF TrueI]

lemmas enum_canon_then [spec_then] =
  cache_kind_enum.canon_then dtype_enum.canon_then codec_enum.canon_then
  layout_enum.canon_then mode_enum.canon_then axis_rule_enum.canon_then

lemma width_bytes_total: "\<exists>w. width_bytes d = Some w \<and> 1 \<le> unat w \<and> unat w \<le> 8"
  by (cases d) simp_all

section \<open>Shapes\<close>

record shape =
  sh_dims :: "u64 list"
  sh_rank :: u8

definition shape_new :: "u64 list \<Rightarrow> shape result" where
  "shape_new dims =
     (if dims = [] \<or> length dims > MAX_RANK then Inl (Bounds ''state rank must be in 1..=8'')
      else if 0 \<in> set dims then Inl (Bounds ''state dimensions must be nonzero'')
      else Inr \<lparr>sh_dims = dims @ replicate (MAX_RANK - length dims) 0,
                sh_rank = of_nat (length dims)\<rparr>)"

definition shape_rank :: "shape \<Rightarrow> nat" where
  "shape_rank s = unat (sh_rank s)"

definition shape_dims :: "shape \<Rightarrow> u64 list" where
  "shape_dims s = take (shape_rank s) (sh_dims s)"

definition element_count :: "shape \<Rightarrow> u64 result" where
  "element_count s = try_fold (\<lambda>count dimension.
     ok_or (checked_mul count dimension) (Bounds ''shape element count overflows u64''))
     1 (shape_dims s)"

definition dec_shape :: "shape get" where
  "dec_shape = dbind dec_u8 (\<lambda>rank.
     if unat rank = 0 \<or> unat rank > MAX_RANK then dfail (Bounds ''state rank must be in 1..=8'')
     else dbind (dec_times (unat rank) dec_u64) (\<lambda>dims. dlift (shape_new dims)))"

definition enc_shape :: "shape \<Rightarrow> put" where
  "enc_shape s = enc_seq [enc_u8 (sh_rank s), enc_seq (map enc_u64 (shape_dims s))]"

text \<open>The invariant of the private fields, established by the only constructor.\<close>

definition ok_shape :: "shape \<Rightarrow> bool" where
  "ok_shape s \<longleftrightarrow> shape_new (shape_dims s) = Inr s"

lemma shape_new_ok: "shape_new dims = Inr s \<Longrightarrow> ok_shape s \<and> shape_dims s = dims"
proof -
  assume new: "shape_new dims = Inr s"
  then have s: "s = \<lparr>sh_dims = dims @ replicate (MAX_RANK - length dims) 0, sh_rank = of_nat (length dims)\<rparr>"
    and len: "length dims \<le> 8"
    by (auto simp: shape_new_def wire_consts split: if_splits)
  then have "shape_dims s = dims"
    by (simp add: shape_dims_def shape_rank_def unat_of_nat)
  with new show ?thesis by (simp add: ok_shape_def)
qed

lemma shape_new_rank: "shape_new dims = Inr s \<Longrightarrow> sh_rank s = of_nat (length dims)"
  by (auto simp: shape_new_def split: if_splits)

lemma ok_shape_dims:
  assumes "ok_shape s"
  shows "shape_dims s \<noteq> []" "length (shape_dims s) \<le> 8" "0 \<notin> set (shape_dims s)"
    "shape_rank s = length (shape_dims s)" "sh_rank s = of_nat (length (shape_dims s))"
proof -
  have new: "shape_new (shape_dims s) = Inr s" using assms by (simp add: ok_shape_def)
  then show "shape_dims s \<noteq> []" and len: "length (shape_dims s) \<le> 8" and "0 \<notin> set (shape_dims s)"
    by (auto simp: shape_new_def wire_consts split: if_splits)
  from new show rank: "sh_rank s = of_nat (length (shape_dims s))"
    by (rule shape_new_rank)
  then show "shape_rank s = length (shape_dims s)"
    using len by (simp add: shape_rank_def unat_of_nat)
qed

lemma ok_shape_eq: "ok_shape s \<Longrightarrow> ok_shape t \<Longrightarrow> shape_dims s = shape_dims t \<Longrightarrow> s = t"
  by (simp add: ok_shape_def)

interpretation shape_codec: wire_codec enc_shape dec_shape ok_shape
proof
  fix s
  assume ok: "ok_shape s"
  note dims = ok_shape_dims [OF ok]
  have "shape_dims s \<noteq> []" by (rule dims)
  then have rank: "unat (sh_rank s) = length (shape_dims s)" "length (shape_dims s) \<noteq> 0"
    using dims(4) by (simp_all add: shape_rank_def)
  have "reads (dlift (shape_new (shape_dims s))) [] s"
    using ok by (simp add: ok_shape_def reads_def dlift_def)
  then have last: "codes (enc_seq []) (dlift (shape_new (shape_dims s))) s"
    by (rule codesI [OF emits_Nil])
  show "codes (enc_shape s) dec_shape s"
    unfolding enc_shape_def dec_shape_def
    by (intro codes_then u64_codec.round_list_then) (use rank dims last in \<open>simp_all add: wire_consts list_all_iff\<close>)
next
  show "get_spec dec_shape (\<lambda>s bs. ok_shape s \<and> emits (enc_shape s) bs)"
    unfolding dec_shape_def
  proof (intro spec_then u64_codec.canon_list_then)
    fix rank :: u8 and dims bs s
    assume "length dims = unat rank" "emits (enc_seq (map enc_u64 dims)) bs" "shape_new dims = Inr s"
    moreover from this shape_new_ok have ok: "ok_shape s" and dims: "shape_dims s = dims" by auto
    moreover from \<open>length dims = unat rank\<close> have "sh_rank s = rank"
      using ok_shape_dims(5) [OF ok] dims by simp
    ultimately show "ok_shape s \<and> emits (enc_shape s) (rank # bs @ [])"
      using emits_Cons [OF _ emits_Cons [OF _ emits_Nil], of "enc_u8 rank" "[rank]"]
      by (simp add: enc_shape_def)
  qed
qed

section \<open>State keys\<close>

datatype state_key = StateKey (sk_layer: u32) (sk_name: bytes)

definition enc_state_key :: "state_key \<Rightarrow> put" where
  "enc_state_key k = enc_seq [enc_u32 (sk_layer k), enc_string (sk_name k)]"

definition dec_state_key :: "state_key get" where
  "dec_state_key = dbind dec_u32 (\<lambda>layer. dbind dec_string (\<lambda>name. dret (StateKey layer name)))"

instantiation state_key :: linorder
begin

definition less_eq_state_key :: "state_key \<Rightarrow> state_key \<Rightarrow> bool" where
  "less_eq_state_key k l \<longleftrightarrow>
     sk_layer k < sk_layer l \<or> (sk_layer k = sk_layer l \<and> sk_name k \<le> sk_name l)"

definition less_state_key :: "state_key \<Rightarrow> state_key \<Rightarrow> bool" where
  "less_state_key k l \<longleftrightarrow>
     sk_layer k < sk_layer l \<or> (sk_layer k = sk_layer l \<and> sk_name k < sk_name l)"

instance
  by intro_classes
    (auto simp: less_eq_state_key_def less_state_key_def intro: state_key.expand)

end

definition ok_state_key :: "state_key \<Rightarrow> bool" where
  "ok_state_key k \<longleftrightarrow> ok_string (sk_name k)"

interpretation state_key_codec: wire_codec enc_state_key dec_state_key ok_state_key
proof
  show "ok_state_key k \<Longrightarrow> codes (enc_state_key k) dec_state_key k" for k
    unfolding enc_state_key_def dec_state_key_def
    by (intro codes_then string_codec.round_then) (simp_all add: ok_state_key_def codes_dret)
next
  show "get_spec dec_state_key (\<lambda>k bs. ok_state_key k \<and> emits (enc_state_key k) bs)"
    unfolding dec_state_key_def
    by (intro spec_then string_codec.canon_then)
      (auto simp: ok_state_key_def enc_state_key_def intro!: emits_Cons emits_Nil simp del: append_Nil2)
qed

end
