(* ===== verification/Identity.thy ===== *)
theory Identity
  imports Wire_Types
begin

text \<open>
  The typed identity components of \<^verbatim>\<open>kvpack-core/src/identity.rs\<close>: the semantic model, one input
  cut, auxiliary inputs and the static representation family with its states, with their
  canonical encoding and decoding.  \<open>ok_family_state\<close> and \<open>ok_family\<close> are the values that the
  decoder can produce; the interpretations show that they are exactly the values that survive
  the wire.
\<close>

record semantic_model_id =
  sm_weights_config :: id32
  sm_adapters :: id32
  sm_tokenizer_template :: id32
  sm_position_semantics :: id32
  sm_qualified_math :: id32

record input_cut_id =
  ic_token_root :: id32
  ic_auxiliary_input_root :: id32
  ic_token_count :: u64

record auxiliary_input_id =
  ai_type_id :: id32
  ai_value_id :: id32

datatype static_dimension = Token | Fixed u64

record family_state =
  fs_key :: state_key
  fs_cache_kind :: cache_kind
  fs_dtype :: dtype
  fs_codec :: codec
  fs_codec_version :: u16
  fs_layout :: layout
  fs_token_axis_rule :: token_axis_rule
  fs_token_axis :: u8
  fs_elements_per_token :: u64
  fs_dimensions :: "static_dimension list"
  fs_dependencies :: "state_key list"

record representation_family_id =
  rf_engine_cache_abi :: id32
  rf_mode :: representation_mode
  rf_page_size_tokens :: u32
  rf_topology :: id32
  rf_shard_map :: id32
  rf_states :: "family_state list"

section \<open>Encoding and decoding\<close>

definition encode_semantic :: "semantic_model_id \<Rightarrow> put" where
  "encode_semantic v = enc_seq
     [enc_id (sm_weights_config v), enc_id (sm_adapters v), enc_id (sm_tokenizer_template v),
      enc_id (sm_position_semantics v), enc_id (sm_qualified_math v)]"

definition decode_semantic :: "semantic_model_id get" where
  "decode_semantic =
     dbind dec_id (\<lambda>weights_config.
     dbind dec_id (\<lambda>adapters.
     dbind dec_id (\<lambda>tokenizer_template.
     dbind dec_id (\<lambda>position_semantics.
     dbind dec_id (\<lambda>qualified_math.
     dret \<lparr>sm_weights_config = weights_config, sm_adapters = adapters,
           sm_tokenizer_template = tokenizer_template,
           sm_position_semantics = position_semantics,
           sm_qualified_math = qualified_math\<rparr>)))))"

primrec dimension_wire :: "static_dimension \<Rightarrow> u64" where
  "dimension_wire Token = 0"
| "dimension_wire (Fixed v) = v"

definition enc_dimension :: "static_dimension \<Rightarrow> put" where
  "enc_dimension d = enc_u64 (dimension_wire d)"

definition dec_dimension :: "static_dimension get" where
  "dec_dimension = dbind dec_u64 (\<lambda>v. dret (if v = 0 then Token else Fixed v))"

definition enc_family_state :: "family_state \<Rightarrow> put" where
  "enc_family_state s = enc_seq
     [enc_state_key (fs_key s),
      enc_enum cache_kind_wire (fs_cache_kind s),
      enc_enum dtype_wire (fs_dtype s),
      enc_enum codec_wire (fs_codec s),
      enc_u16 (fs_codec_version s),
      enc_enum layout_wire (fs_layout s),
      enc_enum axis_rule_wire (fs_token_axis_rule s),
      enc_u8 (fs_token_axis s),
      enc_u8 0,
      enc_u64 (fs_elements_per_token s),
      enc_try (try_from_usize (length (fs_dimensions s)) ''family state rank exceeds u8'') enc_u8,
      enc_seq (map enc_dimension (fs_dimensions s)),
      enc_try (try_from_usize (length (fs_dependencies s)) ''too many state dependencies'') enc_u16,
      enc_seq (map enc_state_key (fs_dependencies s))]"

definition dec_family_state :: "family_state get" where
  "dec_family_state =
     dbind dec_state_key (\<lambda>key.
     dbind (dec_enum cache_kind_from_wire) (\<lambda>cache_kind.
     dbind (dec_enum dtype_from_wire) (\<lambda>dtype.
     dbind (dec_enum codec_from_wire) (\<lambda>codec.
     dbind dec_u16 (\<lambda>codec_version.
     dbind (dec_enum layout_from_wire) (\<lambda>layout.
     dbind (dec_enum axis_rule_from_wire) (\<lambda>token_axis_rule.
     dbind dec_u8 (\<lambda>token_axis.
     dbind dec_u8 (\<lambda>reserved.
     if reserved \<noteq> 0 then dfail (Reserved ''family state reserved byte is nonzero'')
     else dbind dec_u64 (\<lambda>elements_per_token.
     dbind dec_u8 (\<lambda>rank.
     if unat rank = 0 \<or> unat rank > MAX_RANK
     then dfail (Bounds ''family state rank is outside 1..=8'')
     else dbind (dec_times (unat rank) dec_dimension) (\<lambda>dimensions.
     dbind dec_u16 (\<lambda>dependency_count.
     if unat dependency_count > MAX_DEPENDENCIES_PER_STATE
     then dfail (Bounds ''too many state dependencies'')
     else dbind (dec_times (unat dependency_count) dec_state_key) (\<lambda>dependencies.
     dret \<lparr>fs_key = key, fs_cache_kind = cache_kind, fs_dtype = dtype, fs_codec = codec,
           fs_codec_version = codec_version, fs_layout = layout,
           fs_token_axis_rule = token_axis_rule, fs_token_axis = token_axis,
           fs_elements_per_token = elements_per_token, fs_dimensions = dimensions,
           fs_dependencies = dependencies\<rparr>))))))))))))))"

definition family_encode_body :: "representation_family_id \<Rightarrow> put" where
  "family_encode_body f = enc_seq
     [enc_id (rf_engine_cache_abi f),
      enc_enum mode_wire (rf_mode f),
      enc_u16 0,
      enc_u32 (rf_page_size_tokens f),
      enc_id (rf_topology f),
      enc_id (rf_shard_map f),
      enc_try (try_from_usize (length (rf_states f)) ''too many family states'') enc_u32,
      enc_seq (map enc_family_state (rf_states f))]"

definition family_decode_body :: "representation_family_id get" where
  "family_decode_body =
     dbind dec_id (\<lambda>engine_cache_abi.
     dbind (dec_enum mode_from_wire) (\<lambda>mode.
     dbind dec_u16 (\<lambda>reserved.
     if reserved \<noteq> 0 then dfail (Reserved ''family reserved field is nonzero'')
     else dbind dec_u32 (\<lambda>page_size_tokens.
     dbind dec_id (\<lambda>topology.
     dbind dec_id (\<lambda>shard_map.
     dbind dec_u32 (\<lambda>state_count.
     if unat state_count = 0 \<or> unat state_count > MAX_STATES
     then dfail (Bounds ''family state count is outside bounds'')
     else dbind (dec_times (unat state_count) dec_family_state) (\<lambda>states.
     dret \<lparr>rf_engine_cache_abi = engine_cache_abi, rf_mode = mode,
           rf_page_size_tokens = page_size_tokens, rf_topology = topology,
           rf_shard_map = shard_map, rf_states = states\<rparr>))))))))"

definition family_encode_canonical :: "representation_family_id \<Rightarrow> bytes result" where
  "family_encode_canonical f =
     enc_versioned (family_encode_body f) (enc_new FAMILY_MAGIC)"

definition family_decode_canonical :: "bytes \<Rightarrow> representation_family_id result" where
  "family_decode_canonical bs =
     rbind (decode_object FAMILY_MAGIC
       (dec_versioned ''unsupported family version'' ''family reserved field is nonzero''
          family_decode_body) bs) (\<lambda>value.
     rbind (family_encode_canonical value) (\<lambda>encoded.
     if encoded \<noteq> bs then Inl (Reserved ''family encoding is not canonical'') else Inr value))"

definition validate_state_key :: "state_key \<Rightarrow> unit result" where
  "validate_state_key k =
     (if sk_name k = [] \<or> length (sk_name k) > MAX_STATE_NAME_BYTES \<or> 0 \<in> set (sk_name k)
      then Inl (Semantics ''invalid state name'') else Inr ())"

section \<open>The wire contract\<close>

definition ok_semantic :: "semantic_model_id \<Rightarrow> bool" where
  "ok_semantic v \<longleftrightarrow>
     length (sm_weights_config v) = 32 \<and> length (sm_adapters v) = 32 \<and>
     length (sm_tokenizer_template v) = 32 \<and> length (sm_position_semantics v) = 32 \<and>
     length (sm_qualified_math v) = 32"

definition ok_dimension :: "static_dimension \<Rightarrow> bool" where
  "ok_dimension d \<longleftrightarrow> d \<noteq> Fixed 0"

definition ok_family_state :: "family_state \<Rightarrow> bool" where
  "ok_family_state s \<longleftrightarrow>
     ok_state_key (fs_key s) \<and>
     fs_dimensions s \<noteq> [] \<and> length (fs_dimensions s) \<le> MAX_RANK \<and>
     list_all ok_dimension (fs_dimensions s) \<and>
     length (fs_dependencies s) \<le> MAX_DEPENDENCIES_PER_STATE \<and>
     list_all ok_state_key (fs_dependencies s)"

definition ok_family :: "representation_family_id \<Rightarrow> bool" where
  "ok_family f \<longleftrightarrow>
     length (rf_engine_cache_abi f) = 32 \<and> length (rf_topology f) = 32 \<and>
     length (rf_shard_map f) = 32 \<and>
     rf_states f \<noteq> [] \<and> length (rf_states f) \<le> MAX_STATES \<and>
     list_all ok_family_state (rf_states f)"

interpretation semantic_codec: wire_codec encode_semantic decode_semantic ok_semantic
proof
  show "ok_semantic v \<Longrightarrow> codes (encode_semantic v) decode_semantic v" for v
    unfolding encode_semantic_def decode_semantic_def
    by (intro codes_then) (simp_all add: ok_semantic_def codes_dret)
next
  show "get_spec decode_semantic (\<lambda>v bs. ok_semantic v \<and> emits (encode_semantic v) bs)"
    unfolding decode_semantic_def
    by (intro spec_then)
      (auto simp: ok_semantic_def encode_semantic_def intro!: emits_steps simp del: append_Nil2)
qed

interpretation dimension_codec: wire_codec enc_dimension dec_dimension ok_dimension
proof
  show "ok_dimension d \<Longrightarrow> codes (enc_dimension d) dec_dimension d" for d
    unfolding enc_dimension_def dec_dimension_def
    by (rule codes_bind_pure [OF codes_prims(4)]) (cases d; simp add: ok_dimension_def)
next
  show "get_spec dec_dimension (\<lambda>d bs. ok_dimension d \<and> emits (enc_dimension d) bs)"
    unfolding dec_dimension_def
    by (intro spec_then) (auto simp: ok_dimension_def enc_dimension_def)
qed

interpretation family_state_codec: wire_codec enc_family_state dec_family_state ok_family_state
proof
  fix s
  assume ok: "ok_family_state s"
  have counts: "unat (of_nat (length (fs_dimensions s)) :: u8) = length (fs_dimensions s)"
    "unat (of_nat (length (fs_dependencies s)) :: u16) = length (fs_dependencies s)"
    using ok by (simp_all add: ok_family_state_def wire_consts unat_of_nat)
  show "codes (enc_family_state s) dec_family_state s"
    unfolding enc_family_state_def dec_family_state_def
    by (intro codes_then state_key_codec.round_then state_key_codec.round_list_then
        dimension_codec.round_list_then)
      (use ok in \<open>simp_all only: counts, simp_all add: ok_family_state_def wire_consts\<close>)
next
  show "get_spec dec_family_state (\<lambda>s bs. ok_family_state s \<and> emits (enc_family_state s) bs)"
    unfolding dec_family_state_def
    by (intro spec_then state_key_codec.canon_then state_key_codec.canon_list_then
        dimension_codec.canon_list_then)
      (auto simp: ok_family_state_def enc_family_state_def wire_consts intro!: emits_steps
        simp del: append_Nil2)
qed


interpretation family_codec: wire_codec family_encode_body family_decode_body ok_family
proof
  fix f
  assume ok: "ok_family f"
  have count: "unat (of_nat (length (rf_states f)) :: u32) = length (rf_states f)"
    using ok by (simp add: ok_family_def wire_consts unat_of_nat)
  show "codes (family_encode_body f) family_decode_body f"
    unfolding family_encode_body_def family_decode_body_def
    by (intro codes_then family_state_codec.round_list_then)
      (use ok in \<open>simp_all only: count, simp_all add: ok_family_def wire_consts\<close>)
next
  show "get_spec family_decode_body (\<lambda>f bs. ok_family f \<and> emits (family_encode_body f) bs)"
    unfolding family_decode_body_def
    by (intro spec_then family_state_codec.canon_list_then)
      (auto simp: ok_family_def family_encode_body_def wire_consts intro!: emits_steps
        simp del: append_Nil2)
qed

lemma family_decode_canonical_eq:
  "family_decode_canonical bs = decode_object FAMILY_MAGIC
     (dec_versioned ''unsupported family version'' ''family reserved field is nonzero''
        family_decode_body) bs"
  unfolding family_decode_canonical_def family_encode_canonical_def
  by (rule family_codec.versioned_check_redundant) simp

interpretation family_object: canonical_object family_encode_canonical family_decode_canonical
  ok_family "\<lambda>bs. length bs < 2 ^ 64"
  using family_codec.versioned_decode_iff [of FAMILY_MAGIC]
    family_codec.versioned_encode_total [of _ FAMILY_MAGIC]
  by unfold_locales (simp_all add: family_decode_canonical_eq family_encode_canonical_def)

end
