(* ===== verification/Manifest.thy ===== *)
theory Manifest
  imports Identity
begin

text \<open>
  The manifest of one exact cut, \<^verbatim>\<open>kvpack-core/src/manifest.rs\<close>: chunk spans and references, the
  realized schema of every state, atomic groups, full and delta manifests, and the canonical
  encodings of the state schema, the realized cut schema and the whole manifest.  Each type is
  interpreted as a \<open>wire_codec\<close> and each object as a \<open>canonical_object\<close>.
\<close>

record chunk_span =
  cs_token_start :: u64
  cs_token_count :: u64
  cs_plaintext_offset :: u64
  cs_plaintext_bytes :: u32

record chunk_ref =
  cr_chunk_id :: id32
  cr_object_key :: id32
  cr_object_digest :: id32
  cr_key_epoch :: u64
  cr_plaintext_bytes :: u32
  cr_object_bytes :: u32

record state_declaration =
  sd_key :: state_key
  sd_full_shape :: shape
  sd_segment_shape :: shape
  sd_strides :: "u64 list"
  sd_logical_start :: u64
  sd_logical_count :: u64
  sd_absolute_position :: u64
  sd_window :: u64
  sd_atomic_group :: u32

record realized_state_schema =
  rs_key :: state_key
  rs_full_shape :: shape
  rs_segment_shape :: shape
  rs_strides :: "u64 list"
  rs_logical_start :: u64
  rs_logical_count :: u64
  rs_physical_offset_bytes :: u64
  rs_physical_span_bytes :: u64
  rs_complete_physical_bytes :: u64
  rs_absolute_position :: u64
  rs_window :: u64
  rs_chunk_spans :: "chunk_span list"

record state_manifest =
  st_key :: state_key
  st_chunks :: "chunk_ref list"

record atomic_group =
  ag_id :: u32
  ag_states :: "state_key list"

datatype manifest_kind = Full | Delta (mk_parent: id32) (mk_parent_cut: input_cut_id) (mk_depth: u8)

record realized_cut_schema_id =
  rc_kind :: manifest_kind
  rc_states :: "realized_state_schema list"
  rc_atomic_groups :: "atomic_group list"
  rc_segment_restored_bytes :: u64
  rc_complete_restored_bytes :: u64

record cut_manifest =
  cm_tenant_namespace :: id32
  cm_key_epoch :: u64
  cm_semantic_model :: semantic_model_id
  cm_input_cut :: input_cut_id
  cm_family :: representation_family_id
  cm_realized_schema :: realized_cut_schema_id
  cm_states :: "state_manifest list"

primrec kind_depth :: "manifest_kind \<Rightarrow> u8" where
  "kind_depth Full = 0"
| "kind_depth (Delta parent parent_cut depth) = depth"

primrec kind_parent :: "manifest_kind \<Rightarrow> id32 option" where
  "kind_parent Full = None"
| "kind_parent (Delta parent parent_cut depth) = Some parent"

primrec kind_parent_cut :: "manifest_kind \<Rightarrow> input_cut_id option" where
  "kind_parent_cut Full = None"
| "kind_parent_cut (Delta parent parent_cut depth) = Some parent_cut"

definition is_zero_id :: "id32 \<Rightarrow> bool" where
  "is_zero_id v \<longleftrightarrow> list_all (\<lambda>b. b = 0) v"

section \<open>Encoding and decoding\<close>

definition encode_input_cut :: "input_cut_id \<Rightarrow> put" where
  "encode_input_cut v = enc_seq
     [enc_id (ic_token_root v), enc_id (ic_auxiliary_input_root v), enc_u64 (ic_token_count v)]"

definition decode_input_cut :: "input_cut_id get" where
  "decode_input_cut =
     dbind dec_id (\<lambda>token_root.
     dbind dec_id (\<lambda>auxiliary_input_root.
     dbind dec_u64 (\<lambda>token_count.
     dret \<lparr>ic_token_root = token_root, ic_auxiliary_input_root = auxiliary_input_root,
           ic_token_count = token_count\<rparr>)))"

primrec enc_kind :: "manifest_kind \<Rightarrow> put" where
  "enc_kind Full = enc_seq [enc_u8 0, enc_u8 0, enc_u16 0]"
| "enc_kind (Delta parent parent_cut depth) = enc_seq
     [enc_u8 1, enc_u8 depth, enc_u16 0, enc_id parent, encode_input_cut parent_cut]"

definition dec_kind :: "manifest_kind get" where
  "dec_kind =
     dbind dec_u8 (\<lambda>tag.
     dbind dec_u8 (\<lambda>depth.
     dbind dec_u16 (\<lambda>reserved.
     if reserved \<noteq> 0 then dfail (Reserved ''manifest-kind reserved field is nonzero'')
     else if tag = 0 \<and> depth = 0 then dret Full
     else if tag = 0 then dfail (Reserved ''full manifest carries a delta depth'')
     else if tag = 1 then
       dbind dec_id (\<lambda>parent.
       dbind decode_input_cut (\<lambda>parent_cut. dret (Delta parent parent_cut depth)))
     else dfail (UnknownEnum ''manifest kind'' (ucast tag)))))"

definition enc_declaration :: "state_declaration \<Rightarrow> put" where
  "enc_declaration s = enc_seq
     [enc_state_key (sd_key s),
      enc_shape (sd_full_shape s),
      enc_shape (sd_segment_shape s),
      enc_try (try_from_usize (length (sd_strides s)) ''too many state strides'') enc_u8,
      enc_seq (map enc_u64 (sd_strides s)),
      enc_u64 (sd_logical_start s),
      enc_u64 (sd_logical_count s),
      enc_u64 (sd_absolute_position s),
      enc_u64 (sd_window s),
      enc_u32 (sd_atomic_group s)]"

definition dec_declaration :: "state_declaration get" where
  "dec_declaration =
     dbind dec_state_key (\<lambda>key.
     dbind dec_shape (\<lambda>full_shape.
     dbind dec_shape (\<lambda>segment_shape.
     dbind dec_u8 (\<lambda>stride_count.
     if unat stride_count > MAX_RANK then dfail (Bounds ''too many state strides'')
     else dbind (dec_times (unat stride_count) dec_u64) (\<lambda>strides.
     dbind dec_u64 (\<lambda>logical_start.
     dbind dec_u64 (\<lambda>logical_count.
     dbind dec_u64 (\<lambda>absolute_position.
     dbind dec_u64 (\<lambda>window.
     dbind dec_u32 (\<lambda>group.
     dret \<lparr>sd_key = key, sd_full_shape = full_shape, sd_segment_shape = segment_shape,
           sd_strides = strides, sd_logical_start = logical_start,
           sd_logical_count = logical_count, sd_absolute_position = absolute_position,
           sd_window = window, sd_atomic_group = group\<rparr>))))))))))"

definition canonical_schema_bytes :: "state_declaration \<Rightarrow> bytes result" where
  "canonical_schema_bytes s =
     enc_versioned (enc_declaration s) (enc_new STATE_SCHEMA_MAGIC)"

definition decode_canonical_schema :: "bytes \<Rightarrow> state_declaration result" where
  "decode_canonical_schema bs =
     rbind (decode_object STATE_SCHEMA_MAGIC
       (dec_versioned ''unsupported state-schema version''
          ''state-schema reserved field is nonzero'' dec_declaration) bs) (\<lambda>value.
     rbind (canonical_schema_bytes value) (\<lambda>encoded.
     if encoded \<noteq> bs then Inl (Reserved ''state-schema encoding is not canonical'')
     else Inr value))"

definition enc_span :: "chunk_span \<Rightarrow> put" where
  "enc_span v = enc_seq
     [enc_u64 (cs_token_start v), enc_u64 (cs_token_count v), enc_u64 (cs_plaintext_offset v),
      enc_u32 (cs_plaintext_bytes v)]"

definition dec_span :: "chunk_span get" where
  "dec_span =
     dbind dec_u64 (\<lambda>token_start.
     dbind dec_u64 (\<lambda>token_count.
     dbind dec_u64 (\<lambda>plaintext_offset.
     dbind dec_u32 (\<lambda>plaintext_bytes.
     dret \<lparr>cs_token_start = token_start, cs_token_count = token_count,
           cs_plaintext_offset = plaintext_offset, cs_plaintext_bytes = plaintext_bytes\<rparr>))))"

definition enc_realized :: "realized_state_schema \<Rightarrow> put" where
  "enc_realized s = enc_seq
     [enc_state_key (rs_key s),
      enc_shape (rs_full_shape s),
      enc_shape (rs_segment_shape s),
      enc_try (try_from_usize (length (rs_strides s)) ''too many state strides'') enc_u8,
      enc_seq (map enc_u64 (rs_strides s)),
      enc_u64 (rs_logical_start s),
      enc_u64 (rs_logical_count s),
      enc_u64 (rs_physical_offset_bytes s),
      enc_u64 (rs_physical_span_bytes s),
      enc_u64 (rs_complete_physical_bytes s),
      enc_u64 (rs_absolute_position s),
      enc_u64 (rs_window s),
      enc_try (try_from_usize (length (rs_chunk_spans s)) ''too many chunk spans'') enc_u32,
      enc_seq (map enc_span (rs_chunk_spans s))]"

definition dec_realized :: "realized_state_schema get" where
  "dec_realized =
     dbind dec_state_key (\<lambda>key.
     dbind dec_shape (\<lambda>full_shape.
     dbind dec_shape (\<lambda>segment_shape.
     dbind dec_u8 (\<lambda>stride_count.
     if unat stride_count > MAX_RANK then dfail (Bounds ''too many state strides'')
     else dbind (dec_times (unat stride_count) dec_u64) (\<lambda>strides.
     dbind dec_u64 (\<lambda>logical_start.
     dbind dec_u64 (\<lambda>logical_count.
     dbind dec_u64 (\<lambda>physical_offset_bytes.
     dbind dec_u64 (\<lambda>physical_span_bytes.
     dbind dec_u64 (\<lambda>complete_physical_bytes.
     dbind dec_u64 (\<lambda>absolute_position.
     dbind dec_u64 (\<lambda>window.
     dbind dec_u32 (\<lambda>chunk_count.
     if unat chunk_count = 0 \<or> unat chunk_count > MAX_CHUNKS_PER_STATE
     then dfail (Bounds ''state chunk-span count is outside bounds'')
     else dbind (dec_times (unat chunk_count) dec_span) (\<lambda>chunk_spans.
     dret \<lparr>rs_key = key, rs_full_shape = full_shape, rs_segment_shape = segment_shape,
           rs_strides = strides, rs_logical_start = logical_start,
           rs_logical_count = logical_count, rs_physical_offset_bytes = physical_offset_bytes,
           rs_physical_span_bytes = physical_span_bytes,
           rs_complete_physical_bytes = complete_physical_bytes,
           rs_absolute_position = absolute_position, rs_window = window,
           rs_chunk_spans = chunk_spans\<rparr>))))))))))))))"

definition enc_group :: "atomic_group \<Rightarrow> put" where
  "enc_group g = enc_seq
     [enc_u32 (ag_id g),
      enc_try (try_from_usize (length (ag_states g)) ''too many atomic-group states'') enc_u32,
      enc_seq (map enc_state_key (ag_states g))]"

definition dec_group :: "atomic_group get" where
  "dec_group =
     dbind dec_u32 (\<lambda>ident.
     dbind dec_u32 (\<lambda>state_count.
     if unat state_count = 0 \<or> unat state_count > MAX_STATES
     then dfail (Bounds ''atomic-group state count is outside bounds'')
     else dbind (dec_times (unat state_count) dec_state_key) (\<lambda>states.
     dret \<lparr>ag_id = ident, ag_states = states\<rparr>)))"

definition schema_encode_body :: "realized_cut_schema_id \<Rightarrow> put" where
  "schema_encode_body s = enc_seq
     [enc_kind (rc_kind s),
      enc_try (try_from_usize (length (rc_states s)) ''too many realized states'') enc_u32,
      enc_seq (map enc_realized (rc_states s)),
      enc_try (try_from_usize (length (rc_atomic_groups s)) ''too many atomic groups'') enc_u32,
      enc_seq (map enc_group (rc_atomic_groups s)),
      enc_u64 (rc_segment_restored_bytes s),
      enc_u64 (rc_complete_restored_bytes s)]"

definition schema_decode_body :: "realized_cut_schema_id get" where
  "schema_decode_body =
     dbind dec_kind (\<lambda>kind.
     dbind dec_u32 (\<lambda>state_count.
     if unat state_count = 0 \<or> unat state_count > MAX_STATES
     then dfail (Bounds ''realized state count is outside bounds'')
     else dbind (dec_times (unat state_count) dec_realized) (\<lambda>states.
     dbind dec_u32 (\<lambda>group_count.
     if unat group_count = 0 \<or> unat group_count > MAX_ATOMIC_GROUPS
     then dfail (Bounds ''atomic-group count is outside bounds'')
     else dbind (dec_times (unat group_count) dec_group) (\<lambda>groups.
     dbind dec_u64 (\<lambda>segment_restored_bytes.
     dbind dec_u64 (\<lambda>complete_restored_bytes.
     dret \<lparr>rc_kind = kind, rc_states = states, rc_atomic_groups = groups,
           rc_segment_restored_bytes = segment_restored_bytes,
           rc_complete_restored_bytes = complete_restored_bytes\<rparr>)))))))"

definition schema_encode_canonical :: "realized_cut_schema_id \<Rightarrow> bytes result" where
  "schema_encode_canonical s =
     enc_versioned (schema_encode_body s) (enc_new SCHEMA_MAGIC)"

definition schema_decode_canonical :: "bytes \<Rightarrow> realized_cut_schema_id result" where
  "schema_decode_canonical bs =
     rbind (decode_object SCHEMA_MAGIC
       (dec_versioned ''unsupported realized-schema version''
          ''realized-schema reserved field is nonzero'' schema_decode_body) bs) (\<lambda>value.
     rbind (schema_encode_canonical value) (\<lambda>encoded.
     if encoded \<noteq> bs then Inl (Reserved ''realized-schema encoding is not canonical'')
     else Inr value))"

definition enc_ref :: "chunk_ref \<Rightarrow> put" where
  "enc_ref c = enc_seq
     [enc_id (cr_chunk_id c), enc_id (cr_object_key c), enc_id (cr_object_digest c),
      enc_u64 (cr_key_epoch c), enc_u32 (cr_plaintext_bytes c), enc_u32 (cr_object_bytes c)]"

definition dec_ref :: "chunk_ref get" where
  "dec_ref =
     dbind dec_id (\<lambda>chunk_id.
     dbind dec_id (\<lambda>object_key.
     dbind dec_id (\<lambda>object_digest.
     dbind dec_u64 (\<lambda>key_epoch.
     dbind dec_u32 (\<lambda>plaintext_bytes.
     dbind dec_u32 (\<lambda>object_bytes.
     dret \<lparr>cr_chunk_id = chunk_id, cr_object_key = object_key,
           cr_object_digest = object_digest, cr_key_epoch = key_epoch,
           cr_plaintext_bytes = plaintext_bytes, cr_object_bytes = object_bytes\<rparr>))))))"

definition enc_state_manifest :: "state_manifest \<Rightarrow> put" where
  "enc_state_manifest s = enc_seq
     [enc_state_key (st_key s),
      enc_try (try_from_usize (length (st_chunks s)) ''too many state chunks'') enc_u32,
      enc_seq (map enc_ref (st_chunks s))]"

definition dec_state_manifest :: "state_manifest get" where
  "dec_state_manifest =
     dbind dec_state_key (\<lambda>key.
     dbind dec_u32 (\<lambda>chunk_count.
     if unat chunk_count = 0 \<or> unat chunk_count > MAX_CHUNKS_PER_STATE
     then dfail (Bounds ''state chunk count is outside bounds'')
     else dbind (dec_times (unat chunk_count) dec_ref) (\<lambda>chunks.
     dret \<lparr>st_key = key, st_chunks = chunks\<rparr>)))"

definition manifest_encode_body :: "cut_manifest \<Rightarrow> put" where
  "manifest_encode_body m = enc_seq
     [enc_id (cm_tenant_namespace m),
      enc_u64 (cm_key_epoch m),
      encode_semantic (cm_semantic_model m),
      encode_input_cut (cm_input_cut m),
      family_encode_body (cm_family m),
      schema_encode_body (cm_realized_schema m),
      enc_try (try_from_usize (length (cm_states m)) ''too many manifest states'') enc_u32,
      enc_seq (map enc_state_manifest (cm_states m))]"

definition manifest_decode_body :: "cut_manifest get" where
  "manifest_decode_body =
     dbind dec_id (\<lambda>tenant_namespace.
     dbind dec_u64 (\<lambda>key_epoch.
     dbind decode_semantic (\<lambda>semantic_model.
     dbind decode_input_cut (\<lambda>input_cut.
     dbind family_decode_body (\<lambda>family.
     dbind schema_decode_body (\<lambda>realized_schema.
     dbind dec_u32 (\<lambda>state_count.
     if unat state_count = 0 \<or> unat state_count > MAX_STATES
     then dfail (Bounds ''manifest state count is outside bounds'')
     else dbind (dec_times (unat state_count) dec_state_manifest) (\<lambda>states.
     dret \<lparr>cm_tenant_namespace = tenant_namespace, cm_key_epoch = key_epoch,
           cm_semantic_model = semantic_model, cm_input_cut = input_cut, cm_family = family,
           cm_realized_schema = realized_schema, cm_states = states\<rparr>))))))))"

definition manifest_encode_canonical :: "cut_manifest \<Rightarrow> bytes result" where
  "manifest_encode_canonical m =
     enc_versioned (manifest_encode_body m) (enc_new MANIFEST_MAGIC)"

definition manifest_decode_canonical :: "bytes \<Rightarrow> cut_manifest result" where
  "manifest_decode_canonical bs =
     (if length bs > MAX_MANIFEST_BYTES then Inl (Bounds ''manifest exceeds production bound'')
      else rbind (decode_object MANIFEST_MAGIC
       (dec_versioned ''unsupported manifest version''
          ''manifest reserved field is nonzero'' manifest_decode_body) bs) (\<lambda>value.
     rbind (manifest_encode_canonical value) (\<lambda>encoded.
     if encoded \<noteq> bs then Inl (Reserved ''manifest encoding is not canonical'')
     else Inr value)))"

section \<open>Well-formed values\<close>

definition ok_input_cut :: "input_cut_id \<Rightarrow> bool" where
  "ok_input_cut v \<longleftrightarrow> length (ic_token_root v) = 32 \<and> length (ic_auxiliary_input_root v) = 32"

primrec ok_kind :: "manifest_kind \<Rightarrow> bool" where
  "ok_kind Full \<longleftrightarrow> True"
| "ok_kind (Delta parent parent_cut depth) \<longleftrightarrow> length parent = 32 \<and> ok_input_cut parent_cut"

definition ok_declaration :: "state_declaration \<Rightarrow> bool" where
  "ok_declaration s \<longleftrightarrow>
     ok_state_key (sd_key s) \<and> ok_shape (sd_full_shape s) \<and> ok_shape (sd_segment_shape s) \<and>
     length (sd_strides s) \<le> MAX_RANK"

definition ok_realized :: "realized_state_schema \<Rightarrow> bool" where
  "ok_realized s \<longleftrightarrow>
     ok_state_key (rs_key s) \<and> ok_shape (rs_full_shape s) \<and> ok_shape (rs_segment_shape s) \<and>
     length (rs_strides s) \<le> MAX_RANK \<and>
     rs_chunk_spans s \<noteq> [] \<and> length (rs_chunk_spans s) \<le> MAX_CHUNKS_PER_STATE"

definition ok_group :: "atomic_group \<Rightarrow> bool" where
  "ok_group g \<longleftrightarrow>
     ag_states g \<noteq> [] \<and> length (ag_states g) \<le> MAX_STATES \<and> list_all ok_state_key (ag_states g)"

definition ok_schema :: "realized_cut_schema_id \<Rightarrow> bool" where
  "ok_schema s \<longleftrightarrow>
     ok_kind (rc_kind s) \<and>
     rc_states s \<noteq> [] \<and> length (rc_states s) \<le> MAX_STATES \<and> list_all ok_realized (rc_states s) \<and>
     rc_atomic_groups s \<noteq> [] \<and> length (rc_atomic_groups s) \<le> MAX_ATOMIC_GROUPS \<and>
     list_all ok_group (rc_atomic_groups s)"

definition ok_ref :: "chunk_ref \<Rightarrow> bool" where
  "ok_ref c \<longleftrightarrow>
     length (cr_chunk_id c) = 32 \<and> length (cr_object_key c) = 32 \<and> length (cr_object_digest c) = 32"

definition ok_state_manifest :: "state_manifest \<Rightarrow> bool" where
  "ok_state_manifest s \<longleftrightarrow>
     ok_state_key (st_key s) \<and>
     st_chunks s \<noteq> [] \<and> length (st_chunks s) \<le> MAX_CHUNKS_PER_STATE \<and> list_all ok_ref (st_chunks s)"

definition ok_manifest :: "cut_manifest \<Rightarrow> bool" where
  "ok_manifest m \<longleftrightarrow>
     length (cm_tenant_namespace m) = 32 \<and> ok_semantic (cm_semantic_model m) \<and>
     ok_input_cut (cm_input_cut m) \<and> ok_family (cm_family m) \<and> ok_schema (cm_realized_schema m) \<and>
     cm_states m \<noteq> [] \<and> length (cm_states m) \<le> MAX_STATES \<and>
     list_all ok_state_manifest (cm_states m)"

section \<open>The wire contract\<close>

lemma count_u8: "n \<le> MAX_RANK \<Longrightarrow> unat (of_nat n :: u8) = n"
  by (simp add: wire_consts unat_of_nat)

lemma count_u32:
  "n \<le> MAX_STATES \<Longrightarrow> unat (of_nat n :: u32) = n"
  "n \<le> MAX_CHUNKS_PER_STATE \<Longrightarrow> unat (of_nat n :: u32) = n"
  "n \<le> MAX_ATOMIC_GROUPS \<Longrightarrow> unat (of_nat n :: u32) = n"
  by (simp_all add: wire_consts unat_of_nat)

lemmas counts = count_u8 count_u32

interpretation input_cut_codec: wire_codec encode_input_cut decode_input_cut ok_input_cut
proof
  show "ok_input_cut v \<Longrightarrow> codes (encode_input_cut v) decode_input_cut v" for v
    unfolding encode_input_cut_def decode_input_cut_def
    by (intro codes_then) (simp_all add: ok_input_cut_def)
next
  show "get_spec decode_input_cut (\<lambda>v bs. ok_input_cut v \<and> emits (encode_input_cut v) bs)"
    unfolding decode_input_cut_def
    by (intro spec_then)
      (auto simp: ok_input_cut_def encode_input_cut_def intro!: emits_steps simp del: append_Nil2)
qed

interpretation kind_codec: wire_codec enc_kind dec_kind ok_kind
proof
  show "codes (enc_kind k) dec_kind k" if ok: "ok_kind k" for k
  proof (cases k)
    case Full
    show ?thesis
      unfolding Full enc_kind.simps dec_kind_def
      by (intro codes_prims_then) (simp add: codes_dret)
  next
    case (Delta parent parent_cut depth)
    have "codes (enc_seq [enc_id parent, encode_input_cut parent_cut])
        (dbind dec_id (\<lambda>parent. dbind decode_input_cut (\<lambda>parent_cut.
           dret (Delta parent parent_cut depth)))) k"
      using ok Delta by (intro codes_then input_cut_codec.round_then) simp_all
    then show ?thesis
      unfolding Delta enc_kind.simps dec_kind_def by (intro codes_prims_then) simp
  qed
next
  show "get_spec dec_kind (\<lambda>k bs. ok_kind k \<and> emits (enc_kind k) bs)"
    unfolding dec_kind_def
    by (intro spec_then input_cut_codec.canon_then) (auto intro!: emits_steps simp del: append_Nil2)
qed

interpretation declaration_codec: wire_codec enc_declaration dec_declaration ok_declaration
proof
  fix s
  assume ok: "ok_declaration s"
  show "codes (enc_declaration s) dec_declaration s"
    unfolding enc_declaration_def dec_declaration_def
    by (intro codes_then state_key_codec.round_then shape_codec.round_then
        u64_codec.round_list_then)
      (use ok in \<open>simp_all add: ok_declaration_def counts list_all_iff\<close>,
       simp_all add: wire_consts)
next
  show "get_spec dec_declaration (\<lambda>s bs. ok_declaration s \<and> emits (enc_declaration s) bs)"
    unfolding dec_declaration_def
    by (intro spec_then state_key_codec.canon_then shape_codec.canon_then
        u64_codec.canon_list_then)
      (auto simp: ok_declaration_def enc_declaration_def wire_consts intro!: emits_steps
        simp del: append_Nil2)
qed

interpretation span_codec: wire_codec enc_span dec_span "\<lambda>_. True"
proof
  show "codes (enc_span v) dec_span v" for v
    unfolding enc_span_def dec_span_def by (intro codes_then) simp
next
  show "get_spec dec_span (\<lambda>v bs. True \<and> emits (enc_span v) bs)"
    unfolding dec_span_def
    by (intro spec_then) (auto simp: enc_span_def intro!: emits_steps simp del: append_Nil2)
qed

interpretation realized_codec: wire_codec enc_realized dec_realized ok_realized
proof
  fix s
  assume ok: "ok_realized s"
  show "codes (enc_realized s) dec_realized s"
    unfolding enc_realized_def dec_realized_def
    by (intro codes_then state_key_codec.round_then shape_codec.round_then
        u64_codec.round_list_then span_codec.round_list_then)
      (use ok in \<open>simp_all add: ok_realized_def counts list_all_iff\<close>,
       simp_all add: wire_consts)
next
  show "get_spec dec_realized (\<lambda>s bs. ok_realized s \<and> emits (enc_realized s) bs)"
    unfolding dec_realized_def
    by (intro spec_then state_key_codec.canon_then shape_codec.canon_then
        u64_codec.canon_list_then span_codec.canon_list_then)
      (auto simp: ok_realized_def enc_realized_def wire_consts intro!: emits_steps
        simp del: append_Nil2)
qed

interpretation group_codec: wire_codec enc_group dec_group ok_group
proof
  fix g
  assume ok: "ok_group g"
  show "codes (enc_group g) dec_group g"
    unfolding enc_group_def dec_group_def
    by (intro codes_then state_key_codec.round_list_then)
      (use ok in \<open>simp_all add: ok_group_def counts\<close>, simp_all add: wire_consts)
next
  show "get_spec dec_group (\<lambda>g bs. ok_group g \<and> emits (enc_group g) bs)"
    unfolding dec_group_def
    by (intro spec_then state_key_codec.canon_list_then)
      (auto simp: ok_group_def enc_group_def wire_consts intro!: emits_steps
        simp del: append_Nil2)
qed

interpretation schema_codec: wire_codec schema_encode_body schema_decode_body ok_schema
proof
  fix s
  assume ok: "ok_schema s"
  show "codes (schema_encode_body s) schema_decode_body s"
    unfolding schema_encode_body_def schema_decode_body_def
    by (intro codes_then kind_codec.round_then realized_codec.round_list_then
        group_codec.round_list_then)
      (use ok in \<open>simp_all add: ok_schema_def counts\<close>, simp_all add: wire_consts)
next
  show "get_spec schema_decode_body (\<lambda>s bs. ok_schema s \<and> emits (schema_encode_body s) bs)"
    unfolding schema_decode_body_def
    by (intro spec_then kind_codec.canon_then realized_codec.canon_list_then
        group_codec.canon_list_then)
      (auto simp: ok_schema_def schema_encode_body_def wire_consts intro!: emits_steps
        simp del: append_Nil2)
qed

interpretation ref_codec: wire_codec enc_ref dec_ref ok_ref
proof
  show "ok_ref c \<Longrightarrow> codes (enc_ref c) dec_ref c" for c
    unfolding enc_ref_def dec_ref_def by (intro codes_then) (simp_all add: ok_ref_def)
next
  show "get_spec dec_ref (\<lambda>c bs. ok_ref c \<and> emits (enc_ref c) bs)"
    unfolding dec_ref_def
    by (intro spec_then)
      (auto simp: ok_ref_def enc_ref_def intro!: emits_steps simp del: append_Nil2)
qed

interpretation state_manifest_codec:
  wire_codec enc_state_manifest dec_state_manifest ok_state_manifest
proof
  fix s
  assume ok: "ok_state_manifest s"
  show "codes (enc_state_manifest s) dec_state_manifest s"
    unfolding enc_state_manifest_def dec_state_manifest_def
    by (intro codes_then state_key_codec.round_then ref_codec.round_list_then)
      (use ok in \<open>simp_all add: ok_state_manifest_def counts\<close>, simp_all add: wire_consts)
next
  show "get_spec dec_state_manifest (\<lambda>s bs. ok_state_manifest s \<and> emits (enc_state_manifest s) bs)"
    unfolding dec_state_manifest_def
    by (intro spec_then state_key_codec.canon_then ref_codec.canon_list_then)
      (auto simp: ok_state_manifest_def enc_state_manifest_def wire_consts intro!: emits_steps
        simp del: append_Nil2)
qed

interpretation manifest_codec: wire_codec manifest_encode_body manifest_decode_body ok_manifest
proof
  fix m
  assume ok: "ok_manifest m"
  show "codes (manifest_encode_body m) manifest_decode_body m"
    unfolding manifest_encode_body_def manifest_decode_body_def
    by (intro codes_then semantic_codec.round_then input_cut_codec.round_then
        family_codec.round_then schema_codec.round_then state_manifest_codec.round_list_then)
      (use ok in \<open>simp_all add: ok_manifest_def counts\<close>, simp_all add: wire_consts)
next
  show "get_spec manifest_decode_body (\<lambda>m bs. ok_manifest m \<and> emits (manifest_encode_body m) bs)"
    unfolding manifest_decode_body_def
    by (intro spec_then semantic_codec.canon_then input_cut_codec.canon_then
        family_codec.canon_then schema_codec.canon_then state_manifest_codec.canon_list_then)
      (auto simp: ok_manifest_def manifest_encode_body_def wire_consts intro!: emits_steps
        simp del: append_Nil2)
qed

section \<open>The three canonical objects\<close>

lemma decode_canonical_schema_eq:
  "decode_canonical_schema bs = decode_object STATE_SCHEMA_MAGIC
     (dec_versioned ''unsupported state-schema version''
        ''state-schema reserved field is nonzero'' dec_declaration) bs"
  unfolding decode_canonical_schema_def canonical_schema_bytes_def
  by (rule declaration_codec.versioned_check_redundant) simp

lemma schema_decode_canonical_eq:
  "schema_decode_canonical bs = decode_object SCHEMA_MAGIC
     (dec_versioned ''unsupported realized-schema version''
        ''realized-schema reserved field is nonzero'' schema_decode_body) bs"
  unfolding schema_decode_canonical_def schema_encode_canonical_def
  by (rule schema_codec.versioned_check_redundant) simp

lemma manifest_decode_canonical_eq:
  "manifest_decode_canonical bs =
     (if length bs > MAX_MANIFEST_BYTES then Inl (Bounds ''manifest exceeds production bound'')
      else decode_object MANIFEST_MAGIC
        (dec_versioned ''unsupported manifest version''
           ''manifest reserved field is nonzero'' manifest_decode_body) bs)"
  unfolding manifest_decode_canonical_def manifest_encode_canonical_def
  by (rule if_cong [OF refl refl], rule manifest_codec.versioned_check_redundant) simp

interpretation declaration_object: canonical_object canonical_schema_bytes decode_canonical_schema
  ok_declaration "\<lambda>bs. length bs < 2 ^ 64"
  using declaration_codec.versioned_decode_iff [of STATE_SCHEMA_MAGIC]
    declaration_codec.versioned_encode_total [of _ STATE_SCHEMA_MAGIC]
  by unfold_locales (simp_all add: decode_canonical_schema_eq canonical_schema_bytes_def)

interpretation schema_object: canonical_object schema_encode_canonical schema_decode_canonical
  ok_schema "\<lambda>bs. length bs < 2 ^ 64"
  using schema_codec.versioned_decode_iff [of SCHEMA_MAGIC]
    schema_codec.versioned_encode_total [of _ SCHEMA_MAGIC]
  by unfold_locales (simp_all add: schema_decode_canonical_eq schema_encode_canonical_def)

interpretation manifest_object: canonical_object manifest_encode_canonical
  manifest_decode_canonical ok_manifest "\<lambda>bs. length bs \<le> MAX_MANIFEST_BYTES"
  using manifest_codec.versioned_decode_iff [of MANIFEST_MAGIC]
    manifest_codec.versioned_encode_total [of _ MANIFEST_MAGIC]
  by unfold_locales
    (simp_all add: manifest_decode_canonical_eq manifest_encode_canonical_def ok_iff,
     simp add: wire_consts)

end
