(* ===== verification/Samples.thy ===== *)
theory Samples
  imports Manifest
begin

text \<open>
  Concrete values on which the witnesses of the development run: a family with two dependent
  states, a full manifest of three tokens in two chunks per state, and their parts.
\<close>

text \<open>Two float states of three tokens, a value state depending on a key state, two chunks each.\<close>

definition sample_id :: "byte \<Rightarrow> id32" where
  "sample_id b = replicate 32 b"

definition sample_shape :: shape where
  "sample_shape = \<lparr>sh_dims = [3, 2, 0, 0, 0, 0, 0, 0], sh_rank = 2\<rparr>"

definition sample_state :: "bytes \<Rightarrow> state_key list \<Rightarrow> family_state" where
  "sample_state name deps = \<lparr>fs_key = StateKey 0 name, fs_cache_kind = OrdinaryKv, fs_dtype = F16,
     fs_codec = Lossless, fs_codec_version = 1, fs_layout = Contiguous, fs_token_axis_rule = Direct,
     fs_token_axis = 0, fs_elements_per_token = 2, fs_dimensions = [Token, Fixed 2],
     fs_dependencies = deps\<rparr>"

definition sample_family :: representation_family_id where
  "sample_family = \<lparr>rf_engine_cache_abi = sample_id 1, rf_mode = Native, rf_page_size_tokens = 16,
     rf_topology = sample_id 2, rf_shard_map = sample_id 3,
     rf_states = [sample_state [107] [], sample_state [118] [StateKey 0 [107]]]\<rparr>"

definition sample_realized :: "bytes \<Rightarrow> realized_state_schema" where
  "sample_realized name = \<lparr>rs_key = StateKey 0 name, rs_full_shape = sample_shape,
     rs_segment_shape = sample_shape, rs_strides = [2, 1], rs_logical_start = 0, rs_logical_count = 3,
     rs_physical_offset_bytes = 0, rs_physical_span_bytes = 12, rs_complete_physical_bytes = 12,
     rs_absolute_position = 3, rs_window = 0,
     rs_chunk_spans = [\<lparr>cs_token_start = 0, cs_token_count = 2, cs_plaintext_offset = 0, cs_plaintext_bytes = 8\<rparr>,
       \<lparr>cs_token_start = 2, cs_token_count = 1, cs_plaintext_offset = 8, cs_plaintext_bytes = 4\<rparr>]\<rparr>"

definition sample_chunk :: "byte \<Rightarrow> u32 \<Rightarrow> chunk_ref" where
  "sample_chunk b n = \<lparr>cr_chunk_id = sample_id b, cr_object_key = sample_id (b + 1),
     cr_object_digest = sample_id (b + 2), cr_key_epoch = 1, cr_plaintext_bytes = n, cr_object_bytes = 8192\<rparr>"

definition sample_manifest :: "atomic_group list \<Rightarrow> cut_manifest" where
  "sample_manifest groups = \<lparr>cm_tenant_namespace = sample_id 4, cm_key_epoch = 1,
     cm_semantic_model = \<lparr>sm_weights_config = sample_id 5, sm_adapters = sample_id 6,
       sm_tokenizer_template = sample_id 7, sm_position_semantics = sample_id 8, sm_qualified_math = sample_id 9\<rparr>,
     cm_input_cut = \<lparr>ic_token_root = sample_id 10, ic_auxiliary_input_root = sample_id 11, ic_token_count = 3\<rparr>,
     cm_family = sample_family,
     cm_realized_schema = \<lparr>rc_kind = Full, rc_states = [sample_realized [107], sample_realized [118]],
       rc_atomic_groups = groups, rc_segment_restored_bytes = 24, rc_complete_restored_bytes = 24\<rparr>,
     cm_states = [\<lparr>st_key = StateKey 0 [107], st_chunks = [sample_chunk 20 8, sample_chunk 30 4]\<rparr>,
       \<lparr>st_key = StateKey 0 [118], st_chunks = [sample_chunk 40 8, sample_chunk 50 4]\<rparr>]\<rparr>"

definition sample_groups :: "atomic_group list" where
  "sample_groups = [\<lparr>ag_id = 1, ag_states = [StateKey 0 [107], StateKey 0 [118]]\<rparr>]"

lemmas sample_defs = sample_manifest_def sample_family_def sample_state_def sample_realized_def
  sample_chunk_def sample_shape_def sample_groups_def

lemma sample_id_simps [simp]: "length (sample_id b) = 32" "is_zero_id (sample_id b) \<longleftrightarrow> b = 0"
  by (auto simp: sample_id_def is_zero_id_def list_all_iff)

lemma sample_shape_ok: "ok_shape sample_shape"
proof -
  have "replicate 6 (0 :: u64) = [0, 0, 0, 0, 0, 0]" by (simp add: numeral_eq_Suc)
  then show ?thesis
    by (simp add: ok_shape_def sample_shape_def shape_new_def shape_dims_def shape_rank_def wire_consts)
qed

lemma sample_family_ok: "ok_family sample_family"
  by (simp add: ok_family_def ok_family_state_def ok_state_key_def ok_string_def ok_dimension_def
      sample_defs wire_consts)

end
