(* ===== verification/Ids.thy ===== *)
theory Ids
  imports Samples
begin

text \<open>
  Derived identities (\<^verbatim>\<open>kvpack-core/src/ids.rs\<close>) and the key schedule (\<^verbatim>\<open>keys.rs\<close>).  The
  cryptographic crates are not part of the repository: a \<open>crypto\<close> record holds the functions the
  code calls.  Feeding a hash part by part is hashing the concatenation, as those crates document.
  Identities are digests of framed messages; the lemmas show that each framing is injective, so
  equal identities mean equal inputs or two explicit different messages with one digest.
\<close>

record crypto =
  cr_sha256 :: "bytes \<Rightarrow> id32"
  cr_hmac :: "bytes \<Rightarrow> bytes \<Rightarrow> id32"
  cr_hkdf :: "bytes \<Rightarrow> bytes \<Rightarrow> bytes \<Rightarrow> id32 option"
  cr_seal :: "bytes \<Rightarrow> bytes \<Rightarrow> bytes \<Rightarrow> bytes \<Rightarrow> bytes option"
  cr_open :: "bytes \<Rightarrow> bytes \<Rightarrow> bytes \<Rightarrow> bytes \<Rightarrow> bytes option"

text \<open>What the code relies on: digests are 32 bytes, expanding 32 bytes never fails.\<close>

definition digests_32 :: "crypto \<Rightarrow> bool" where
  "digests_32 C \<longleftrightarrow> (\<forall>m. length (cr_sha256 C m) = 32) \<and> (\<forall>k m. length (cr_hmac C k m) = 32)"

definition label :: "string \<Rightarrow> bytes" where
  "label s = ascii s @ [0]"

definition hmac :: "crypto \<Rightarrow> bytes \<Rightarrow> bytes list \<Rightarrow> id32" where
  "hmac C key parts = cr_hmac C key (concat parts)"

definition sha256 :: "crypto \<Rightarrow> bytes list \<Rightarrow> id32" where
  "sha256 C parts = cr_sha256 C (concat parts)"

section \<open>Keys\<close>

record key_schedule =
  ks_namespace :: bytes
  ks_prefix :: bytes
  ks_manifest_auth :: bytes
  ks_manifest_encryption :: bytes
  ks_chunk_identity :: bytes
  ks_object_identity :: bytes
  ks_chunk_encryption :: bytes

definition hkdf_expand :: "crypto \<Rightarrow> bytes \<Rightarrow> bytes \<Rightarrow> string \<Rightarrow> bytes result" where
  "hkdf_expand C salt root info =
     ok_or (cr_hkdf C salt root (ascii info)) (Authentication ''HKDF expansion failed'')"

definition derive_with_epoch_root ::
  "crypto \<Rightarrow> bytes \<Rightarrow> bytes \<Rightarrow> id32 \<Rightarrow> u64 \<Rightarrow> key_schedule result" where
  "derive_with_epoch_root C stable_root epoch_root tenant epoch =
     (if epoch = 0 then Inl (Semantics ''key epoch must be nonzero'')
      else let stable = hkdf_expand C tenant stable_root;
               epoch_keys = hkdf_expand C (tenant @ to_le_bytes epoch) epoch_root in
      rbind (stable ''kvpack/v1/stable/namespace'') (\<lambda>namespace.
      rbind (stable ''kvpack/v1/stable/prefix'') (\<lambda>prefix.
      rbind (stable ''kvpack/v1/stable/chunk-identity'') (\<lambda>chunk_identity.
      rbind (epoch_keys ''kvpack/v1/epoch/manifest-auth'') (\<lambda>manifest_auth.
      rbind (epoch_keys ''kvpack/v1/epoch/manifest-encryption'') (\<lambda>manifest_encryption.
      rbind (epoch_keys ''kvpack/v1/epoch/object-identity'') (\<lambda>object_identity.
      rbind (epoch_keys ''kvpack/v1/epoch/chunk-encryption'') (\<lambda>chunk_encryption.
      Inr \<lparr>ks_namespace = namespace, ks_prefix = prefix, ks_manifest_auth = manifest_auth,
           ks_manifest_encryption = manifest_encryption, ks_chunk_identity = chunk_identity,
           ks_object_identity = object_identity, ks_chunk_encryption = chunk_encryption\<rparr>))))))))"

definition key_schedule_derive :: "crypto \<Rightarrow> bytes \<Rightarrow> id32 \<Rightarrow> u64 \<Rightarrow> key_schedule result" where
  "key_schedule_derive C root tenant epoch = derive_with_epoch_root C root root tenant epoch"

section \<open>Identities\<close>

definition namespace_id :: "crypto \<Rightarrow> bytes \<Rightarrow> bytes \<Rightarrow> id32 result" where
  "namespace_id C key operator_tenant_id =
     rbind (try_from_usize (length operator_tenant_id) ''tenant ID is too long'') (\<lambda>len :: u32.
     Inr (hmac C key [label ''kvpack/v1/namespace'', to_le_bytes len, operator_tenant_id]))"

definition semantic_model_digest :: "crypto \<Rightarrow> semantic_model_id \<Rightarrow> id32" where
  "semantic_model_digest C v = sha256 C [label ''kvpack/v1/semantic-model'', sm_weights_config v,
     sm_adapters v, sm_tokenizer_template v, sm_position_semantics v, sm_qualified_math v]"

definition family_digest :: "crypto \<Rightarrow> representation_family_id \<Rightarrow> id32 result" where
  "family_digest C f = rbind (family_encode_canonical f) (\<lambda>bs.
     Inr (sha256 C [label ''kvpack/v1/representation-family'', bs]))"

definition schema_digest :: "crypto \<Rightarrow> realized_cut_schema_id \<Rightarrow> id32 result" where
  "schema_digest C s = rbind (schema_encode_canonical s) (\<lambda>bs.
     Inr (sha256 C [label ''kvpack/v1/realized-cut-schema'', bs]))"

definition manifest_id :: "crypto \<Rightarrow> bytes \<Rightarrow> id32" where
  "manifest_id C canonical_manifest = sha256 C [label ''kvpack/v1/manifest'', canonical_manifest]"

definition auxiliary_entry :: "nat \<times> auxiliary_input_id \<Rightarrow> bytes result" where
  "auxiliary_entry oi = (case oi of (ordinal, inp) \<Rightarrow>
     if ai_type_id inp = replicate 32 0 \<or> ai_value_id inp = replicate 32 0
     then Inl (Semantics ''auxiliary identity contains a zero component'')
     else rbind (try_from_usize ordinal ''auxiliary ordinal exceeds u64'') (\<lambda>ordinal :: u64.
     Inr (to_le_bytes ordinal @ to_le_bytes (32 :: u32) @ ai_type_id inp
       @ to_le_bytes (32 :: u32) @ ai_value_id inp)))"

definition auxiliary_frame :: "auxiliary_input_id list \<Rightarrow> bytes result" where
  "auxiliary_frame inputs =
     rbind (try_from_usize (length inputs) ''too many auxiliary identities'') (\<lambda>count :: u32.
     try_fold (\<lambda>framed oi. rbind (auxiliary_entry oi) (\<lambda>entry. Inr (framed @ entry)))
       (to_le_bytes count) (enumerate 0 inputs))"

definition auxiliary_input_root :: "crypto \<Rightarrow> bytes \<Rightarrow> id32 \<Rightarrow> auxiliary_input_id list \<Rightarrow> id32 result" where
  "auxiliary_input_root C key tenant inputs =
     rbind (auxiliary_frame inputs) (\<lambda>framed.
     Inr (hmac C key [label ''kvpack/v1/auxiliary-input-root'', tenant, framed]))"

definition chunk_id :: "crypto \<Rightarrow> bytes \<Rightarrow> id32 \<Rightarrow> representation_family_id \<Rightarrow> state_key \<Rightarrow> chunk_span
    \<Rightarrow> bytes \<Rightarrow> id32 result" where
  "chunk_id C key tenant family state_key span plaintext =
     (if cs_token_count span = 0 \<or> unat (cs_plaintext_bytes span) \<noteq> length plaintext
      then Inl (Semantics ''chunk plaintext does not match its declared span'')
      else rbind (family_digest C family) (\<lambda>family.
      rbind (try_from_usize (length (sk_name state_key)) ''state name is too long'') (\<lambda>name_length :: u16.
      rbind (try_from_usize (length plaintext) ''chunk plaintext exceeds u32'') (\<lambda>plaintext_length :: u32.
      Inr (hmac C key [label ''kvpack/v1/chunk-content'', tenant, family,
        to_le_bytes (sk_layer state_key), to_le_bytes name_length, sk_name state_key,
        to_le_bytes (cs_token_start span), to_le_bytes (cs_token_count span),
        to_le_bytes (cs_plaintext_offset span), to_le_bytes plaintext_length, plaintext])))))"

section \<open>The prefix chain\<close>

record prefix_node =
  pn_token_count :: u64
  pn_id :: id32
  pn_reusable :: bool

definition prefix_context_root :: "crypto \<Rightarrow> bytes \<Rightarrow> id32 \<Rightarrow> semantic_model_id
    \<Rightarrow> representation_family_id \<Rightarrow> id32 \<Rightarrow> id32 result" where
  "prefix_context_root C key tenant semantic_model family auxiliary_root =
     rbind (family_digest C family) (\<lambda>family.
     Inr (hmac C key [label ''kvpack/v1/prefix-context'', tenant,
       semantic_model_digest C semantic_model, family, auxiliary_root]))"

text \<open>\<^verbatim>\<open>slice::chunks\<close>\<close>

function chunks :: "nat \<Rightarrow> 'a list \<Rightarrow> 'a list list" where
  "chunks n xs = (if xs = [] \<or> n = 0 then [] else take n xs # chunks n (drop n xs))"
  by auto
termination by (relation "measure (length \<circ> snd)") auto

declare chunks.simps [simp del]

definition token_bytes :: "u32 list \<Rightarrow> bytes" where
  "token_bytes tokens = concat (map to_le_bytes tokens)"

fun chain_blocks :: "crypto \<Rightarrow> bytes \<Rightarrow> id32 \<Rightarrow> id32 \<Rightarrow> nat \<Rightarrow> u32 list list \<Rightarrow> prefix_node list result" where
  "chain_blocks C key context parent index [] = Inr []"
| "chain_blocks C key context parent index (block # blocks) =
     rbind (ok_or (usize_checked_mul index PREFIX_BLOCK_TOKENS) (Bounds ''prefix token offset overflow'')) (\<lambda>token_start.
     rbind (ok_or (usize_checked_mul (length block) 4) (Bounds ''prefix block byte length overflow'')) (\<lambda>byte_length.
     rbind (try_from_usize index ''prefix block index exceeds u64'') (\<lambda>block_index :: u64.
     rbind (try_from_usize token_start ''prefix token offset exceeds u64'') (\<lambda>token_start_u64 :: u64.
     rbind (try_from_usize (length block) ''prefix block token count exceeds u32'') (\<lambda>block_tokens :: u32.
     rbind (try_from_usize byte_length ''prefix block byte length exceeds u32'') (\<lambda>block_bytes :: u32.
     let framed = context @ parent @ to_le_bytes block_index @ to_le_bytes token_start_u64
           @ to_le_bytes block_tokens @ to_le_bytes block_bytes @ token_bytes block;
         node = hmac C key [label ''kvpack/v1/prefix-node'', framed] in
     rbind (ok_or (usize_checked_add token_start (length block)) (Bounds ''prefix token count overflow'')) (\<lambda>token_count.
     rbind (try_from_usize token_count ''prefix token count exceeds u64'') (\<lambda>token_count_u64 :: u64.
     rbind (chain_blocks C key context node (index + 1) blocks) (\<lambda>rest.
     Inr (\<lparr>pn_token_count = token_count_u64, pn_id = node,
           pn_reusable = (length block = PREFIX_BLOCK_TOKENS)\<rparr> # rest))))))))))"

definition chain_prefix_nodes :: "crypto \<Rightarrow> bytes \<Rightarrow> id32 \<Rightarrow> semantic_model_id \<Rightarrow> representation_family_id
    \<Rightarrow> id32 \<Rightarrow> u32 list \<Rightarrow> prefix_node list result" where
  "chain_prefix_nodes C key tenant semantic_model family auxiliary_root tokens =
     rbind (prefix_context_root C key tenant semantic_model family auxiliary_root) (\<lambda>context.
     chain_blocks C key context (hmac C key [label ''kvpack/v1/prefix-root'', context]) 0
       (chunks PREFIX_BLOCK_TOKENS tokens))"

definition derive_input_cut :: "crypto \<Rightarrow> bytes \<Rightarrow> id32 \<Rightarrow> semantic_model_id \<Rightarrow> representation_family_id
    \<Rightarrow> u32 list \<Rightarrow> auxiliary_input_id list \<Rightarrow> (input_cut_id \<times> prefix_node list) result" where
  "derive_input_cut C key tenant semantic_model family tokens auxiliary_inputs =
     rbind (auxiliary_input_root C key tenant auxiliary_inputs) (\<lambda>aux_root.
     rbind (chain_prefix_nodes C key tenant semantic_model family aux_root tokens) (\<lambda>nodes.
     rbind (if nodes \<noteq> [] then Inr (pn_id (last nodes))
       else rbind (prefix_context_root C key tenant semantic_model family aux_root) (\<lambda>context.
         Inr (hmac C key [label ''kvpack/v1/prefix-root'', context]))) (\<lambda>token_root.
     rbind (try_from_usize (length tokens) ''input token count exceeds u64'') (\<lambda>token_count :: u64.
     Inr (\<lparr>ic_token_root = token_root, ic_auxiliary_input_root = aux_root,
           ic_token_count = token_count\<rparr>, nodes)))))"

section \<open>Framing is injective\<close>

lemma length_label [simp]: "length (label s) = length s + 1"
  by (simp add: label_def)

lemma to_le_bytes_inj:
  "8 dvd LENGTH('a) \<Longrightarrow> to_le_bytes (v :: 'a::len word) = to_le_bytes w \<longleftrightarrow> v = w"
  by (metis from_to_le_bytes)

lemma token_bytes_simps [simp]:
  "token_bytes [] = []" "token_bytes (t # ts) = to_le_bytes t @ token_bytes ts"
  "token_bytes (ts @ us) = token_bytes ts @ token_bytes us"
  by (simp_all add: token_bytes_def)

lemma length_token_bytes [simp]: "length (token_bytes ts) = 4 * length ts"
  by (induction ts) auto

lemma token_bytes_inj: "token_bytes ts = token_bytes us \<longleftrightarrow> ts = us"
proof
  show "token_bytes ts = token_bytes us \<Longrightarrow> ts = us"
  proof (induction ts arbitrary: us)
    case Nil
    then have "length (token_bytes us) = 0" by (metis list.size(3) token_bytes_simps(1))
    then show ?case by simp
  next
    case (Cons t ts)
    from arg_cong [OF Cons(2), of length] obtain u us' where us: "us = u # us'"
      by (cases us) auto
    with Cons(2) have "to_le_bytes t = to_le_bytes u" "token_bytes ts = token_bytes us'"
      by (simp_all add: append_eq_append_conv)
    with Cons(1) us show ?case by (simp add: to_le_bytes_inj)
  qed
qed simp

lemma try_from_conv:
  "try_from_usize n msg = Inr (w :: 'a::len word) \<longleftrightarrow> n < 2 ^ LENGTH('a) \<and> w = of_nat n"
  by (auto simp: try_from_usize_def)

lemmas ok_conv = rbind_eq_Inr if_Inl_eq_Inr ok_or_eq_Inr usize_checked_add_Some
  usize_checked_mul_Some try_from_conv

definition node_message :: "id32 \<Rightarrow> id32 \<Rightarrow> nat \<Rightarrow> u32 list \<Rightarrow> bytes" where
  "node_message context parent index block =
     label ''kvpack/v1/prefix-node'' @ context @ parent @ to_le_bytes (of_nat index :: u64)
       @ to_le_bytes (of_nat (index * PREFIX_BLOCK_TOKENS) :: u64)
       @ to_le_bytes (of_nat (length block) :: u32) @ to_le_bytes (of_nat (length block * 4) :: u32)
       @ token_bytes block"

fun chain_messages :: "crypto \<Rightarrow> bytes \<Rightarrow> id32 \<Rightarrow> id32 \<Rightarrow> nat \<Rightarrow> u32 list list \<Rightarrow> bytes list" where
  "chain_messages C key context parent index [] = []"
| "chain_messages C key context parent index (block # blocks) =
     (let msg = node_message context parent index block
      in msg # chain_messages C key context (cr_hmac C key msg) (index + 1) blocks)"

lemma chain_blocks_ok:
  assumes "chain_blocks C key context parent index blocks = Inr nodes"
  shows "map pn_id nodes = map (cr_hmac C key) (chain_messages C key context parent index blocks)"
    "length nodes = length blocks"
    "\<And>i. i < length blocks \<Longrightarrow> pn_reusable (nodes ! i) = (length (blocks ! i) = PREFIX_BLOCK_TOKENS)
       \<and> unat (pn_token_count (nodes ! i)) = (index + i) * PREFIX_BLOCK_TOKENS + length (blocks ! i)"
proof -
  have "map pn_id nodes = map (cr_hmac C key) (chain_messages C key context parent index blocks)
    \<and> length nodes = length blocks
    \<and> (\<forall>i < length blocks. pn_reusable (nodes ! i) = (length (blocks ! i) = PREFIX_BLOCK_TOKENS)
       \<and> unat (pn_token_count (nodes ! i)) = (index + i) * PREFIX_BLOCK_TOKENS + length (blocks ! i))"
    using assms
  proof (induction blocks arbitrary: parent index nodes)
    case Nil
    then show ?case by simp
  next
    case (Cons block blocks)
    let ?msg = "node_message context parent index block"
    from Cons(2) obtain rest where
      bound: "index * PREFIX_BLOCK_TOKENS + length block < 2 ^ 64"
      and rest: "chain_blocks C key context (cr_hmac C key ?msg) (index + 1) blocks = Inr rest"
      and nodes: "nodes = \<lparr>pn_token_count = of_nat (index * PREFIX_BLOCK_TOKENS + length block),
        pn_id = cr_hmac C key ?msg, pn_reusable = (length block = PREFIX_BLOCK_TOKENS)\<rparr> # rest"
      by (auto simp: ok_conv Let_def hmac_def node_message_def simp del: of_nat_add of_nat_mult)
    have count: "unat (of_nat (index * PREFIX_BLOCK_TOKENS + length block) :: u64)
        = index * PREFIX_BLOCK_TOKENS + length block"
      using bound by (simp add: unat_of_nat del: of_nat_add of_nat_mult)
    note IH = Cons(1) [OF rest]
    have "pn_reusable (nodes ! i) = (length ((block # blocks) ! i) = PREFIX_BLOCK_TOKENS)
       \<and> unat (pn_token_count (nodes ! i)) = (index + i) * PREFIX_BLOCK_TOKENS + length ((block # blocks) ! i)"
      if "i < length (block # blocks)" for i
      using IH nodes count that by (cases i) (auto simp del: of_nat_add of_nat_mult)
    with IH nodes show ?case by (simp add: Let_def)
  qed
  then show "map pn_id nodes = map (cr_hmac C key) (chain_messages C key context parent index blocks)"
    "length nodes = length blocks"
    "\<And>i. i < length blocks \<Longrightarrow> pn_reusable (nodes ! i) = (length (blocks ! i) = PREFIX_BLOCK_TOKENS)
       \<and> unat (pn_token_count (nodes ! i)) = (index + i) * PREFIX_BLOCK_TOKENS + length (blocks ! i)"
    by blast+
qed

lemma chain_blocks_append:
  "chain_blocks C key context parent index (bs @ cs) = Inr nodes \<Longrightarrow>
     chain_blocks C key context parent index bs = Inr (take (length bs) nodes)"
proof (induction bs arbitrary: parent index nodes)
  case (Cons b bs)
  then show ?case by (fastforce simp: ok_conv Let_def)
qed simp

lemma node_message_inj:
  assumes "node_message c p i b = node_message c' p' i' b'"
    and "length c = 32" "length c' = 32" "length p = 32" "length p' = 32"
    and "length b < 2 ^ 32" "length b' < 2 ^ 32"
  shows "c = c' \<and> p = p' \<and> b = b'"
proof -
  from assms(1-5) have "c = c'" "p = p'"
    and "(of_nat (length b) :: u32) = of_nat (length b')"
    and tail: "to_le_bytes (of_nat (length b * 4) :: u32) @ token_bytes b
       = to_le_bytes (of_nat (length b' * 4) :: u32) @ token_bytes b'"
    unfolding node_message_def
    by (auto simp: append_eq_append_conv to_le_bytes_inj)
  then show ?thesis by (simp add: append_eq_append_conv token_bytes_inj)
qed

section \<open>Blocks\<close>

lemma chunks_Nil [simp]: "chunks n [] = []"
  by (simp add: chunks.simps)

lemma chunks_step: "xs \<noteq> [] \<Longrightarrow> 0 < n \<Longrightarrow> chunks n xs = take n xs # chunks n (drop n xs)"
  by (subst chunks.simps) simp

lemma concat_chunks: "0 < n \<Longrightarrow> concat (chunks n xs) = xs"
  by (induction n xs rule: chunks.induct) (subst chunks.simps, auto)

lemma chunks_size: "0 < n \<Longrightarrow> b \<in> set (chunks n xs) \<Longrightarrow> b \<noteq> [] \<and> length b \<le> n"
  by (induction n xs rule: chunks.induct) (subst (asm) chunks.simps, auto split: if_splits)

lemma chunks_append:
  assumes "0 < n" and "length xs = k * n"
  shows "chunks n (xs @ ys) = chunks n xs @ chunks n ys"
  using assms(2)
proof (induction k arbitrary: xs)
  case 0
  then show ?case by simp
next
  case (Suc k)
  then have "n \<le> length xs" "xs \<noteq> []" "length (drop n xs) = k * n" using assms(1) by auto
  with Suc(1) [of "drop n xs"] assms(1) show ?case
    by (simp add: chunks_step)
qed

lemma chunks_full:
  assumes "0 < n" and "length xs = k * n"
  shows "length (chunks n xs) = k \<and> (\<forall>b \<in> set (chunks n xs). length b = n)"
  using assms(2)
proof (induction k arbitrary: xs)
  case 0
  then show ?case by simp
next
  case (Suc k)
  from Suc(2) have len: "n \<le> length xs" and rest: "length (drop n xs) = k * n"
    by simp_all
  have step: "chunks n xs = take n xs # chunks n (drop n xs)"
    by (rule chunks_step) (use len assms(1) in auto)
  from len have "length (take n xs) = n" by simp
  with Suc(1) [OF rest] show ?case unfolding step by auto
qed

lemma chunks_short: "0 < n \<Longrightarrow> length xs < n \<Longrightarrow> chunks n xs = (if xs = [] then [] else [xs])"
  by (cases "xs = []") (simp_all add: chunks_step [of xs n])

text \<open>The chunks of a list: its full blocks, then at most one short block.\<close>

lemma chunks_split:
  assumes "0 < n"
  obtains full rest where "chunks n xs = full @ rest" "length full = length xs div n"
    "\<And>b. b \<in> set full \<Longrightarrow> length b = n" "\<And>b. b \<in> set rest \<Longrightarrow> length b < n"
    "\<And>ys. chunks n (xs @ ys) = full @ chunks n (drop (length xs div n * n) xs @ ys)"
proof -
  let ?k = "length xs div n"
  have len: "length (take (?k * n) xs) = ?k * n"
    by (simp add: min_absorb2 div_times_less_eq_dividend)
  have "length (drop (?k * n) xs) < n"
    using assms by (simp add: minus_div_mult_eq_mod)
  then have rest: "\<And>b. b \<in> set (chunks n (drop (?k * n) xs)) \<Longrightarrow> length b < n"
    using assms by (auto simp: chunks_short split: if_splits)
  have ext: "chunks n (xs @ ys) = chunks n (take (?k * n) xs) @ chunks n (drop (?k * n) xs @ ys)" for ys
  proof -
    have "xs @ ys = take (?k * n) xs @ drop (?k * n) xs @ ys" by (simp flip: append_assoc)
    then show ?thesis using chunks_append [OF assms len, of "drop (?k * n) xs @ ys"] by metis
  qed
  show thesis
  proof (rule that)
    show "chunks n xs = chunks n (take (?k * n) xs) @ chunks n (drop (?k * n) xs)"
      using ext [of "[]"] by (simp only: append_Nil2)
    show "length (chunks n (take (?k * n) xs)) = ?k" using chunks_full [OF assms len] by (rule conjunct1)
    show "\<And>b. b \<in> set (chunks n (take (?k * n) xs)) \<Longrightarrow> length b = n"
      using chunks_full [OF assms len] by blast
  qed (fact rest ext)+
qed

section \<open>Binding\<close>

lemma chain_binds:
  assumes "digests_32 C" and "length blocks = length blocks'" and "blocks \<noteq> []"
    and "length c = 32" "length c' = 32" "length p = 32" "length p' = 32"
    and "\<forall>b \<in> set blocks \<union> set blocks'. length b < 2 ^ 32"
    and "cr_hmac C key (last (chain_messages C key c p i blocks))
      = cr_hmac C key (last (chain_messages C key c' p' i' blocks'))"
  shows "p = p' \<and> blocks = blocks' \<or>
    (\<exists>m \<in> set (chain_messages C key c p i blocks). \<exists>m' \<in> set (chain_messages C key c' p' i' blocks').
       m \<noteq> m' \<and> cr_hmac C key m = cr_hmac C key m')"
  using assms(2-)
proof (induction blocks blocks' arbitrary: p p' i i' rule: list_induct2)
  case Nil
  then show ?case by simp
next
  case (Cons b bs b' bs')
  let ?m = "node_message c p i b" and ?m' = "node_message c' p' i' b'"
  have dig: "length (cr_hmac C key m) = 32" for m using assms(1) by (simp add: digests_32_def)
  have inj: "p = p' \<and> b = b'" if "?m = ?m'"
    using node_message_inj [OF that] Cons.prems by auto
  have here: ?case if "cr_hmac C key ?m = cr_hmac C key ?m'" "bs = bs'"
    using inj that by (cases "?m = ?m'") (auto simp: Let_def)
  show ?case
  proof (cases "bs = []")
    case True
    with Cons.hyps have "bs' = []" by simp
    with True here Cons.prems show ?thesis by (simp add: Let_def)
  next
    case False
    then have "bs' \<noteq> []" using Cons.hyps by auto
    then have last: "cr_hmac C key (last (chain_messages C key c (cr_hmac C key ?m) (i + 1) bs))
      = cr_hmac C key (last (chain_messages C key c' (cr_hmac C key ?m') (i' + 1) bs'))"
      using Cons.prems(7) False by (cases bs; cases bs') (simp_all add: Let_def)
    from Cons.IH [OF False Cons.prems(2,3) dig dig _ last] Cons.prems(6)
    have "cr_hmac C key ?m = cr_hmac C key ?m' \<and> bs = bs' \<or>
      (\<exists>m \<in> set (chain_messages C key c (cr_hmac C key ?m) (i + 1) bs).
         \<exists>m' \<in> set (chain_messages C key c' (cr_hmac C key ?m') (i' + 1) bs').
           m \<noteq> m' \<and> cr_hmac C key m = cr_hmac C key m')" by simp
    then show ?thesis
    proof
      assume "cr_hmac C key ?m = cr_hmac C key ?m' \<and> bs = bs'"
      then show ?thesis using here by blast
    next
      assume "\<exists>m \<in> set (chain_messages C key c (cr_hmac C key ?m) (i + 1) bs).
         \<exists>m' \<in> set (chain_messages C key c' (cr_hmac C key ?m') (i' + 1) bs').
           m \<noteq> m' \<and> cr_hmac C key m = cr_hmac C key m'"
      then show ?thesis by (auto simp: Let_def)
    qed
  qed
qed

lemma chain_blocks_total:
  assumes "(index + length blocks) * PREFIX_BLOCK_TOKENS < 2 ^ 64"
    and "\<forall>b \<in> set blocks. length b \<le> PREFIX_BLOCK_TOKENS"
  shows "\<exists>nodes. chain_blocks C key c p index blocks = Inr nodes"
  using assms
proof (induction blocks arbitrary: p index)
  case Nil
  then show ?case by simp
next
  case (Cons b blocks)
  then have "length b \<le> 256" "index * 256 + length b < 2 ^ 64" "index < 2 ^ 64" "length b * 4 < 2 ^ 32"
    by (auto simp: wire_consts)
  moreover have "\<exists>rest. chain_blocks C key c q (Suc index) blocks = Inr rest" for q
    by (rule Cons(1)) (use Cons(2,3) in simp_all)
  ultimately show ?case
    by (simp add: wire_consts usize_checked_mul_def usize_checked_add_def Let_def ok_conv)
qed

definition cut_messages :: "crypto \<Rightarrow> bytes \<Rightarrow> id32 \<Rightarrow> u32 list \<Rightarrow> bytes list" where
  "cut_messages C key ctx tokens = chain_messages C key ctx
     (hmac C key [label ''kvpack/v1/prefix-root'', ctx]) 0 (chunks PREFIX_BLOCK_TOKENS tokens)"

definition content_message :: "id32 \<Rightarrow> id32 \<Rightarrow> state_key \<Rightarrow> chunk_span \<Rightarrow> bytes \<Rightarrow> bytes" where
  "content_message tenant family k span plaintext = concat [label ''kvpack/v1/chunk-content'', tenant,
     family, to_le_bytes (sk_layer k), to_le_bytes (of_nat (length (sk_name k)) :: u16), sk_name k,
     to_le_bytes (cs_token_start span), to_le_bytes (cs_token_count span),
     to_le_bytes (cs_plaintext_offset span), to_le_bytes (of_nat (length plaintext) :: u32), plaintext]"

lemma chunk_id_ok:
  assumes "chunk_id C key tenant family k span plaintext = Inr ident"
  obtains bs where "family_encode_canonical family = Inr bs"
    "ident = cr_hmac C key (content_message tenant
       (cr_sha256 C (label ''kvpack/v1/representation-family'' @ bs)) k span plaintext)"
    "length (sk_name k) < 2 ^ 16" "length plaintext < 2 ^ 32"
    "unat (cs_plaintext_bytes span) = length plaintext"
  using assms
  by (auto simp: chunk_id_def family_digest_def ok_conv hmac_def sha256_def content_message_def)

lemma content_message_inj:
  assumes "content_message t f k sp p = content_message t' f' k' sp' p'"
    and "length t = 32" "length t' = 32" "length f = 32" "length f' = 32"
    and "length (sk_name k) < 2 ^ 16" "length (sk_name k') < 2 ^ 16"
    and "unat (cs_plaintext_bytes sp) = length p" "unat (cs_plaintext_bytes sp') = length p'"
  shows "t = t' \<and> f = f' \<and> k = k' \<and> sp = sp' \<and> p = p'"
proof -
  from assms(1-5) have "t = t'" "f = f'" "sk_layer k = sk_layer k'"
    and name: "(of_nat (length (sk_name k)) :: u16) = of_nat (length (sk_name k'))"
    and rest: "sk_name k @ to_le_bytes (cs_token_start sp) @ to_le_bytes (cs_token_count sp)
        @ to_le_bytes (cs_plaintext_offset sp) @ to_le_bytes (of_nat (length p) :: u32) @ p
      = sk_name k' @ to_le_bytes (cs_token_start sp') @ to_le_bytes (cs_token_count sp')
        @ to_le_bytes (cs_plaintext_offset sp') @ to_le_bytes (of_nat (length p') :: u32) @ p'"
    by (auto simp: content_message_def append_eq_append_conv to_le_bytes_inj)
  have "length (sk_name k) = length (sk_name k')"
  proof -
    have "unat (of_nat n :: u16) = n" if "n < 2 ^ 16" for n using that by (simp add: unat_of_nat)
    with arg_cong [OF name, of unat] assms(6,7) show ?thesis by simp
  qed
  with rest have "sk_name k = sk_name k'" "cs_token_start sp = cs_token_start sp'"
    "cs_token_count sp = cs_token_count sp'" "cs_plaintext_offset sp = cs_plaintext_offset sp'" "p = p'"
    by (auto simp: append_eq_append_conv to_le_bytes_inj)
  moreover from this have "cs_plaintext_bytes sp = cs_plaintext_bytes sp'"
    using assms(8,9) by (simp add: word_unat_eq_iff)
  ultimately show ?thesis
    using \<open>t = t'\<close> \<open>f = f'\<close> \<open>sk_layer k = sk_layer k'\<close> by (simp add: state_key.expand)
qed

section \<open>Properties\<close>

text \<open>Prefix nodes are shared by every continuation: the nodes of the full 256-token
  blocks of a token sequence, which are exactly its reusable nodes, are also the first nodes of
  any longer sequence that starts with it, and they end at the block boundaries.\<close>

theorem prefix_nodes_shared:
  assumes "chain_prefix_nodes C key tenant sm family aux tokens = Inr nodes"
    and "chain_prefix_nodes C key tenant sm family aux (tokens @ tail) = Inr longer"
  shows "take (length tokens div PREFIX_BLOCK_TOKENS) longer = take (length tokens div PREFIX_BLOCK_TOKENS) nodes
    \<and> (\<forall>i < length nodes. pn_reusable (nodes ! i) \<longleftrightarrow> i < length tokens div PREFIX_BLOCK_TOKENS)
    \<and> (\<forall>i < length tokens div PREFIX_BLOCK_TOKENS.
         unat (pn_token_count (nodes ! i)) = (i + 1) * PREFIX_BLOCK_TOKENS)"
proof -
  have pos: "0 < PREFIX_BLOCK_TOKENS" by (simp add: wire_consts)
  from assms obtain ctx where
    nodes: "chain_blocks C key ctx (hmac C key [label ''kvpack/v1/prefix-root'', ctx]) 0
      (chunks PREFIX_BLOCK_TOKENS tokens) = Inr nodes"
    and longer: "chain_blocks C key ctx (hmac C key [label ''kvpack/v1/prefix-root'', ctx]) 0
      (chunks PREFIX_BLOCK_TOKENS (tokens @ tail)) = Inr longer"
    by (auto simp: chain_prefix_nodes_def rbind_eq_Inr)
  obtain full rest where split: "chunks PREFIX_BLOCK_TOKENS tokens = full @ rest"
    and len: "length full = length tokens div PREFIX_BLOCK_TOKENS"
    and full: "\<And>b. b \<in> set full \<Longrightarrow> length b = PREFIX_BLOCK_TOKENS"
    and rest: "\<And>b. b \<in> set rest \<Longrightarrow> length b < PREFIX_BLOCK_TOKENS"
    and ext: "\<And>ys. chunks PREFIX_BLOCK_TOKENS (tokens @ ys)
      = full @ chunks PREFIX_BLOCK_TOKENS (drop (length tokens div PREFIX_BLOCK_TOKENS * PREFIX_BLOCK_TOKENS) tokens @ ys)"
    using chunks_split [OF pos, of tokens] by metis
  have "take (length full) nodes = take (length full) longer"
    using chain_blocks_append [OF nodes [unfolded split]] chain_blocks_append [OF longer [unfolded ext]]
    by simp
  moreover have "length ((full @ rest) ! i) = PREFIX_BLOCK_TOKENS \<longleftrightarrow> i < length full"
    if "i < length (full @ rest)" for i
    using full [of "full ! i"] rest [of "rest ! (i - length full)"] that
    by (auto simp: nth_append)
  ultimately show ?thesis
    using chain_blocks_ok(2,3) [OF nodes] split len by auto
qed

definition sample_crypto :: crypto where
  "sample_crypto = \<lparr>cr_sha256 = (\<lambda>_. replicate 32 1), cr_hmac = (\<lambda>_ _. replicate 32 2),
     cr_hkdf = (\<lambda>_ _ _. Some (replicate 32 3)),
     cr_seal = (\<lambda>_ _ _ m. Some (m @ replicate 16 4)),
     cr_open = (\<lambda>_ _ _ c. if 16 \<le> length c \<and> drop (length c - 16) c = replicate 16 4
       then Some (take (length c - 16) c) else None)\<rparr>"

lemma sample_digests: "digests_32 sample_crypto"
  by (simp add: digests_32_def sample_crypto_def)

lemma family_digest_total: "ok_family f \<Longrightarrow> \<exists>d. family_digest C f = Inr d"
  using family_object.encode_total [of f] by (auto simp: family_digest_def)

lemma chain_prefix_nodes_total:
  assumes "ok_family family" and "length tokens < 2 ^ 63"
  shows "\<exists>nodes. chain_prefix_nodes C key tenant sm family aux tokens = Inr nodes"
proof -
  have pos: "0 < PREFIX_BLOCK_TOKENS" by (simp add: wire_consts)
  obtain full rest where split: "chunks PREFIX_BLOCK_TOKENS tokens = full @ rest"
    and len: "length full = length tokens div PREFIX_BLOCK_TOKENS"
    and ext: "\<And>ys. chunks PREFIX_BLOCK_TOKENS (tokens @ ys)
      = full @ chunks PREFIX_BLOCK_TOKENS (drop (length tokens div PREFIX_BLOCK_TOKENS * PREFIX_BLOCK_TOKENS) tokens @ ys)"
    using chunks_split [OF pos, of tokens] by metis
  have "length (drop (length tokens div PREFIX_BLOCK_TOKENS * PREFIX_BLOCK_TOKENS) tokens) < PREFIX_BLOCK_TOKENS"
    using pos by (simp add: minus_div_mult_eq_mod)
  from chunks_short [OF pos this] ext [of "[]"] split have "length rest \<le> 1"
    by (simp split: if_splits)
  then have "(0 + length (chunks PREFIX_BLOCK_TOKENS tokens)) * PREFIX_BLOCK_TOKENS < 2 ^ 64"
    using split len assms(2) div_times_less_eq_dividend [of "length tokens" PREFIX_BLOCK_TOKENS]
    by (auto simp: wire_consts algebra_simps)
  moreover have "\<forall>b \<in> set (chunks PREFIX_BLOCK_TOKENS tokens). length b \<le> PREFIX_BLOCK_TOKENS"
    using chunks_size [OF pos] by blast
  ultimately have "\<exists>nodes. chain_blocks C key c p 0 (chunks PREFIX_BLOCK_TOKENS tokens) = Inr nodes" for c p
    by (rule chain_blocks_total)
  with family_digest_total [OF assms(1), of C] show ?thesis
    by (auto simp: chain_prefix_nodes_def prefix_context_root_def)
qed

lemma derive_input_cut_total:
  assumes "ok_family family" and "length tokens < 2 ^ 63"
  shows "\<exists>cut' nodes. derive_input_cut C key tenant sm family tokens [] = Inr (cut', nodes)"
proof -
  obtain r where r: "auxiliary_input_root C key tenant [] = Inr r"
    by (simp add: auxiliary_input_root_def auxiliary_frame_def)
  obtain nodes where n: "chain_prefix_nodes C key tenant sm family r tokens = Inr nodes"
    using chain_prefix_nodes_total [OF assms] by blast
  obtain d where "family_digest C family = Inr d" using family_digest_total [OF assms(1)] by blast
  then show ?thesis using r n assms(2) by (auto simp: derive_input_cut_def prefix_context_root_def)
qed

abbreviation sample_semantic :: semantic_model_id where
  "sample_semantic \<equiv> cm_semantic_model (sample_manifest [])"

theorem prefix_nodes_shared_witness:
  "\<exists>nodes longer. chain_prefix_nodes sample_crypto [] [] sample_semantic sample_family [] (replicate 300 7) = Inr nodes
    \<and> chain_prefix_nodes sample_crypto [] [] sample_semantic sample_family [] (replicate 300 7 @ [8]) = Inr longer
    \<and> take 1 longer = take 1 nodes"
proof -
  obtain nodes longer where
    "chain_prefix_nodes sample_crypto [] [] sample_semantic sample_family [] (replicate 300 7) = Inr nodes"
    "chain_prefix_nodes sample_crypto [] [] sample_semantic sample_family [] (replicate 300 7 @ [8]) = Inr longer"
    using chain_prefix_nodes_total [OF sample_family_ok, of "replicate 300 7"]
      chain_prefix_nodes_total [OF sample_family_ok, of "replicate 300 7 @ [8]"] by fastforce
  moreover from prefix_nodes_shared [OF this] have "take 1 longer = take 1 nodes"
    by (simp add: wire_consts)
  ultimately show ?thesis by blast
qed

lemma chunks_length_cong: "length xs = length ys \<Longrightarrow> length (chunks n xs) = length (chunks n ys)"
proof (induction n xs arbitrary: ys rule: chunks.induct)
  case (1 n xs)
  show ?case
  proof (cases "xs = [] \<or> n = 0")
    case True
    with 1(2) show ?thesis by (subst (1 2) chunks.simps) auto
  next
    case False
    with 1(2) have "ys \<noteq> []" by auto
    with False 1 show ?thesis by (simp add: chunks_step [of xs n] chunks_step [of ys n])
  qed
qed

lemma chain_messages_ne [simp]: "chain_messages C key c p i bs = [] \<longleftrightarrow> bs = []"
  by (cases bs) (simp_all add: Let_def)

lemma derive_input_cut_ok:
  assumes "derive_input_cut C key tenant sm family tokens aux = Inr (c, nodes)"
    and "prefix_context_root C key tenant sm family (ic_auxiliary_input_root c) = Inr ctx"
  shows "length tokens < 2 ^ 64" "unat (ic_token_count c) = length tokens"
    "tokens \<noteq> [] \<Longrightarrow> ic_token_root c = cr_hmac C key (last (cut_messages C key ctx tokens))"
proof -
  from assms have len: "length tokens < 2 ^ 64" and count: "ic_token_count c = of_nat (length tokens)"
    and nodes: "chain_blocks C key ctx (hmac C key [label ''kvpack/v1/prefix-root'', ctx]) 0
      (chunks PREFIX_BLOCK_TOKENS tokens) = Inr nodes"
    and root: "nodes \<noteq> [] \<Longrightarrow> ic_token_root c = pn_id (last nodes)"
    by (auto simp: derive_input_cut_def chain_prefix_nodes_def ok_conv split: if_splits)
  then show "length tokens < 2 ^ 64" "unat (ic_token_count c) = length tokens"
    by (simp_all add: unat_of_nat)
  assume "tokens \<noteq> []"
  then have "chunks PREFIX_BLOCK_TOKENS tokens \<noteq> []" by (simp add: chunks_step wire_consts)
  moreover from this have "nodes \<noteq> []" using chain_blocks_ok(2) [OF nodes] by auto
  moreover have "last (map pn_id nodes) = last (map (cr_hmac C key) (cut_messages C key ctx tokens))"
    using chain_blocks_ok(1) [OF nodes] by (simp add: cut_messages_def)
  ultimately show "ic_token_root c = cr_hmac C key (last (cut_messages C key ctx tokens))"
    using root by (simp add: last_map cut_messages_def)
qed

text \<open>Property C32.  An input cut identifies its tokens: two derivations that give the same token root
  and count hashed the same token sequence, or else the two keyed chains contain two different
  messages with the same tag.\<close>

theorem input_cut_binds_tokens:
  assumes "digests_32 C"
    and "derive_input_cut C key tenant sm family tokens aux = Inr (c, nodes)"
    and "derive_input_cut C key tenant' sm' family' tokens' aux' = Inr (c', nodes')"
    and "ic_token_root c = ic_token_root c'" and "ic_token_count c = ic_token_count c'"
    and "prefix_context_root C key tenant sm family (ic_auxiliary_input_root c) = Inr ctx"
    and "prefix_context_root C key tenant' sm' family' (ic_auxiliary_input_root c') = Inr ctx'"
  shows "tokens = tokens' \<or>
    (\<exists>m \<in> set (cut_messages C key ctx tokens). \<exists>m' \<in> set (cut_messages C key ctx' tokens').
       m \<noteq> m' \<and> cr_hmac C key m = cr_hmac C key m')"
proof (cases "tokens = []")
  case True
  then show ?thesis
    using derive_input_cut_ok(2) [OF assms(2,6)] derive_input_cut_ok(2) [OF assms(3,7)] assms(5) by simp
next
  case False
  note d = derive_input_cut_ok [OF assms(2,6)] and d' = derive_input_cut_ok [OF assms(3,7)]
  have pos: "0 < PREFIX_BLOCK_TOKENS" by (simp add: wire_consts)
  have len: "length tokens = length tokens'" using d(2) d'(2) assms(5) by simp
  with False have ne: "tokens' \<noteq> []" by auto
  have dig: "length (hmac C key parts) = 32" for parts using assms(1) by (simp add: digests_32_def hmac_def)
  have ctx: "length ctx = 32" "length ctx' = 32"
    using assms(6,7) dig by (auto simp: prefix_context_root_def rbind_eq_Inr)
  have "\<forall>b \<in> set (chunks PREFIX_BLOCK_TOKENS tokens) \<union> set (chunks PREFIX_BLOCK_TOKENS tokens'). length b < 2 ^ 32"
    using chunks_size [OF pos] by (fastforce simp: wire_consts)
  moreover have "chunks PREFIX_BLOCK_TOKENS tokens \<noteq> []" using False pos by (simp add: chunks_step)
  moreover have "cr_hmac C key (last (cut_messages C key ctx tokens)) = cr_hmac C key (last (cut_messages C key ctx' tokens'))"
    using d(3) [OF False] d'(3) [OF ne] assms(4) by simp
  ultimately have "chunks PREFIX_BLOCK_TOKENS tokens = chunks PREFIX_BLOCK_TOKENS tokens' \<or>
    (\<exists>m \<in> set (cut_messages C key ctx tokens). \<exists>m' \<in> set (cut_messages C key ctx' tokens').
       m \<noteq> m' \<and> cr_hmac C key m = cr_hmac C key m')"
    using chain_binds [OF assms(1) chunks_length_cong [OF len] _ ctx dig dig]
    unfolding cut_messages_def by blast
  then show ?thesis using concat_chunks [OF pos] by metis
qed

theorem input_cut_binds_tokens_witness:
  "\<exists>c nodes ctx. derive_input_cut sample_crypto [] [] sample_semantic sample_family [5, 6] [] = Inr (c, nodes)
     \<and> ([5, 6] = [5, 6 :: u32] \<or>
    (\<exists>m \<in> set (cut_messages sample_crypto [] ctx [5, 6]). \<exists>m' \<in> set (cut_messages sample_crypto [] ctx [5, 6]).
       m \<noteq> m' \<and> cr_hmac sample_crypto [] m = cr_hmac sample_crypto [] m'))"
proof -
  obtain c nodes where c: "derive_input_cut sample_crypto [] [] sample_semantic sample_family [5, 6] [] = Inr (c, nodes)"
    using derive_input_cut_total [OF sample_family_ok, of "[5, 6]"] by fastforce
  obtain ctx where "prefix_context_root sample_crypto [] [] sample_semantic sample_family (ic_auxiliary_input_root c) = Inr ctx"
    using family_digest_total [OF sample_family_ok, of sample_crypto]
    by (auto simp: prefix_context_root_def rbind_eq_Inr)
  from input_cut_binds_tokens [OF sample_digests c c refl refl this this] c show ?thesis by blast
qed

text \<open>A chunk identity binds tenant, family, state, span and plaintext: if two chunks
  have the same identity under one key then they agree in all of these, or the two framed messages
  differ and collide under the keyed hash, or the two canonical families differ and collide under
  the plain hash.\<close>

theorem chunk_id_binds:
  assumes "digests_32 C" and "length t = 32" "length t' = 32" and "ok_family f" "ok_family f'"
    and "chunk_id C key t f k sp p = Inr ident" and "chunk_id C key t' f' k' sp' p' = Inr ident"
    and "family_encode_canonical f = Inr bs" and "family_encode_canonical f' = Inr bs'"
    and "length bs < 2 ^ 64"
    and "d = cr_sha256 C (label ''kvpack/v1/representation-family'' @ bs)"
    and "d' = cr_sha256 C (label ''kvpack/v1/representation-family'' @ bs')"
  shows "t = t' \<and> f = f' \<and> k = k' \<and> sp = sp' \<and> p = p'
    \<or> content_message t d k sp p \<noteq> content_message t' d' k' sp' p'
      \<and> cr_hmac C key (content_message t d k sp p) = cr_hmac C key (content_message t' d' k' sp' p')
    \<or> bs \<noteq> bs' \<and> d = d'"
proof -
  obtain b where b: "family_encode_canonical f = Inr b"
    "ident = cr_hmac C key (content_message t (cr_sha256 C (label ''kvpack/v1/representation-family'' @ b)) k sp p)"
    "length (sk_name k) < 2 ^ 16" "unat (cs_plaintext_bytes sp) = length p"
    using chunk_id_ok [OF assms(6)] by metis
  obtain b' where b': "family_encode_canonical f' = Inr b'"
    "ident = cr_hmac C key (content_message t' (cr_sha256 C (label ''kvpack/v1/representation-family'' @ b')) k' sp' p')"
    "length (sk_name k') < 2 ^ 16" "unat (cs_plaintext_bytes sp') = length p'"
    using chunk_id_ok [OF assms(7)] by metis
  have bb: "b = bs" "b' = bs'" using b(1) b'(1) assms(8,9) by auto
  then have tags: "cr_hmac C key (content_message t d k sp p) = cr_hmac C key (content_message t' d' k' sp' p')"
    using b(2) b'(2) assms(11,12) by simp
  have dig: "length d = 32" "length d' = 32" using assms(1,11,12) by (auto simp: digests_32_def)
  show ?thesis
  proof (cases "content_message t d k sp p = content_message t' d' k' sp' p' \<and> bs = bs'")
    case True
    then have "f = f'" using family_object.encode_inj [OF assms(4,5,8)] assms(9,10) by simp
    with content_message_inj [OF conjunct1 [OF True] assms(2,3) dig b(3) b'(3) b(4) b'(4)]
    show ?thesis by blast
  next
    case False
    with tags show ?thesis
      using content_message_inj [OF _ assms(2,3) dig b(3) b'(3) b(4) b'(4)] by blast
  qed
qed

lemma chunk_id_total:
  assumes "ok_family f" and "length (sk_name k) < 2 ^ 16" and "length p < 2 ^ 32"
    and "cs_token_count sp \<noteq> 0" and "unat (cs_plaintext_bytes sp) = length p"
  shows "\<exists>ident. chunk_id C key t f k sp p = Inr ident"
  using family_digest_total [OF assms(1), of C] assms(2-) by (auto simp: chunk_id_def)

lemma sample_family_bytes:
  "\<exists>bs. family_encode_canonical sample_family = Inr bs \<and> length bs < 2 ^ 64"
  by (simp add: family_encode_canonical_def enc_versioned_def family_encode_body_def enc_family_state_def
      enc_state_key_def enc_seq.simps enc_id_def enc_bytes_def enc_enum_def enc_try_def try_from_usize_def
      enc_string_def enc_dimension_def enc_u8_def enc_u16_def enc_u32_def enc_u64_def enc_new_def sample_defs
      del: One_nat_def)

theorem chunk_id_binds_witness:
  "\<exists>ident bs d. let k = StateKey 0 [107]; sp = rs_chunk_spans (sample_realized [107]) ! 0; p = replicate 8 9 in
     chunk_id sample_crypto [] (sample_id 4) sample_family k sp p = Inr ident
     \<and> family_encode_canonical sample_family = Inr bs
     \<and> (sample_id 4 = sample_id 4 \<and> sample_family = sample_family \<and> k = k \<and> sp = sp \<and> p = p
       \<or> content_message (sample_id 4) d k sp p \<noteq> content_message (sample_id 4) d k sp p
         \<and> cr_hmac sample_crypto [] (content_message (sample_id 4) d k sp p)
           = cr_hmac sample_crypto [] (content_message (sample_id 4) d k sp p)
       \<or> bs \<noteq> bs \<and> d = d)"
proof -
  obtain ident where id: "chunk_id sample_crypto [] (sample_id 4) sample_family (StateKey 0 [107])
       (rs_chunk_spans (sample_realized [107]) ! 0) (replicate 8 9) = Inr ident"
    using chunk_id_total [OF sample_family_ok, of "StateKey 0 [107]" "replicate 8 9"
        "rs_chunk_spans (sample_realized [107]) ! 0" sample_crypto "[]" "sample_id 4"]
    by (auto simp: sample_realized_def)
  obtain bs where bs: "family_encode_canonical sample_family = Inr bs" "length bs < 2 ^ 64"
    using sample_family_bytes by blast
  have len: "length (sample_id 4) = 32" by simp
  from chunk_id_binds [OF sample_digests len len sample_family_ok sample_family_ok id id bs(1) bs(1) bs(2) refl refl]
    id bs show ?thesis unfolding Let_def by blast
qed

end
