(* ===== verification/Cut_Chain.thy ===== *)
theory Cut_Chain
  imports Ids
begin

text \<open>
  The streaming cut chain (\<^verbatim>\<open>CutStridePolicy\<close> and \<^verbatim>\<open>CutChainDeriver\<close> of \<^verbatim>\<open>kvpack-core/src/ids.rs\<close>).
  The deriver buffers token bytes, folds every completed cut into a keyed chain and stops for good
  once 512 cuts are exceeded.  Its loop is a partial function, so returning is something to prove.
  The specification is the chain computed from the whole token sequence at closed-form
  boundaries; the deriver refines it however the tokens are sliced into calls.
\<close>

datatype cut_stride_policy =
    Flat u32
  | TwoTier (head_tokens: u32) (head_stride: u32) (tail_stride: u32)

fun policy_validate :: "cut_stride_policy \<Rightarrow> unit result" where
  "policy_validate (Flat stride) =
     (if stride = 0 then Inl (Semantics ''cut stride is zero'') else Inr ())"
| "policy_validate (TwoTier head hs ts) =
     (if hs = 0 then Inl (Semantics ''cut head stride is zero'')
      else if ts = 0 then Inl (Semantics ''cut tail stride is zero'')
      else if head mod hs \<noteq> 0
      then Inl (Semantics ''cut head region is not a multiple of the head stride'')
      else if head mod ts \<noteq> 0
      then Inl (Semantics ''cut head region is not a multiple of the tail stride'')
      else Inr ())"

fun stride_at :: "cut_stride_policy \<Rightarrow> u64 \<Rightarrow> u32" where
  "stride_at (Flat stride) token_offset = stride"
| "stride_at (TwoTier head hs ts) token_offset =
     (if token_offset < ucast head then hs else ts)"

record cut_chain_deriver =
  cd_key :: bytes
  cd_tip :: id32
  cd_pending :: bytes
  cd_pending_front :: nat
  cd_consumed_tokens :: u64
  cd_cuts :: nat
  cd_policy :: cut_stride_policy
  cd_poisoned :: bool

definition deriver_new ::
  "crypto \<Rightarrow> bytes \<Rightarrow> id32 \<Rightarrow> cut_stride_policy \<Rightarrow> cut_chain_deriver result" where
  "deriver_new C store_key namespace policy =
     rbind (policy_validate policy) (\<lambda>_.
     Inr \<lparr>cd_key = store_key, cd_tip = hmac C store_key [label ''kvpack/v1/cut-chain'', namespace],
          cd_pending = [], cd_pending_front = 0, cd_consumed_tokens = 0, cd_cuts = 0,
          cd_policy = policy, cd_poisoned = False\<rparr>)"

partial_function (option) cut_loop ::
  "crypto \<Rightarrow> cut_chain_deriver \<Rightarrow> id32 list \<Rightarrow> (cut_chain_deriver \<times> id32 list result) option" where
  "cut_loop C d emitted =
     (let stride = stride_at (cd_policy d) (cd_consumed_tokens d);
          stride_bytes = unat stride * 4 in
      if length (cd_pending d) - cd_pending_front d < stride_bytes then Some (d, Inr emitted)
      else if cd_cuts d = MAX_CUT_CHAIN_CUTS
      then Some (d\<lparr>cd_poisoned := True\<rparr>, Inl (Bounds ''cut chain exceeds 512 cuts''))
      else let tip = hmac C (cd_key d) [label ''kvpack/v1/cut-chain'', cd_tip d,
                 subslice (cd_pending d) (cd_pending_front d) (cd_pending_front d + stride_bytes)] in
      cut_loop C
        (d\<lparr>cd_tip := tip,
           cd_pending_front := cd_pending_front d + stride_bytes,
           cd_consumed_tokens := cd_consumed_tokens d + ucast stride,
           cd_cuts := cd_cuts d + 1\<rparr>) (emitted @ [tip]))"

definition push_tokens ::
  "crypto \<Rightarrow> cut_chain_deriver \<Rightarrow> u32 list \<Rightarrow> (cut_chain_deriver \<times> id32 list result) option" where
  "push_tokens C d tokens =
     (if cd_poisoned d then Some (d, Inl (Poisoned ''cut chain deriver is poisoned''))
      else case cut_loop C (d\<lparr>cd_pending := cd_pending d @ token_bytes tokens\<rparr>) [] of
        None \<Rightarrow> None
      | Some (d', Inl e) \<Rightarrow> Some (d', Inl e)
      | Some (d', Inr emitted) \<Rightarrow>
          Some (d'\<lparr>cd_pending :=
                 (if cd_pending_front d' = length (cd_pending d') then []
                  else if cd_pending_front d' > 0 then drop (cd_pending_front d') (cd_pending d')
                  else cd_pending d'),
               cd_pending_front := 0\<rparr>, Inr emitted))"

section \<open>Specification\<close>

text \<open>The end of the \<open>n\<close>-th cut, and the number of cuts that end within \<open>len\<close> tokens.\<close>

fun boundary :: "cut_stride_policy \<Rightarrow> nat \<Rightarrow> nat" where
  "boundary (Flat s) n = n * unat s"
| "boundary (TwoTier head hs ts) n =
     (let k = unat head div unat hs in
      if n \<le> k then n * unat hs else unat head + (n - k) * unat ts)"

fun cuts_within :: "cut_stride_policy \<Rightarrow> nat \<Rightarrow> nat" where
  "cuts_within (Flat s) len = len div unat s"
| "cuts_within (TwoTier head hs ts) len =
     (if len < unat head then len div unat hs
      else unat head div unat hs + (len - unat head) div unat ts)"

primrec cut_tip :: "crypto \<Rightarrow> bytes \<Rightarrow> id32 \<Rightarrow> cut_stride_policy \<Rightarrow> u32 list \<Rightarrow> nat \<Rightarrow> id32" where
  "cut_tip C key ns pol tokens 0 = hmac C key [label ''kvpack/v1/cut-chain'', ns]"
| "cut_tip C key ns pol tokens (Suc n) = hmac C key [label ''kvpack/v1/cut-chain'',
     cut_tip C key ns pol tokens n,
     token_bytes (subslice tokens (boundary pol n) (boundary pol (Suc n)))]"

text \<open>Successive calls with the given slices, stopping at the first error.\<close>

fun push_all :: "crypto \<Rightarrow> cut_chain_deriver \<Rightarrow> u32 list list
    \<Rightarrow> (cut_chain_deriver \<times> id32 list result) option" where
  "push_all C d [] = Some (d, Inr [])"
| "push_all C d (ts # tss) =
     (case push_tokens C d ts of
        None \<Rightarrow> None
      | Some (d', Inl e) \<Rightarrow> Some (d', Inl e)
      | Some (d', Inr ids) \<Rightarrow>
          (case push_all C d' tss of
             None \<Rightarrow> None
           | Some (d'', Inl e) \<Rightarrow> Some (d'', Inl e)
           | Some (d'', Inr ids') \<Rightarrow> Some (d'', Inr (ids @ ids'))))"

section \<open>Boundaries\<close>

lemma policy_validate_ok:
  "policy_validate pol = Inr u \<longleftrightarrow> (case pol of
      Flat s \<Rightarrow> s \<noteq> 0
    | TwoTier head hs ts \<Rightarrow> hs \<noteq> 0 \<and> ts \<noteq> 0 \<and> unat hs dvd unat head \<and> unat ts dvd unat head)"
  by (cases pol) (auto simp: word_unat_eq_iff [where 'a = 32] unat_mod dvd_eq_mod_eq_0)

declare policy_validate.simps [simp del]

lemma boundary_0 [simp]: "boundary pol 0 = 0"
  by (cases pol) (auto simp: Let_def)

lemma boundary_cuts_within:
  assumes "policy_validate pol = Inr u"
  shows "boundary pol n \<le> len \<longleftrightarrow> n \<le> cuts_within pol len"
proof (cases pol)
  case (Flat s)
  with assms have "0 < unat s" by (auto simp: policy_validate_ok unat_gt_0)
  with Flat show ?thesis by (simp add: less_eq_div_iff_mult_less_eq)
next
  case (TwoTier head hs ts)
  with assms have ok: "0 < unat hs" "0 < unat ts" "unat hs dvd unat head"
    by (auto simp: policy_validate_ok unat_gt_0)
  define k where "k = unat head div unat hs"
  then have head: "unat head = k * unat hs" using ok(3) by simp
  have bd: "boundary pol n = (if n \<le> k then n * unat hs else k * unat hs + (n - k) * unat ts)"
    using TwoTier head by (simp add: Let_def k_def)
  have cw: "cuts_within pol len = (if len < k * unat hs then len div unat hs
      else k + (len - k * unat hs) div unat ts)"
    using TwoTier head by (simp add: k_def)
  show ?thesis
  proof (cases "len < k * unat hs")
    case True
    have "\<not> n \<le> k \<Longrightarrow> \<not> n \<le> len div unat hs"
      using True ok(1) by (simp add: div_less_iff_less_mult not_le less_trans [of _ k])
    with True show ?thesis
      using ok(1) by (auto simp: bd cw less_eq_div_iff_mult_less_eq)
  next
    case False
    have "n \<le> k \<Longrightarrow> n * unat hs \<le> len" using False mult_le_mono1 [of n k "unat hs"] by linarith
    moreover have "k * unat hs + (n - k) * unat ts \<le> len \<longleftrightarrow> n - k \<le> (len - k * unat hs) div unat ts"
      using False ok(2) by (auto simp: less_eq_div_iff_mult_less_eq)
    ultimately show ?thesis using False by (auto simp: bd cw)
  qed
qed

lemma boundary_Suc:
  assumes "policy_validate pol = Inr u" and "boundary pol n < 2 ^ 64"
  shows "boundary pol (Suc n) = boundary pol n + unat (stride_at pol (of_nat (boundary pol n)))"
    "0 < stride_at pol (of_nat (boundary pol n))"
proof -
  have "boundary pol (Suc n) = boundary pol n + unat (stride_at pol (of_nat (boundary pol n)))
     \<and> 0 < stride_at pol (of_nat (boundary pol n))"
  proof (cases pol)
    case (Flat s)
    with assms show ?thesis by (auto simp: policy_validate_ok word_gt_0)
  next
    case (TwoTier head hs ts)
    with assms have ok: "0 < unat hs" "0 < hs" "0 < ts" "unat hs dvd unat head"
      by (auto simp: policy_validate_ok unat_gt_0 word_gt_0)
    define k where "k = unat head div unat hs"
    then have head: "unat head = k * unat hs" using ok(4) by simp
    have bd: "boundary pol n = (if n \<le> k then n * unat hs else unat head + (n - k) * unat ts)" for n
      using TwoTier by (simp add: Let_def k_def)
    have "of_nat (boundary pol n) < (ucast head :: u64) \<longleftrightarrow> n < k"
      using assms(2) ok(1) by (auto simp: word_less_nat_alt unat_of_nat bd head)
    with TwoTier ok have st: "stride_at pol (of_nat (boundary pol n)) = (if n < k then hs else ts)" by simp
    show ?thesis
    proof (cases "n < k")
      case True
      with ok show ?thesis unfolding st by (simp add: bd)
    next
      case False
      then have "Suc n - k = Suc (n - k)" by simp
      with False ok head show ?thesis unfolding st by (auto simp: bd not_less)
    qed
  qed
  then show "boundary pol (Suc n) = boundary pol n + unat (stride_at pol (of_nat (boundary pol n)))"
    "0 < stride_at pol (of_nat (boundary pol n))" by auto
qed

lemma boundary_bound:
  assumes "policy_validate pol = Inr u" and "n \<le> MAX_CUT_CHAIN_CUTS + 1"
  shows "boundary pol n < 2 ^ 64"
proof -
  have "boundary pol n \<le> n * 2 ^ 32" using assms(2)
  proof (induction n)
    case (Suc n)
    then have "boundary pol n \<le> n * 2 ^ 32" by simp
    moreover from this Suc(2) have "boundary pol n < 2 ^ 64" by (simp add: wire_consts)
    moreover have "unat (stride_at pol (of_nat (boundary pol n))) < 2 ^ 32" using unat_bound [where 'a = 32] by simp
    ultimately show ?case using boundary_Suc(1) [OF assms(1), of n] by simp
  qed simp
  with assms(2) show ?thesis by (simp add: wire_consts)
qed

declare boundary.simps [simp del] cuts_within.simps [simp del]

lemma boundary_mono:
  assumes "policy_validate pol = Inr u" and "m \<le> n"
  shows "boundary pol m \<le> boundary pol n"
  using boundary_cuts_within [OF assms(1)] assms(2) le_trans by blast

section \<open>Tracking the chain\<close>

definition tracks :: "crypto \<Rightarrow> bytes \<Rightarrow> id32 \<Rightarrow> cut_stride_policy \<Rightarrow> u32 list \<Rightarrow> nat \<Rightarrow> cut_chain_deriver \<Rightarrow> bool" where
  "tracks C key ns pol ts n d \<longleftrightarrow> cd_key d = key \<and> cd_policy d = pol \<and> \<not> cd_poisoned d
     \<and> cd_cuts d = n \<and> n \<le> MAX_CUT_CHAIN_CUTS \<and> cd_tip d = cut_tip C key ns pol ts n
     \<and> cd_consumed_tokens d = of_nat (boundary pol n) \<and> boundary pol n \<le> length ts
     \<and> cd_pending_front d \<le> length (cd_pending d)
     \<and> drop (cd_pending_front d) (cd_pending d) = token_bytes (drop (boundary pol n) ts)"

lemma take_token_bytes: "take (4 * n) (token_bytes ts) = token_bytes (take n ts)"
proof (induction n arbitrary: ts)
  case (Suc n)
  then show ?case by (cases ts) auto
qed (simp add: token_bytes_def)

lemma drop_token_bytes: "drop (4 * n) (token_bytes ts) = token_bytes (drop n ts)"
proof (induction n arbitrary: ts)
  case (Suc n)
  then show ?case by (cases ts) auto
qed simp

lemma cut_tip_append:
  assumes "policy_validate pol = Inr u" and "boundary pol n \<le> length ts"
  shows "cut_tip C key ns pol (ts @ us) n = cut_tip C key ns pol ts n"
  using assms(2)
proof (induction n)
  case (Suc n)
  then have "boundary pol n \<le> length ts" using boundary_mono [OF assms(1), of n "Suc n"] by simp
  with Suc show ?case by (simp add: subslice_def)
qed simp

text \<open>One round of the loop: the state after it tracks the next cut.\<close>

lemma cut_loop_round:
  assumes "policy_validate pol = Inr u" and "tracks C key ns pol ts n d"
  shows "n = cuts_within pol (length ts) \<Longrightarrow> cut_loop C d em = Some (d, Inr em)"
    "n < cuts_within pol (length ts) \<Longrightarrow> n = MAX_CUT_CHAIN_CUTS \<Longrightarrow>
       cut_loop C d em = Some (d\<lparr>cd_poisoned := True\<rparr>, Inl (Bounds ''cut chain exceeds 512 cuts''))"
    "n < cuts_within pol (length ts) \<Longrightarrow> n < MAX_CUT_CHAIN_CUTS \<Longrightarrow>
       \<exists>d'. tracks C key ns pol ts (Suc n) d'
         \<and> cut_loop C d em = cut_loop C d' (em @ [cut_tip C key ns pol ts (Suc n)])"
proof -
  let ?stride = "stride_at pol (of_nat (boundary pol n))"
  note t = assms(2) [unfolded tracks_def]
  have bound: "boundary pol n < 2 ^ 64" using boundary_bound [OF assms(1)] t by simp
  note next' = boundary_Suc [OF assms(1) bound]
  have tail: "cd_pending_front d \<le> length (cd_pending d) \<and>
      drop (cd_pending_front d) (cd_pending d) = token_bytes (drop (boundary pol n) ts)" using t by blast
  have avail: "length (cd_pending d) - cd_pending_front d = 4 * (length ts - boundary pol n)"
    using arg_cong [of _ _ length, OF conjunct2 [OF tail]] by simp
  have more: "\<not> length (cd_pending d) - cd_pending_front d < unat ?stride * 4
      \<longleftrightarrow> n < cuts_within pol (length ts)"
    using boundary_cuts_within [OF assms(1), of "Suc n" "length ts"] t next'(1)
    by (auto simp: avail Suc_le_eq)
  show "cut_loop C d em = Some (d, Inr em)" if "n = cuts_within pol (length ts)"
    using more t that by (subst cut_loop.simps) (simp add: Let_def)
  show "cut_loop C d em = Some (d\<lparr>cd_poisoned := True\<rparr>, Inl (Bounds ''cut chain exceeds 512 cuts''))"
    if "n < cuts_within pol (length ts)" "n = MAX_CUT_CHAIN_CUTS"
    using more t that by (subst cut_loop.simps) (simp add: Let_def)
  assume less: "n < cuts_within pol (length ts)" "n < MAX_CUT_CHAIN_CUTS"
  then have fits: "boundary pol (Suc n) \<le> length ts"
    using boundary_cuts_within [OF assms(1)] by simp
  have bytes: "subslice (cd_pending d) (cd_pending_front d) (cd_pending_front d + unat ?stride * 4)
      = token_bytes (subslice ts (boundary pol n) (boundary pol (Suc n)))"
    using t next'(1) take_token_bytes [of "unat ?stride" "drop (boundary pol n) ts"]
    by (simp add: subslice_def mult.commute)
  have rest: "drop (cd_pending_front d + unat ?stride * 4) (cd_pending d)
      = token_bytes (drop (boundary pol (Suc n)) ts)"
    using arg_cong [of _ _ "drop (4 * unat ?stride)", OF conjunct2 [OF tail]] next'(1)
    by (simp add: drop_token_bytes ac_simps)
  let ?tip = "cut_tip C key ns pol ts (Suc n)"
  let ?d = "d\<lparr>cd_tip := ?tip, cd_pending_front := cd_pending_front d + unat ?stride * 4,
    cd_consumed_tokens := cd_consumed_tokens d + ucast ?stride, cd_cuts := cd_cuts d + 1\<rparr>"
  have "cut_loop C d em = cut_loop C ?d (em @ [?tip])"
    using more t less bytes by (subst cut_loop.simps) (simp add: Let_def)
  moreover have "tracks C key ns pol ts (Suc n) ?d"
    using t less fits rest next'(1) more unfolding tracks_def
    by (auto simp: not_less)
  ultimately show "\<exists>d'. tracks C key ns pol ts (Suc n) d'
         \<and> cut_loop C d em = cut_loop C d' (em @ [cut_tip C key ns pol ts (Suc n)])" by blast
qed

lemma cut_loop_tracks:
  assumes "policy_validate pol = Inr u" and "tracks C key ns pol ts n d"
  shows "if cuts_within pol (length ts) \<le> MAX_CUT_CHAIN_CUTS
    then \<exists>d'. cut_loop C d em = Some (d', Inr (em @ map (cut_tip C key ns pol ts \<circ> Suc) [n..<cuts_within pol (length ts)]))
           \<and> tracks C key ns pol ts (cuts_within pol (length ts)) d'
    else \<exists>d'. cut_loop C d em = Some (d', Inl (Bounds ''cut chain exceeds 512 cuts'')) \<and> cd_poisoned d'"
    (is "?P n d em")
  using assms(2)
proof (induction "MAX_CUT_CHAIN_CUTS - n" arbitrary: n d em)
  case 0
  then have n: "n = MAX_CUT_CHAIN_CUTS" by (simp add: tracks_def)
  have "n \<le> cuts_within pol (length ts)"
    using 0 boundary_cuts_within [OF assms(1)] by (auto simp: tracks_def)
  with n cut_loop_round(1,2) [OF assms(1) 0(2), of em] 0(2) show ?case
    by (cases "n = cuts_within pol (length ts)") auto
next
  case (Suc k)
  have le: "n \<le> cuts_within pol (length ts)"
    using Suc(3) boundary_cuts_within [OF assms(1)] by (auto simp: tracks_def)
  have lt: "n < MAX_CUT_CHAIN_CUTS" using Suc(2) by simp
  show ?case
  proof (cases "n = cuts_within pol (length ts)")
    case True
    with cut_loop_round(1) [OF assms(1) Suc(3), of em] Suc(3) lt show ?thesis by auto
  next
    case False
    with le have less: "n < cuts_within pol (length ts)" by simp
    obtain d' where d': "tracks C key ns pol ts (Suc n) d'"
      "cut_loop C d em = cut_loop C d' (em @ [cut_tip C key ns pol ts (Suc n)])"
      using cut_loop_round(3) [OF assms(1) Suc(3) less lt] by blast
    have "?P (Suc n) d' (em @ [cut_tip C key ns pol ts (Suc n)])"
      by (rule Suc(1)) (use Suc(2) d'(1) in simp_all)
    then show ?thesis using d'(2) less by (auto simp: upt_conv_Cons)
  qed
qed

text \<open>A deriver between two calls: it tracks the chain of all tokens pushed so far, with every
  complete cut already emitted.\<close>

definition settled :: "crypto \<Rightarrow> bytes \<Rightarrow> id32 \<Rightarrow> cut_stride_policy \<Rightarrow> u32 list \<Rightarrow> cut_chain_deriver \<Rightarrow> bool" where
  "settled C key ns pol ts d \<longleftrightarrow>
     tracks C key ns pol ts (cuts_within pol (length ts)) d \<and> cd_pending_front d = 0"

lemma push_tokens_settled:
  assumes "policy_validate pol = Inr u" and "settled C key ns pol ts d"
  shows "if cuts_within pol (length (ts @ us)) \<le> MAX_CUT_CHAIN_CUTS
    then \<exists>d'. push_tokens C d us = Some (d', Inr (map (cut_tip C key ns pol (ts @ us) \<circ> Suc)
             [cuts_within pol (length ts)..<cuts_within pol (length (ts @ us))]))
           \<and> settled C key ns pol (ts @ us) d'
    else \<exists>d'. push_tokens C d us = Some (d', Inl (Bounds ''cut chain exceeds 512 cuts'')) \<and> cd_poisoned d'"
proof -
  let ?d = "d\<lparr>cd_pending := cd_pending d @ token_bytes us\<rparr>"
  have "tracks C key ns pol (ts @ us) (cuts_within pol (length ts)) ?d"
    using assms(2) cut_tip_append [OF assms(1)] by (auto simp: settled_def tracks_def)
  note run = cut_loop_tracks [OF assms(1) this, of "[]"]
  have np: "\<not> cd_poisoned d" using assms(2) by (simp add: settled_def tracks_def)
  have compact: "settled C key ns pol (ts @ us) (d'\<lparr>cd_pending :=
                 (if cd_pending_front d' = length (cd_pending d') then []
                  else if cd_pending_front d' > 0 then drop (cd_pending_front d') (cd_pending d')
                  else cd_pending d'), cd_pending_front := 0\<rparr>)"
    if "tracks C key ns pol (ts @ us) (cuts_within pol (length (ts @ us))) d'" for d'
    using that by (auto simp: settled_def tracks_def)
  show ?thesis
    using run compact np by (auto simp: push_tokens_def split: if_splits)
qed

lemma push_all_settled:
  assumes "policy_validate pol = Inr u" and "settled C key ns pol ts d"
    and "cuts_within pol (length ts) \<le> MAX_CUT_CHAIN_CUTS"
  shows "if cuts_within pol (length (ts @ concat tss)) \<le> MAX_CUT_CHAIN_CUTS
    then \<exists>d'. push_all C d tss = Some (d', Inr (map (cut_tip C key ns pol (ts @ concat tss) \<circ> Suc)
             [cuts_within pol (length ts)..<cuts_within pol (length (ts @ concat tss))]))
           \<and> settled C key ns pol (ts @ concat tss) d'
    else \<exists>d'. push_all C d tss = Some (d', Inl (Bounds ''cut chain exceeds 512 cuts'')) \<and> cd_poisoned d'"
  using assms(2,3)
proof (induction tss arbitrary: ts d)
  case Nil
  then show ?case by simp
next
  case (Cons us tss)
  let ?k = "\<lambda>xs. cuts_within pol (length xs)"
  have mono: "?k xs \<le> ?k (xs @ ys)" for xs ys :: "u32 list"
    using boundary_cuts_within [OF assms(1), of "?k xs" "length xs"]
      boundary_cuts_within [OF assms(1), of "?k xs" "length (xs @ ys)"] by simp
  note step = push_tokens_settled [OF assms(1) Cons(2), of us]
  show ?case
  proof (cases "?k (ts @ us) \<le> MAX_CUT_CHAIN_CUTS")
    case False
    then have "\<not> ?k (ts @ us @ concat tss) \<le> MAX_CUT_CHAIN_CUTS"
      using mono [of "ts @ us" "concat tss"] by simp
    with False step show ?thesis by auto
  next
    case True
    then obtain d' where d': "settled C key ns pol (ts @ us) d'"
      "push_tokens C d us = Some (d', Inr (map (cut_tip C key ns pol (ts @ us) \<circ> Suc) [?k ts..<?k (ts @ us)]))"
      using step by auto
    have same: "map (cut_tip C key ns pol (ts @ us) \<circ> Suc) [?k ts..<?k (ts @ us)]
        = map (cut_tip C key ns pol (ts @ us @ concat tss) \<circ> Suc) [?k ts..<?k (ts @ us)]"
    proof (rule map_cong [OF refl])
      fix i assume "i \<in> set [?k ts..<?k (ts @ us)]"
      then have "boundary pol (Suc i) \<le> length (ts @ us)"
        using boundary_cuts_within [OF assms(1), of "Suc i" "length (ts @ us)"] by simp
      then show "(cut_tip C key ns pol (ts @ us) \<circ> Suc) i = (cut_tip C key ns pol (ts @ us @ concat tss) \<circ> Suc) i"
        using cut_tip_append [OF assms(1), of "Suc i" "ts @ us"] by simp
    qed
    have "[?k ts..<?k (ts @ us @ concat tss)] = [?k ts..<?k (ts @ us)] @ [?k (ts @ us)..<?k (ts @ us @ concat tss)]"
      using mono [of ts us] mono [of "ts @ us" "concat tss"] upt_add_eq_append [of "?k ts" "?k (ts @ us)"
        "?k (ts @ us @ concat tss) - ?k (ts @ us)"] by simp
    with Cons.IH [OF d'(1) True] d'(2) same show ?thesis by (auto split: if_splits)
  qed
qed

section \<open>What the deriver promises\<close>

lemma deriver_new_settled:
  assumes "deriver_new C key ns pol = Inr d"
  shows "policy_validate pol = Inr ()" "settled C key ns pol [] d"
proof -
  show ok: "policy_validate pol = Inr ()" using assms by (auto simp: deriver_new_def ok_iff)
  have "cuts_within pol 0 = 0" by (cases pol) (simp_all add: cuts_within.simps)
  with assms ok show "settled C key ns pol [] d"
    by (auto simp: deriver_new_def settled_def tracks_def ok_iff token_bytes_def)
qed

text \<open>Property C6.  The streaming deriver computes the specified chain: from a fresh deriver, pushing
  any sequence of token slices returns; it succeeds exactly when the tokens contain at most 512
  complete cuts, and then the identities emitted over all calls are the chain values at the
  boundaries of the concatenated tokens, whatever the slicing.\<close>

theorem cut_chain_refines:
  assumes "deriver_new C key ns pol = Inr d"
  shows "\<exists>d'. push_all C d tss = Some (d',
    if cuts_within pol (length (concat tss)) \<le> MAX_CUT_CHAIN_CUTS
    then Inr (map (\<lambda>i. cut_tip C key ns pol (concat tss) (Suc i)) [0..<cuts_within pol (length (concat tss))])
    else Inl (Bounds ''cut chain exceeds 512 cuts''))"
proof -
  note new = deriver_new_settled [OF assms]
  have "cuts_within pol (length ([] :: u32 list)) = 0" by (cases pol) (simp_all add: cuts_within.simps)
  with push_all_settled [OF new(1) new(2), of tss] show ?thesis by (auto simp: comp_def split: if_splits)
qed

theorem cut_chain_refines_witness:
  "\<exists>d d'. deriver_new sample_crypto [] (sample_id 4) (TwoTier 4 2 4) = Inr d
     \<and> push_all sample_crypto d [[1, 2, 3], [4, 5, 6, 7, 8, 9]] = Some (d', Inr
       (map (\<lambda>i. cut_tip sample_crypto [] (sample_id 4) (TwoTier 4 2 4) [1, 2, 3, 4, 5, 6, 7, 8, 9] (Suc i)) [0..<3]))"
proof -
  obtain d where d: "deriver_new sample_crypto [] (sample_id 4) (TwoTier 4 2 4) = Inr d"
    by (simp add: deriver_new_def policy_validate.simps word_unat_eq_iff unat_mod)
  have tokens: "concat [[1, 2, 3], [4, 5, 6, 7, 8, 9]] = [1, 2, 3, 4, 5, 6, 7, 8, 9 :: u32]"
    "length [1, 2, 3, 4, 5, 6, 7, 8, 9 :: u32] = 9" by simp_all
  have cuts: "cuts_within (TwoTier 4 2 4) 9 = 3" "(3 \<le> MAX_CUT_CHAIN_CUTS) = True"
    by (simp_all add: cuts_within.simps wire_consts)
  from cut_chain_refines [OF d, of "[[1, 2, 3], [4, 5, 6, 7, 8, 9]]", unfolded tokens cuts if_True] d
  show ?thesis by blast
qed

text \<open>A deriver that has refused once refuses for ever and changes no more: after an
  error from any sequence of calls on a fresh deriver, every later call leaves the state as it is
  and reports that the deriver is poisoned.\<close>

theorem cut_chain_poisoned:
  assumes "deriver_new C key ns pol = Inr d" and "push_all C d tss = Some (d', Inl err)"
  shows "push_tokens C d' more_tokens = Some (d', Inl (Poisoned ''cut chain deriver is poisoned''))"
proof -
  note new = deriver_new_settled [OF assms(1)]
  have "cuts_within pol (length ([] :: u32 list)) = 0" by (cases pol) (simp_all add: cuts_within.simps)
  with push_all_settled [OF new(1) new(2), of tss] assms(2) have "cd_poisoned d'"
    by (auto split: if_splits)
  then show ?thesis by (simp add: push_tokens_def)
qed

theorem cut_chain_poisoned_witness:
  "\<exists>d d' err. deriver_new sample_crypto [] (sample_id 4) (Flat 1) = Inr d
     \<and> push_all sample_crypto d [replicate 600 7] = Some (d', Inl err)
     \<and> push_tokens sample_crypto d' [8] = Some (d', Inl (Poisoned ''cut chain deriver is poisoned''))"
proof -
  obtain d where d: "deriver_new sample_crypto [] (sample_id 4) (Flat 1) = Inr d"
    by (simp add: deriver_new_def policy_validate.simps)
  have "cuts_within (Flat 1) 600 = 600" by (simp add: cuts_within.simps)
  then obtain d' err where "push_all sample_crypto d [replicate 600 7] = Some (d', Inl err)"
    using cut_chain_refines [OF d, of "[replicate 600 7]"] by (auto simp: wire_consts)
  with cut_chain_poisoned [OF d this] d show ?thesis by blast
qed

text \<open>Under a validated two-tier policy no cut straddles the transition: the end of the head region
  is itself a cut boundary, and every cut lies on one side of it.\<close>

lemma no_straddling_cut:
  assumes "policy_validate (TwoTier head hs ts) = Inr ()"
  shows "boundary (TwoTier head hs ts) (unat head div unat hs) = unat head"
    and "boundary (TwoTier head hs ts) (Suc n) \<le> unat head \<or> unat head \<le> boundary (TwoTier head hs ts) n"
proof -
  show eq: "boundary (TwoTier head hs ts) (unat head div unat hs) = unat head"
    using assms by (simp add: policy_validate_ok boundary.simps)
  have "boundary (TwoTier head hs ts) (Suc n) \<le> boundary (TwoTier head hs ts) (unat head div unat hs)
     \<or> boundary (TwoTier head hs ts) (unat head div unat hs) \<le> boundary (TwoTier head hs ts) n"
    using boundary_mono [OF assms] by (cases "Suc n \<le> unat head div unat hs") auto
  then show "boundary (TwoTier head hs ts) (Suc n) \<le> unat head \<or> unat head \<le> boundary (TwoTier head hs ts) n"
    unfolding eq .
qed

end
