(* ===== verification/Validator.thy ===== *)
theory Validator
  imports Samples
begin

text \<open>
  The semantic validator of \<^verbatim>\<open>kvpack-core/src/validator.rs\<close>.  \<open>validate_family\<close> checks the static
  representation family, with the depth-first cycle check of \<open>validate_dependencies\<close>;
  \<open>validate_manifest\<close> checks one manifest against its family.  The long function of the source
  is cut into the definitions below along its own comments and loop bodies: identity, cut range,
  atomic groups, and for each state its range, strides, byte sizes and chunk partition.
\<close>

record manifest_bounds =
  mb_max_states :: nat
  mb_max_chunks_per_state :: nat
  mb_max_restored_bytes :: u64

definition default_bounds :: manifest_bounds where
  "default_bounds = \<lparr>mb_max_states = MAX_STATES, mb_max_chunks_per_state = MAX_CHUNKS_PER_STATE,
     mb_max_restored_bytes = 4 * 1024 * 1024 * 1024 * 1024\<rparr>"

definition checked_product :: "u64 list \<Rightarrow> string \<Rightarrow> u64 result" where
  "checked_product values msg =
     try_fold (\<lambda>product value. ok_or (checked_mul product value) (Bounds msg)) 1 values"

section \<open>The dependency graph\<close>

type_synonym dep_graph = "(state_key \<times> state_key list) list"

text \<open>A \<^verbatim>\<open>BTreeMap\<close> collected from an iterator: ascending keys, the last value of a key wins.\<close>

definition dep_graph :: "family_state list \<Rightarrow> dep_graph" where
  "dep_graph states =
     (let entries = map (\<lambda>s. (fs_key s, fs_dependencies s)) states
      in map (\<lambda>k. (k, the (map_of (rev entries) k))) (sort (remdups (map fst entries))))"

fun check_dependency_order ::
  "state_key \<Rightarrow> state_key set \<Rightarrow> state_key option \<Rightarrow> state_key list \<Rightarrow> unit result" where
  "check_dependency_order key keys previous [] = Inr ()"
| "check_dependency_order key keys previous (dependency # rest) =
     (if dependency = key then Inl (Graph ''state depends on itself'')
      else if dependency \<notin> keys then Inl (Graph ''state dependency is missing'')
      else if (case previous of None \<Rightarrow> False | Some v \<Rightarrow> dependency \<le> v)
      then Inl (Graph ''state dependencies are not unique canonical order'')
      else check_dependency_order key keys (Some dependency) rest)"

function (sequential)
  visit :: "dep_graph \<Rightarrow> state_key \<Rightarrow> state_key set \<times> state_key set
    \<Rightarrow> (state_key set \<times> state_key set) result"
and visit_all :: "dep_graph \<Rightarrow> state_key list \<Rightarrow> state_key set \<times> state_key set
    \<Rightarrow> (state_key set \<times> state_key set) result" where
  "visit graph key (visiting, done) =
     (if key \<in> done then Inr (visiting, done)
      else if key \<in> visiting then Inl (Graph ''state dependency cycle'')
      else rbind (case map_of graph key of
            None \<Rightarrow> Inr (insert key visiting, done)
          | Some dependencies \<Rightarrow> visit_all graph dependencies (insert key visiting, done))
        (\<lambda>(visiting', done'). Inr (visiting' - {key}, insert key done')))"
| "visit_all graph [] state = Inr state"
| "visit_all graph (dependency # rest) state =
     rbind (visit graph dependency state) (visit_all graph rest)"
  by pat_completeness auto

lemma visit_restores:
  "visit_visit_all_dom (Inl (graph, key, state)) \<Longrightarrow>
     (\<forall>r. visit graph key state = Inr r \<longrightarrow> fst r = fst state)"
  "visit_visit_all_dom (Inr (graph, keys, state)) \<Longrightarrow>
     (\<forall>r. visit_all graph keys state = Inr r \<longrightarrow> fst r = fst state)"
proof (induction graph key state and graph keys state rule: visit_visit_all.pinduct)
  case (1 graph key visiting "done")
  then show ?case
    by (fastforce simp: visit.psimps rbind_eq_Inr split: if_splits option.splits)
next
  case (2 graph state)
  then show ?case by (simp add: visit_all.psimps)
next
  case (3 graph dependency rest state)
  then show ?case by (auto simp: visit_all.psimps rbind_eq_Inr)
qed

termination visit
proof (relation "inv_image (less_than <*lex*> less_than) (\<lambda>x. case x of
      Inl (graph, key, visiting, _) \<Rightarrow> (card (fst ` set graph - visiting), 0)
    | Inr (graph, keys, visiting, _) \<Rightarrow> (card (fst ` set graph - visiting), Suc (length keys)))")
  show "wf (inv_image (less_than <*lex*> less_than) (\<lambda>x. case x of
      Inl (graph, key, visiting, _) \<Rightarrow> (card (fst ` set graph - visiting), 0)
    | Inr (graph, keys, visiting, _) \<Rightarrow> (card (fst ` set graph - visiting), Suc (length keys))))"
    by auto
next
  fix graph :: dep_graph and key visiting "done" dependencies
  assume "key \<notin> visiting" and "map_of graph key = Some dependencies"
  then have "fst ` set graph - insert key visiting \<subset> fst ` set graph - visiting"
    by (force dest: map_of_SomeD)
  then have "card (fst ` set graph - insert key visiting) < card (fst ` set graph - visiting)"
    by (intro psubset_card_mono) auto
  then show "(Inr (graph, dependencies, insert key visiting, done), Inl (graph, key, visiting, done))
      \<in> inv_image (less_than <*lex*> less_than) (\<lambda>x. case x of
      Inl (graph, key, visiting, _) \<Rightarrow> (card (fst ` set graph - visiting), 0)
    | Inr (graph, keys, visiting, _) \<Rightarrow> (card (fst ` set graph - visiting), Suc (length keys)))"
    by simp
qed (auto dest: visit_restores)

definition validate_dependencies :: "family_state list \<Rightarrow> unit result" where
  "validate_dependencies states =
     (let keys = set (map fs_key states); graph = dep_graph states
      in rbind (for_each (\<lambda>(key, dependencies). check_dependency_order key keys None dependencies) graph)
        (\<lambda>_. rbind (visit_all graph (map fst graph) ({}, {})) (\<lambda>_. Inr ())))"

section \<open>The representation family\<close>

fun fixed_dimensions :: "static_dimension list \<Rightarrow> u64 list" where
  "fixed_dimensions [] = []"
| "fixed_dimensions (Token # dims) = fixed_dimensions dims"
| "fixed_dimensions (Fixed v # dims) = v # fixed_dimensions dims"

definition token_dimensions :: "static_dimension list \<Rightarrow> nat list" where
  "token_dimensions dims = map fst (filter (\<lambda>(_, d). d = Token) (enumerate 0 dims))"

definition validate_family_state ::
  "representation_mode \<Rightarrow> state_key option \<Rightarrow> family_state \<Rightarrow> state_key option result" where
  "validate_family_state mode previous state =
     rbind (validate_state_key (fs_key state)) (\<lambda>_.
     if (case previous of None \<Rightarrow> False | Some key \<Rightarrow> fs_key state \<le> key)
     then Inl (Semantics ''family states are not unique canonical order'')
     else if fs_codec_version state \<noteq> 1 then Inl (Codec ''unsupported family codec version'')
     else let rank = length (fs_dimensions state) in
     if rank = 0 \<or> rank > MAX_RANK \<or> unat (fs_token_axis state) \<ge> rank
     then Inl (Semantics ''family token axis is outside its rank'')
     else if token_dimensions (fs_dimensions state) \<noteq> [unat (fs_token_axis state)]
     then Inl (Semantics ''family must have exactly one declared token dimension'')
     else rbind (checked_product (fixed_dimensions (fs_dimensions state))
         ''family elements-per-token overflows u64'') (\<lambda>elements_per_token.
     if elements_per_token \<noteq> fs_elements_per_token state \<or> elements_per_token = 0
     then Inl (Semantics ''family elements-per-token is not canonical'')
     else if width_bytes (fs_dtype state) = None
     then Inl (Semantics ''family dtype has no fixed width'')
     else if fs_layout state = Contiguous \<and> fs_token_axis_rule state = Gather
     then Inl (Semantics ''contiguous family cannot require strided token gathering'')
     else if mode = Portable \<and>
         (fs_layout state \<noteq> Contiguous \<or> fs_token_axis_rule state \<notin> {Direct, TailWindow})
     then Inl (Semantics ''portable family requires contiguous direct token streams'')
     else Inr (Some (fs_key state))))"

definition validate_family :: "representation_family_id \<Rightarrow> unit result" where
  "validate_family family =
     (if is_zero_id (rf_engine_cache_abi family) \<or> is_zero_id (rf_topology family)
         \<or> is_zero_id (rf_shard_map family)
      then Inl (Semantics ''representation family contains a zero identity'')
      else if rf_page_size_tokens family = 0
      then Inl (Semantics ''representation family page size must be nonzero'')
      else if rf_states family = [] \<or> length (rf_states family) > MAX_STATES
      then Inl (Bounds ''family state count is outside bounds'')
      else rbind (try_fold (validate_family_state (rf_mode family)) None (rf_states family))
        (\<lambda>_. validate_dependencies (rf_states family)))"

section \<open>Shapes, footprints and atomic groups\<close>

definition validate_shape :: "shape \<Rightarrow> family_state \<Rightarrow> u64 \<Rightarrow> unit result" where
  "validate_shape shape family expected_tokens =
     (if shape_rank shape \<noteq> length (fs_dimensions family)
      then Inl (Semantics ''realized shape rank does not match family rank'')
      else for_each (\<lambda>(index, actual, dimension).
          let expected = (case dimension of Token \<Rightarrow> expected_tokens | Fixed v \<Rightarrow> v) in
          if actual \<noteq> expected \<or> (index = unat (fs_token_axis family)) \<noteq> (dimension = Token)
          then Inl (Semantics ''realized shape does not satisfy static family dimensions'')
          else Inr ())
        (enumerate 0 (zip (shape_dims shape) (fs_dimensions family))))"

definition footprint_step :: "u64 \<Rightarrow> u64 \<times> u64 \<Rightarrow> u64 result" where
  "footprint_step off ds = (case ds of (dimension, stride) \<Rightarrow>
     ok_or (Option.bind (checked_sub dimension 1) (\<lambda>count.
        Option.bind (checked_mul count stride) (\<lambda>term. checked_add off term)))
       (Bounds ''state physical footprint overflows u64''))"

definition physical_footprint :: "shape \<Rightarrow> u64 list \<Rightarrow> u64 \<Rightarrow> u64 result" where
  "physical_footprint shape strides width =
     rbind (try_fold footprint_step 0 (zip (shape_dims shape) strides)) (\<lambda>last_element.
     ok_or (Option.bind (checked_add last_element 1) (\<lambda>elements. checked_mul elements width))
       (Bounds ''state physical footprint overflows u64''))"

definition group_state_step :: "state_key set \<Rightarrow> state_key option \<times> state_key set \<Rightarrow> state_key
    \<Rightarrow> (state_key option \<times> state_key set) result" where
  "group_state_step expected acc state = (case acc of (previous_key, observed) \<Rightarrow>
     if state \<notin> expected then Inl (Graph ''atomic group names an unknown state'')
     else if (case previous_key of None \<Rightarrow> False | Some key \<Rightarrow> state \<le> key)
     then Inl (Semantics ''atomic-group states are not unique canonical order'')
     else if state \<in> observed then Inl (Graph ''state appears in multiple atomic groups'')
     else Inr (Some state, insert state observed))"

definition group_step :: "state_key set \<Rightarrow> u32 \<times> state_key set \<Rightarrow> atomic_group
    \<Rightarrow> (u32 \<times> state_key set) result" where
  "group_step expected acc grp = (case acc of (previous_id, observed) \<Rightarrow>
     if ag_id grp = 0 \<or> ag_id grp \<le> previous_id
     then Inl (Semantics ''atomic groups are not unique canonical order'')
     else rbind (try_fold (group_state_step expected) (None, observed) (ag_states grp))
       (\<lambda>(_, observed'). Inr (ag_id grp, observed')))"

definition validate_atomic_groups :: "cut_manifest \<Rightarrow> unit result" where
  "validate_atomic_groups manifest =
     (let expected = set (map fs_key (rf_states (cm_family manifest))) in
      rbind (try_fold (group_step expected) (0, {}) (rc_atomic_groups (cm_realized_schema manifest)))
        (\<lambda>(_, observed). if observed \<noteq> expected
          then Inl (Graph ''atomic groups do not cover the complete family inventory'')
          else Inr ()))"

section \<open>The manifest\<close>

definition validate_manifest_identity :: "cut_manifest \<Rightarrow> unit result" where
  "validate_manifest_identity manifest =
     (let semantic = cm_semantic_model manifest; the_cut = cm_input_cut manifest in
      if is_zero_id (cm_tenant_namespace manifest) then Inl (Semantics ''tenant namespace is zero'')
      else if cm_key_epoch manifest = 0 then Inl (Semantics ''key epoch must be nonzero'')
      else if list_ex is_zero_id [sm_weights_config semantic, sm_adapters semantic,
          sm_tokenizer_template semantic, sm_position_semantics semantic, sm_qualified_math semantic]
      then Inl (Semantics ''semantic model identity contains a zero component'')
      else if is_zero_id (ic_token_root the_cut) \<or> is_zero_id (ic_auxiliary_input_root the_cut)
        \<or> ic_token_count the_cut = 0
      then Inl (Semantics ''input cut identity is invalid'')
      else Inr ())"

fun cut_range :: "manifest_kind \<Rightarrow> input_cut_id \<Rightarrow> (u64 \<times> u64) result" where
  "cut_range Full the_cut = Inr (0, ic_token_count the_cut)"
| "cut_range (Delta parent parent_cut depth) the_cut =
     (if is_zero_id parent \<or> is_zero_id (ic_token_root parent_cut)
         \<or> is_zero_id (ic_auxiliary_input_root parent_cut)
      then Inl (Graph ''delta parent identity is invalid'')
      else if depth = 0 \<or> depth > MAX_DELTA_DEPTH
      then Inl (Graph ''delta depth is outside 1..=7'')
      else if ic_auxiliary_input_root parent_cut \<noteq> ic_auxiliary_input_root the_cut
         \<or> ic_token_count parent_cut = 0 \<or> ic_token_count parent_cut \<ge> ic_token_count the_cut
      then Inl (Graph ''delta parent cut is not a compatible strict prefix'')
      else Inr (ic_token_count parent_cut, ic_token_count the_cut - ic_token_count parent_cut))"

definition state_range :: "cut_manifest \<Rightarrow> u64 \<times> u64 \<Rightarrow> family_state \<Rightarrow> realized_state_schema
    \<Rightarrow> (u64 \<times> u64) result" where
  "state_range manifest the_cut family_state realized =
     (let tokens = ic_token_count (cm_input_cut manifest) in
      if fs_token_axis_rule family_state = TailWindow
      then if rc_kind (cm_realized_schema manifest) \<noteq> Full \<or> rs_logical_count realized = 0
          \<or> rs_logical_count realized > tokens
        then Inl (Semantics ''tail-window states require one nonempty full snapshot'')
        else Inr (tokens - rs_logical_count realized, rs_logical_count realized)
      else Inr the_cut)"

definition stride_step :: "u64 \<Rightarrow> u64 \<times> u64 \<Rightarrow> u64 result" where
  "stride_step expected_stride ds = (case ds of (dimension, stride) \<Rightarrow>
     if stride \<noteq> expected_stride then Inl (Semantics ''contiguous state has noncanonical strides'')
     else ok_or (checked_mul expected_stride dimension)
       (Bounds ''contiguous stride calculation overflows u64''))"

definition validate_state_layout :: "cut_manifest \<Rightarrow> u64 \<times> u64 \<Rightarrow> family_state
    \<Rightarrow> realized_state_schema \<Rightarrow> unit result" where
  "validate_state_layout manifest token_range family_state realized =
     (case token_range of (range_start, range_count) \<Rightarrow>
     let tokens = ic_token_count (cm_input_cut manifest);
         full_tokens = (if fs_token_axis_rule family_state = TailWindow then range_count else tokens)
     in rbind (validate_shape (rs_full_shape realized) family_state full_tokens) (\<lambda>_.
     rbind (validate_shape (rs_segment_shape realized) family_state range_count) (\<lambda>_.
     if rs_logical_start realized \<noteq> range_start \<or> rs_logical_count realized \<noteq> range_count
        \<or> rs_absolute_position realized \<noteq> tokens \<or> rs_window realized \<noteq> 0
     then Inl (Semantics ''realized state range does not match the exact manifest cut'')
     else if length (rs_strides realized) \<noteq> shape_rank (rs_full_shape realized)
        \<or> 0 \<in> set (rs_strides realized)
     then Inl (Semantics ''realized state strides do not match its rank'')
     else if fs_layout family_state = Contiguous
     then rbind (try_fold stride_step 1
         (rev (zip (shape_dims (rs_full_shape realized)) (rs_strides realized)))) (\<lambda>_. Inr ())
     else Inr ())))"

definition validate_state_bytes :: "u64 \<times> u64 \<Rightarrow> family_state \<Rightarrow> realized_state_schema \<Rightarrow> u64
    \<Rightarrow> (u64 \<times> u64) result" where
  "validate_state_bytes token_range family_state realized width =
     (case token_range of (range_start, range_count) \<Rightarrow>
     rbind (element_count (rs_segment_shape realized)) (\<lambda>segment_elements.
     rbind (ok_or (checked_mul segment_elements width)
       (Bounds ''segment byte count overflows u64'')) (\<lambda>segment_bytes.
     rbind (element_count (rs_full_shape realized)) (\<lambda>full_elements.
     rbind (ok_or (checked_mul full_elements width)
       (Bounds ''complete byte count overflows u64'')) (\<lambda>complete_bytes.
     let physical_token_offset =
       (if fs_token_axis_rule family_state = TailWindow then 0 else range_start) in
     rbind (ok_or (Option.bind
         (checked_mul physical_token_offset (rs_strides realized ! unat (fs_token_axis family_state)))
         (\<lambda>value. checked_mul value width))
       (Bounds ''physical token offset overflows u64'')) (\<lambda>physical_offset.
     rbind (physical_footprint (rs_segment_shape realized) (rs_strides realized) width) (\<lambda>physical_span.
     rbind (physical_footprint (rs_full_shape realized) (rs_strides realized) width) (\<lambda>complete_physical.
     if rs_physical_offset_bytes realized \<noteq> physical_offset
       \<or> rs_physical_span_bytes realized \<noteq> physical_span
       \<or> rs_complete_physical_bytes realized \<noteq> complete_physical
     then Inl (Semantics ''realized physical span is not canonical'')
     else Inr (segment_bytes, complete_bytes)))))))))"

definition chunk_step :: "u64 \<Rightarrow> u64 \<times> u64 \<Rightarrow> chunk_span \<times> chunk_ref \<Rightarrow> (u64 \<times> u64) result" where
  "chunk_step bytes_per_token acc sc = (case acc of (expected_token, expected_offset) \<Rightarrow>
     case sc of (span, chunk) \<Rightarrow>
     if cs_token_start span \<noteq> expected_token \<or> cs_token_count span = 0
        \<or> cs_plaintext_offset span \<noteq> expected_offset
     then Inl (Semantics ''chunk spans are not a contiguous token/byte partition'')
     else rbind (ok_or (checked_mul (cs_token_count span) bytes_per_token)
         (Bounds ''chunk span byte count overflows u64'')) (\<lambda>expected_bytes.
     if expected_bytes \<noteq> ucast (cs_plaintext_bytes span) \<or> expected_bytes = 0
        \<or> expected_bytes > of_nat MAX_CHUNK_PLAINTEXT
        \<or> cr_plaintext_bytes chunk \<noteq> cs_plaintext_bytes span
     then Inl (Semantics ''chunk span has a noncanonical plaintext size'')
     else if is_zero_id (cr_chunk_id chunk) \<or> is_zero_id (cr_object_key chunk)
        \<or> is_zero_id (cr_object_digest chunk) \<or> cr_key_epoch chunk = 0
     then Inl (Semantics ''chunk reference contains a zero identity'')
     else if unat (cr_object_bytes chunk) mod ALIGNMENT \<noteq> 0
        \<or> unat (cr_object_bytes chunk) \<le> CHUNK_HEADER_BYTES
        \<or> unat (cr_object_bytes chunk) > MAX_CHUNK_OBJECT_BYTES
     then Inl (Semantics ''chunk object size is not aligned'')
     else rbind (ok_or (checked_add expected_token (cs_token_count span))
         (Bounds ''chunk token range overflows u64'')) (\<lambda>expected_token'.
     rbind (ok_or (checked_add expected_offset expected_bytes)
         (Bounds ''chunk byte range overflows u64'')) (\<lambda>expected_offset'.
     Inr (expected_token', expected_offset')))))"

definition validate_state_chunks :: "manifest_bounds \<Rightarrow> u64 \<times> u64 \<Rightarrow> family_state
    \<Rightarrow> realized_state_schema \<Rightarrow> state_manifest \<Rightarrow> u64 \<Rightarrow> unit result" where
  "validate_state_chunks bounds token_range family_state realized payload width =
     (case token_range of (range_start, range_count) \<Rightarrow>
     if rs_chunk_spans realized = [] \<or> length (rs_chunk_spans realized) > mb_max_chunks_per_state bounds
        \<or> length (st_chunks payload) \<noteq> length (rs_chunk_spans realized)
     then Inl (Bounds ''state chunk count is outside bounds'')
     else rbind (ok_or (checked_mul (fs_elements_per_token family_state) width)
         (Bounds ''bytes per token overflows u64'')) (\<lambda>bytes_per_token.
     if bytes_per_token = 0 \<or> bytes_per_token > of_nat MAX_CHUNK_PLAINTEXT
     then Inl (Bounds ''one state token does not fit in a bounded chunk'')
     else rbind (ok_or (checked_mul range_start bytes_per_token)
         (Bounds ''state plaintext base offset overflows u64'')) (\<lambda>base_offset.
     rbind (try_fold (chunk_step bytes_per_token) (range_start, base_offset)
         (zip (rs_chunk_spans realized) (st_chunks payload))) (\<lambda>(expected_token, expected_offset).
     rbind (ok_or (checked_add range_start range_count)
         (Bounds ''state token range overflows u64'')) (\<lambda>range_end.
     rbind (ok_or (checked_mul range_end bytes_per_token)
         (Bounds ''state plaintext end offset overflows u64'')) (\<lambda>expected_end_offset.
     if expected_token \<noteq> range_end \<or> expected_offset \<noteq> expected_end_offset
     then Inl (Semantics ''chunk spans do not cover the complete realized state segment'')
     else Inr ()))))))"

definition validate_state :: "manifest_bounds \<Rightarrow> cut_manifest \<Rightarrow> u64 \<times> u64
    \<Rightarrow> u64 \<times> u64 \<Rightarrow> family_state \<times> realized_state_schema \<times> state_manifest \<Rightarrow> (u64 \<times> u64) result" where
  "validate_state bounds manifest the_cut totals entry = (case totals of (segment_total, complete_total) \<Rightarrow>
     case entry of (family_state, realized, payload) \<Rightarrow>
     if fs_key family_state \<noteq> rs_key realized \<or> rs_key realized \<noteq> st_key payload
     then Inl (Semantics ''family, realized schema, and payload state order differ'')
     else rbind (state_range manifest the_cut family_state realized) (\<lambda>token_range.
     rbind (validate_state_layout manifest token_range family_state realized) (\<lambda>_.
     rbind (ok_or (width_bytes (fs_dtype family_state))
         (Semantics ''family dtype has no fixed width'')) (\<lambda>width.
     rbind (validate_state_bytes token_range family_state realized width) (\<lambda>(segment_bytes, complete_bytes).
     rbind (validate_state_chunks bounds token_range family_state realized payload width) (\<lambda>_.
     rbind (ok_or (checked_add segment_total segment_bytes)
         (Bounds ''segment restored byte total overflows u64'')) (\<lambda>segment_total'.
     rbind (ok_or (checked_add complete_total complete_bytes)
         (Bounds ''complete restored byte total overflows u64'')) (\<lambda>complete_total'.
     Inr (segment_total', complete_total')))))))))"

definition validate_manifest :: "cut_manifest \<Rightarrow> manifest_bounds \<Rightarrow> unit result" where
  "validate_manifest manifest bounds =
     (let schema = cm_realized_schema manifest; family_states = rf_states (cm_family manifest) in
      rbind (validate_manifest_identity manifest) (\<lambda>_.
      rbind (validate_family (cm_family manifest)) (\<lambda>_.
      rbind (cut_range (rc_kind schema) (cm_input_cut manifest)) (\<lambda>the_cut.
      if length (rc_states schema) \<noteq> length family_states
         \<or> length (cm_states manifest) \<noteq> length family_states
         \<or> length (rc_states schema) > mb_max_states bounds
      then Inl (Bounds ''manifest, family, and schema state counts differ or exceed bounds'')
      else rbind (validate_atomic_groups manifest) (\<lambda>_.
      rbind (try_fold (validate_state bounds manifest the_cut) (0, 0)
          (zip family_states (zip (rc_states schema) (cm_states manifest))))
        (\<lambda>(segment_total, complete_total).
      if rc_segment_restored_bytes schema \<noteq> segment_total
         \<or> rc_complete_restored_bytes schema \<noteq> complete_total
         \<or> rc_complete_restored_bytes schema > mb_max_restored_bytes bounds
      then Inl (Bounds ''manifest restored byte totals are invalid'')
      else Inr ()))))))"

declare visit.simps [simp del]

section \<open>The cycle check decides acyclicity\<close>

definition dep_edges :: "dep_graph \<Rightarrow> (state_key \<times> state_key) set" where
  "dep_edges graph = {(k, d). \<exists>ds. map_of graph k = Some ds \<and> d \<in> set ds}"

lemma visit_keeps_visiting:
  "visit graph key state = Inr r \<Longrightarrow> fst r = fst state"
  "visit_all graph keys state = Inr r \<Longrightarrow> fst r = fst state"
proof (induction graph key state and graph keys state arbitrary: r and r rule: visit_visit_all.induct)
  case (1 graph key visiting "done")
  then show ?case by (fastforce simp: visit.simps rbind_eq_Inr split: if_splits option.splits)
next
  case (3 graph dependency rest state)
  then obtain s where "visit graph dependency state = Inr s" "visit_all graph rest s = Inr r"
    by (auto simp: rbind_eq_Inr)
  with 3 show ?case by auto
qed simp

lemma acyclic_new_source:
  assumes "acyclic R" and "\<And>x. (x, k) \<notin> S" and "S \<subseteq> R \<union> {k} \<times> UNIV"
  shows "acyclic S"
proof (rule acyclicI, intro allI notI)
  fix x
  assume loop: "(x, x) \<in> S\<^sup>+"
  then have "x \<noteq> k" using assms(2) by (metis tranclD2)
  have "y \<noteq> k \<and> (x, y) \<in> R\<^sup>+" if "(x, y) \<in> S\<^sup>+" for y
    using that
  proof induction
    case (base y)
    then show ?case using assms(2,3) \<open>x \<noteq> k\<close> by blast
  next
    case (step y z)
    then show ?case using assms(2,3) by (blast intro: trancl.trancl_into_trancl)
  qed
  with loop assms(1) show False by (auto simp: acyclic_def)
qed

text \<open>The depth-first invariant: finished states are closed under dependencies, acyclic, and
  disjoint from the states on the current path.\<close>

definition dfs_inv :: "dep_graph \<Rightarrow> state_key set \<Rightarrow> state_key set \<Rightarrow> bool" where
  "dfs_inv graph V D \<longleftrightarrow> V \<inter> D = {} \<and> (\<forall>k d. (k, d) \<in> dep_edges graph \<longrightarrow> k \<in> D \<longrightarrow> d \<in> D)
     \<and> acyclic (dep_edges graph \<inter> D \<times> D)"

lemma dfs_inv_finish:
  assumes inv: "dfs_inv graph (insert k V) D" and "k \<notin> V"
    and deps: "\<And>d. (k, d) \<in> dep_edges graph \<Longrightarrow> d \<in> D"
  shows "dfs_inv graph V (insert k D)"
proof -
  have "k \<notin> D" using inv by (auto simp: dfs_inv_def)
  have "acyclic (dep_edges graph \<inter> insert k D \<times> insert k D)"
  proof (rule acyclic_new_source [where k = k])
    show "acyclic (dep_edges graph \<inter> D \<times> D)" using inv by (simp add: dfs_inv_def)
    show "(x, k) \<notin> dep_edges graph \<inter> insert k D \<times> insert k D" for x
      using inv deps \<open>k \<notin> D\<close> by (fastforce simp: dfs_inv_def)
    show "dep_edges graph \<inter> insert k D \<times> insert k D \<subseteq> dep_edges graph \<inter> D \<times> D \<union> {k} \<times> UNIV"
      using deps \<open>k \<notin> D\<close> inv by (fastforce simp: dfs_inv_def)
  qed
  with inv deps \<open>k \<notin> V\<close> show ?thesis by (fastforce simp: dfs_inv_def)
qed

lemma visit_sound:
  "visit graph key state = Inr r \<Longrightarrow> dfs_inv graph (fst state) (snd state) \<Longrightarrow>
     dfs_inv graph (fst state) (snd r) \<and> insert key (snd state) \<subseteq> snd r"
  "visit_all graph keys state = Inr r \<Longrightarrow> dfs_inv graph (fst state) (snd state) \<Longrightarrow>
     dfs_inv graph (fst state) (snd r) \<and> set keys \<union> snd state \<subseteq> snd r"
proof (induction graph key state and graph keys state arbitrary: r and r rule: visit_visit_all.induct)
  case (1 graph key visiting "done")
  show ?case
  proof (cases "key \<in> done")
    case True
    with 1(2,3) show ?thesis by (auto simp: visit.simps)
  next
    case False
    with 1(2) have new: "key \<notin> visiting" by (auto simp: visit.simps split: if_splits)
    obtain D where D: "snd r = insert key D" "dfs_inv graph (insert key visiting) D" "done \<subseteq> D"
      "\<And>d. (key, d) \<in> dep_edges graph \<Longrightarrow> d \<in> D"
    proof (cases "map_of graph key")
      case None
      then have "snd r = insert key done" "\<And>d. (key, d) \<notin> dep_edges graph"
        using 1(2) False new by (auto simp: visit.simps dep_edges_def)
      moreover have "dfs_inv graph (insert key visiting) done"
        using 1(3) False by (auto simp: dfs_inv_def)
      ultimately show thesis using that by blast
    next
      case (Some ds)
      then obtain V' D' where "visit_all graph ds (insert key visiting, done) = Inr (V', D')"
        and r: "snd r = insert key D'"
        using 1(2) False new by (auto simp: visit.simps rbind_eq_Inr)
      moreover have "dfs_inv graph (insert key visiting) done"
        using 1(3) False by (auto simp: dfs_inv_def)
      ultimately have "dfs_inv graph (insert key visiting) D' \<and> set ds \<union> done \<subseteq> D'"
        using 1(1) [OF False new Some] by auto
      then show thesis using that [OF r] Some by (auto simp: dep_edges_def)
    qed
    from dfs_inv_finish [OF D(2) new D(4)] D(1,3) show ?thesis by auto
  qed
next
  case (2 graph state)
  then show ?case by auto
next
  case (3 graph dependency rest state)
  then obtain s where s: "visit graph dependency state = Inr s" "visit_all graph rest s = Inr r"
    by (auto simp: rbind_eq_Inr)
  have "dfs_inv graph (fst state) (snd s)" and "insert dependency (snd state) \<subseteq> snd s"
    using 3(1) [OF s(1) 3(4)] by auto
  moreover from this have "dfs_inv graph (fst state) (snd r)" "set rest \<union> snd s \<subseteq> snd r"
    using 3(2) [OF s(1) s(2)] visit_keeps_visiting(1) [OF s(1)] by auto
  ultimately show ?case by auto
qed

lemma visit_complete:
  "visit graph key state = Inl e \<Longrightarrow> (\<And>v. v \<in> fst state \<Longrightarrow> (v, key) \<in> (dep_edges graph)\<^sup>+) \<Longrightarrow>
     \<not> acyclic (dep_edges graph)"
  "visit_all graph keys state = Inl e \<Longrightarrow>
     (\<And>v k. v \<in> fst state \<Longrightarrow> k \<in> set keys \<Longrightarrow> (v, k) \<in> (dep_edges graph)\<^sup>+) \<Longrightarrow>
     \<not> acyclic (dep_edges graph)"
proof (induction graph key state and graph keys state rule: visit_visit_all.induct)
  case (1 graph key visiting "done")
  then have new: "key \<notin> done" by (auto simp: visit.simps)
  show ?case
  proof (cases "key \<in> visiting")
    case True
    then show ?thesis using 1(3) by (auto simp: acyclic_def)
  next
    case False
    with 1(2) new obtain ds where ds: "map_of graph key = Some ds"
      and err: "visit_all graph ds (insert key visiting, done) = Inl e"
      by (auto simp: visit.simps rbind_eq_Inl split: option.splits)
    have edge: "(key, d) \<in> dep_edges graph" if "d \<in> set ds" for d
      using that ds by (auto simp: dep_edges_def)
    have "(v, d) \<in> (dep_edges graph)\<^sup>+" if "v \<in> insert key visiting" "d \<in> set ds" for v d
      using that 1(3) edge by (auto intro: trancl.trancl_into_trancl)
    then show ?thesis using 1(1) [OF new False ds err] by simp
  qed
next
  case (2 graph state)
  then show ?case by simp
next
  case (3 graph dependency rest state)
  show ?case
  proof (cases "visit graph dependency state")
    case (Inl e')
    then have "e' = e" using 3(3) by simp
    then show ?thesis using 3(1) 3(4) Inl by simp
  next
    case (Inr s)
    then have "visit_all graph rest s = Inl e" "fst s = fst state"
      using 3(3) visit_keeps_visiting(1) by auto
    then show ?thesis using 3(2) [OF Inr] 3(4) by simp
  qed
qed

lemma visit_all_graph_iff:
  "(\<exists>r. visit_all graph (map fst graph) ({}, {}) = Inr r) \<longleftrightarrow> acyclic (dep_edges graph)"
proof (cases "visit_all graph (map fst graph) ({}, {})")
  case (Inl e)
  then show ?thesis using visit_complete(2) [OF Inl] by simp
next
  case (Inr r)
  have "dfs_inv graph {} {}" by (simp add: dfs_inv_def acyclic_def)
  then have inv: "dfs_inv graph {} (snd r)" and "fst ` set graph \<subseteq> snd r"
    using visit_sound(2) [OF Inr] by auto
  have "k \<in> snd r \<and> d \<in> snd r" if edge: "(k, d) \<in> dep_edges graph" for k d
  proof -
    have "k \<in> fst ` set graph"
      using edge by (force simp: dep_edges_def dest: map_of_SomeD)
    with \<open>fst ` set graph \<subseteq> snd r\<close> have "k \<in> snd r" by blast
    with inv edge show ?thesis by (simp add: dfs_inv_def)
  qed
  then have "dep_edges graph \<inter> snd r \<times> snd r = dep_edges graph" by auto
  with Inr inv show ?thesis by (simp add: dfs_inv_def)
qed


lemma check_dependency_order_iff [ok_iff]:
  "check_dependency_order key keys previous ds = Inr u \<longleftrightarrow>
     key \<notin> set ds \<and> set ds \<subseteq> keys \<and>
     sorted_wrt (<) (case previous of None \<Rightarrow> ds | Some p \<Rightarrow> p # ds)"
proof (induction key keys previous ds rule: check_dependency_order.induct)
  case (1 key keys previous)
  then show ?case by (cases previous) auto
next
  case (2 key keys previous dependency rest)
  then show ?case by (cases previous) (auto simp: not_le)
qed

lemma map_of_dep_graph:
  "map_of (dep_graph states) = map_of (rev (map (\<lambda>s. (fs_key s, fs_dependencies s)) states))"
proof
  fix k
  let ?entries = "map (\<lambda>s. (fs_key s, fs_dependencies s)) states"
  have dom: "k \<in> set (map fst ?entries) \<longleftrightarrow> (\<exists>ds. map_of (rev ?entries) k = Some ds)"
    using weak_map_of_SomeI [of k _ "rev ?entries"] map_of_eq_None_iff [of "rev ?entries" k]
    by (cases "map_of (rev ?entries) k") auto
  show "map_of (dep_graph states) k = map_of (rev ?entries) k"
  proof (cases "map_of (rev ?entries) k")
    case None
    then have "k \<notin> set (map fst ?entries)" using dom by simp
    then show ?thesis using None by (simp add: dep_graph_def Let_def map_of_map_restrict restrict_map_def)
  next
    case (Some ds)
    then have "k \<in> set (map fst ?entries)" using dom by blast
    then show ?thesis using Some by (simp add: dep_graph_def Let_def map_of_map_restrict restrict_map_def)
  qed
qed

lemma dep_graph_sorted:
  assumes "sorted_wrt (<) (map fs_key states)"
  shows "dep_graph states = map (\<lambda>s. (fs_key s, fs_dependencies s)) states"
proof -
  let ?entries = "map (\<lambda>s. (fs_key s, fs_dependencies s)) states"
  have "sorted (map fs_key states)" "distinct (map fs_key states)"
    using assms by (auto simp: strict_sorted_iff)
  then have keys: "sort (remdups (map fst ?entries)) = map fs_key states" and dist: "distinct (map fst (rev ?entries))"
    by (simp_all add: comp_def sorted_sort_id distinct_remdups_id rev_map [symmetric])
  have "the (map_of (rev ?entries) (fs_key s)) = fs_dependencies s" if "s \<in> set states" for s
    using map_of_is_SomeI [OF dist, of "fs_key s" "fs_dependencies s"] that by auto
  then show ?thesis unfolding dep_graph_def Let_def keys by simp
qed

lemma dep_edges_sorted:
  assumes "sorted_wrt (<) (map fs_key states)"
  shows "dep_edges (dep_graph states)
     = {(fs_key s, d) | s d. s \<in> set states \<and> d \<in> set (fs_dependencies s)}"
proof -
  have "distinct (map fst (map (\<lambda>s. (fs_key s, fs_dependencies s)) states))"
    using assms by (simp add: comp_def strict_sorted_iff)
  from map_of_eq_Some_iff [OF this] show ?thesis
    by (auto simp: dep_edges_def dep_graph_sorted [OF assms])
qed

lemma validate_dependencies_ok:
  assumes "sorted_wrt (<) (map fs_key states)"
  shows "validate_dependencies states = Inr () \<longleftrightarrow>
     (\<forall>s \<in> set states. fs_key s \<notin> set (fs_dependencies s)
        \<and> set (fs_dependencies s) \<subseteq> fs_key ` set states \<and> sorted_wrt (<) (fs_dependencies s))
     \<and> acyclic {(fs_key s, d) | s d. s \<in> set states \<and> d \<in> set (fs_dependencies s)}"
  unfolding validate_dependencies_def Let_def dep_edges_sorted [OF assms, symmetric]
    visit_all_graph_iff [symmetric]
  by (auto simp: ok_iff dep_graph_sorted [OF assms])

section \<open>What an accepted manifest satisfies\<close>

lemma checked_product_ok:
  "checked_product vs e = Inr r \<Longrightarrow> unat r = prod_list (map unat vs)"
  by (auto simp: checked_product_def dest: try_fold_checked_mul)

lemma element_count_ok: "element_count s = Inr r \<Longrightarrow> unat r = prod_list (map unat (shape_dims s))"
  by (auto simp: element_count_def dest: try_fold_checked_mul)

lemma family_keys_sorted:
  assumes "try_fold (validate_family_state mode) prev states = Inr r"
  shows "sorted_wrt (<) (case prev of None \<Rightarrow> map fs_key states | Some p \<Rightarrow> p # map fs_key states)"
  using assms
proof (induction states arbitrary: prev)
  case Nil
  then show ?case by (cases prev) auto
next
  case (Cons s states)
  then obtain q where step: "validate_family_state mode prev s = Inr q"
    and rest: "try_fold (validate_family_state mode) q states = Inr r"
    by (auto simp: rbind_eq_Inr)
  have "q = Some (fs_key s)" "case prev of None \<Rightarrow> True | Some p \<Rightarrow> p < fs_key s"
    using step by (auto simp: validate_family_state_def ok_iff Let_def not_le split: option.splits)
  with Cons.IH [OF rest] show ?case by (cases prev) auto
qed

definition family_state_valid :: "representation_mode \<Rightarrow> family_state \<Rightarrow> bool" where
  "family_state_valid mode s \<longleftrightarrow> (\<exists>prev r. validate_family_state mode prev s = Inr r)"

lemma validate_family_ok:
  assumes "validate_family f = Inr ()"
  shows "rf_states f \<noteq> []" "length (rf_states f) \<le> MAX_STATES" "sorted_wrt (<) (map fs_key (rf_states f))"
    "validate_dependencies (rf_states f) = Inr ()"
    "\<And>i. i < length (rf_states f) \<Longrightarrow> family_state_valid (rf_mode f) (rf_states f ! i)"
proof -
  from assms obtain r where fold: "try_fold (validate_family_state (rf_mode f)) None (rf_states f) = Inr r"
    and "rf_states f \<noteq> []" "length (rf_states f) \<le> MAX_STATES"
    and "validate_dependencies (rf_states f) = Inr ()"
    by (auto simp: validate_family_def ok_iff not_less)
  then show "rf_states f \<noteq> []" "length (rf_states f) \<le> MAX_STATES"
    "validate_dependencies (rf_states f) = Inr ()" by auto
  show "sorted_wrt (<) (map fs_key (rf_states f))" using family_keys_sorted [OF fold] by simp
  show "family_state_valid (rf_mode f) (rf_states f ! i)" if "i < length (rf_states f)" for i
    using try_fold_nth [OF fold that] by (auto simp: family_state_valid_def)
qed

lemma chunk_fold_tiles:
  assumes "try_fold (chunk_step bpt) (t, off) (zip spans chunks) = Inr (t', off')"
    and "length chunks = length spans" and "unat off = unat t * unat bpt"
  shows "tiles (unat t) (map (\<lambda>s. (unat (cs_token_start s), unat (cs_token_count s))) spans) (unat t')
    \<and> tiles (unat off) (map (\<lambda>s. (unat (cs_plaintext_offset s), unat (cs_plaintext_bytes s))) spans)
        (unat off')"
  using assms
proof (induction spans arbitrary: t off chunks)
  case Nil
  then show ?case by simp
next
  case (Cons s spans)
  then obtain c cs where chunks: "chunks = c # cs" by (cases chunks) auto
  with Cons(2) obtain t1 off1 where step: "chunk_step bpt (t, off) (s, c) = Inr (t1, off1)"
    and rest: "try_fold (chunk_step bpt) (t1, off1) (zip spans cs) = Inr (t', off')"
    by (auto simp: rbind_eq_Inr)
  from step obtain n :: u64 where
    head: "cs_token_start s = t" "cs_token_count s \<noteq> 0" "cs_plaintext_offset s = off"
    and n: "unat n = unat (cs_token_count s) * unat bpt" "n = ucast (cs_plaintext_bytes s)" "n \<noteq> 0"
    and next': "unat t1 = unat t + unat (cs_token_count s)" "unat off1 = unat off + unat n"
    by (auto simp: chunk_step_def ok_iff)
  have bytes: "unat (cs_plaintext_bytes s) = unat n"
    using n(2) by simp
  have "unat off1 = unat t1 * unat bpt"
    using next' n(1) Cons(4) by (simp add: algebra_simps)
  with Cons.IH [OF rest] Cons(3) chunks
  have IH: "tiles (unat t1) (map (\<lambda>s. (unat (cs_token_start s), unat (cs_token_count s))) spans) (unat t')
    \<and> tiles (unat off1) (map (\<lambda>s. (unat (cs_plaintext_offset s), unat (cs_plaintext_bytes s))) spans)
        (unat off')" by simp
  have "0 < unat (cs_token_count s)" "0 < unat n"
    using head(2) n(3) by (simp_all add: unat_gt_0)
  then show ?case using IH head next' bytes by simp
qed

lemma validate_state_ok:
  assumes "validate_state bounds m tc (a, b) (f, r, p) = Inr (a', b')"
  obtains start count width seg whole where
    "fs_key f = rs_key r" "rs_key r = st_key p"
    "state_range m tc f r = Inr (start, count)"
    "validate_state_layout m (start, count) f r = Inr ()"
    "width_bytes (fs_dtype f) = Some width"
    "validate_state_bytes (start, count) f r width = Inr (seg, whole)"
    "validate_state_chunks bounds (start, count) f r p width = Inr ()"
    "unat a' = unat a + unat seg" "unat b' = unat b + unat whole"
proof -
  from assms obtain rg width sc where
    "fs_key f = rs_key r" "rs_key r = st_key p"
    "state_range m tc f r = Inr rg" "validate_state_layout m rg f r = Inr ()"
    "width_bytes (fs_dtype f) = Some width" "validate_state_bytes rg f r width = Inr sc"
    "validate_state_chunks bounds rg f r p width = Inr ()"
    "unat a' = unat a + unat (fst sc)" "unat b' = unat b + unat (snd sc)"
    by (auto simp: validate_state_def ok_iff)
  then show thesis using that [of "fst rg" "snd rg" width "fst sc" "snd sc"] by simp
qed

lemma validate_manifest_ok:
  assumes "validate_manifest m bounds = Inr ()"
  obtains tc seg whole where
    "validate_manifest_identity m = Inr ()" "validate_family (cm_family m) = Inr ()"
    "cut_range (rc_kind (cm_realized_schema m)) (cm_input_cut m) = Inr tc"
    "length (rc_states (cm_realized_schema m)) = length (rf_states (cm_family m))"
    "length (cm_states m) = length (rf_states (cm_family m))"
    "validate_atomic_groups m = Inr ()"
    "try_fold (validate_state bounds m tc) (0, 0) (zip (rf_states (cm_family m))
       (zip (rc_states (cm_realized_schema m)) (cm_states m))) = Inr (seg, whole)"
    "rc_segment_restored_bytes (cm_realized_schema m) = seg"
    "rc_complete_restored_bytes (cm_realized_schema m) = whole"
    "whole \<le> mb_max_restored_bytes bounds"
  using assms by (auto simp: validate_manifest_def Let_def ok_iff not_less)

text \<open>Every state of an accepted manifest passed its own checks.\<close>

lemma validate_manifest_state:
  assumes "validate_manifest m bounds = Inr ()" and "i < length (cm_states m)"
  obtains tc a b a' b' where
    "cut_range (rc_kind (cm_realized_schema m)) (cm_input_cut m) = Inr tc"
    "validate_state bounds m tc (a, b)
       (rf_states (cm_family m) ! i, rc_states (cm_realized_schema m) ! i, cm_states m ! i) = Inr (a', b')"
proof -
  from validate_manifest_ok [OF assms(1)] obtain tc seg whole where
    tc: "cut_range (rc_kind (cm_realized_schema m)) (cm_input_cut m) = Inr tc"
    and len: "length (rc_states (cm_realized_schema m)) = length (rf_states (cm_family m))"
      "length (cm_states m) = length (rf_states (cm_family m))"
    and fold: "try_fold (validate_state bounds m tc) (0, 0) (zip (rf_states (cm_family m))
       (zip (rc_states (cm_realized_schema m)) (cm_states m))) = Inr (seg, whole)"
    by metis
  have "\<exists>a b. validate_state bounds m tc a (rf_states (cm_family m) ! i,
      rc_states (cm_realized_schema m) ! i, cm_states m ! i) = Inr b"
    using try_fold_nth [OF fold, of i] assms(2) len by simp
  then show thesis using that [OF tc] by (metis surj_pair)
qed

lemma state_chunks_tile:
  assumes "validate_state_chunks bounds (start, count) f r p width = Inr ()"
  shows "tiles (unat start) (map (\<lambda>s. (unat (cs_token_start s), unat (cs_token_count s)))
       (rs_chunk_spans r)) (unat start + unat count)
    \<and> tiles (unat start * (unat (fs_elements_per_token f) * unat width))
       (map (\<lambda>s. (unat (cs_plaintext_offset s), unat (cs_plaintext_bytes s))) (rs_chunk_spans r))
       ((unat start + unat count) * (unat (fs_elements_per_token f) * unat width))"
proof -
  from assms obtain bpt base t off where
    bpt: "unat bpt = unat (fs_elements_per_token f) * unat width"
    and base: "unat base = unat start * unat bpt"
    and len: "length (st_chunks p) = length (rs_chunk_spans r)"
    and fold: "try_fold (chunk_step bpt) (start, base) (zip (rs_chunk_spans r) (st_chunks p)) = Inr (t, off)"
    and last: "unat t = unat start + unat count" "unat off = unat t * unat bpt"
    by (auto simp: validate_state_chunks_def ok_iff)
  from chunk_fold_tiles [OF fold len base] last base bpt show ?thesis by (simp add: mult.assoc)
qed

lemma group_states_ok:
  assumes "try_fold (group_state_step expected) (prev, obs) ks = Inr (prev', obs')"
  shows "set ks \<subseteq> expected \<and> set ks \<inter> obs = {} \<and> obs' = obs \<union> set ks
    \<and> sorted_wrt (<) (case prev of None \<Rightarrow> ks | Some p \<Rightarrow> p # ks)"
  using assms
proof (induction ks arbitrary: prev obs)
  case Nil
  then show ?case by (cases prev) auto
next
  case (Cons k ks)
  from Cons(2) obtain acc where step: "group_state_step expected (prev, obs) k = Inr acc"
    and rest: "try_fold (group_state_step expected) acc ks = Inr (prev', obs')"
    by (auto simp: rbind_eq_Inr)
  from step have k: "k \<in> expected" "k \<notin> obs" "case prev of None \<Rightarrow> True | Some p \<Rightarrow> p < k"
    and acc: "acc = (Some k, insert k obs)"
    by (auto simp: group_state_step_def ok_iff not_le split: option.splits)
  from Cons(1) [OF rest [unfolded acc]] k show ?case by (cases prev) auto
qed

lemma groups_ok:
  assumes "try_fold (group_step expected) (gid, obs) gs = Inr (gid', obs')"
  shows "sorted_wrt (<) (gid # map ag_id gs) \<and> distinct (concat (map ag_states gs))
    \<and> set (concat (map ag_states gs)) \<inter> obs = {} \<and> obs' = obs \<union> set (concat (map ag_states gs))"
  using assms
proof (induction gs arbitrary: gid obs)
  case Nil
  then show ?case by simp
next
  case (Cons g gs)
  from Cons(2) obtain acc where step: "group_step expected (gid, obs) g = Inr acc"
    and fold: "try_fold (group_step expected) acc gs = Inr (gid', obs')"
    by (auto simp: rbind_eq_Inr)
  from step obtain p obs1 where id: "gid < ag_id g" and acc: "acc = (ag_id g, obs1)"
    and inner: "try_fold (group_state_step expected) (None, obs) (ag_states g) = Inr (p, obs1)"
    by (auto simp: group_step_def ok_iff not_le)
  note rest = fold [unfolded acc]
  from group_states_ok [OF inner] have "distinct (ag_states g)" "set (ag_states g) \<inter> obs = {}"
    "obs1 = obs \<union> set (ag_states g)" by (auto simp: strict_sorted_iff)
  with Cons(1) [OF rest] id show ?case by (auto simp: order.strict_trans)
qed

lemma validate_atomic_groups_ok:
  assumes "validate_atomic_groups m = Inr ()"
  shows "sorted_wrt (<) (0 # map ag_id (rc_atomic_groups (cm_realized_schema m)))"
    "distinct (concat (map ag_states (rc_atomic_groups (cm_realized_schema m))))"
    "set (concat (map ag_states (rc_atomic_groups (cm_realized_schema m))))
       = fs_key ` set (rf_states (cm_family m))"
proof -
  from assms obtain gid where
    "try_fold (group_step (fs_key ` set (rf_states (cm_family m)))) (0, {})
       (rc_atomic_groups (cm_realized_schema m)) = Inr (gid, fs_key ` set (rf_states (cm_family m)))"
    by (auto simp: validate_atomic_groups_def Let_def ok_iff split: if_splits)
  from groups_ok [OF this] show
    "sorted_wrt (<) (0 # map ag_id (rc_atomic_groups (cm_realized_schema m)))"
    "distinct (concat (map ag_states (rc_atomic_groups (cm_realized_schema m))))"
    "set (concat (map ag_states (rc_atomic_groups (cm_realized_schema m))))
       = fs_key ` set (rf_states (cm_family m))"
    by simp_all
qed

text \<open>Exact sizes, over the natural numbers.\<close>

definition dense_bytes :: "shape \<Rightarrow> dtype \<Rightarrow> nat" where
  "dense_bytes s d = prod_list (map unat (shape_dims s)) * unat (the (width_bytes d))"

definition footprint :: "u64 list \<Rightarrow> u64 list \<Rightarrow> nat" where
  "footprint dims strides = sum_list (map (\<lambda>(d, s). (unat d - 1) * unat s) (zip dims strides)) + 1"

lemma validate_state_bytes_ok:
  assumes "validate_state_bytes (start, count) f r width = Inr (seg, whole)"
  obtains
    "unat seg = prod_list (map unat (shape_dims (rs_segment_shape r))) * unat width"
    "unat whole = prod_list (map unat (shape_dims (rs_full_shape r))) * unat width"
    "unat (rs_physical_offset_bytes r) =
       (if fs_token_axis_rule f = TailWindow then 0 else unat start)
         * unat (rs_strides r ! unat (fs_token_axis f)) * unat width"
    "physical_footprint (rs_segment_shape r) (rs_strides r) width = Inr (rs_physical_span_bytes r)"
    "physical_footprint (rs_full_shape r) (rs_strides r) width = Inr (rs_complete_physical_bytes r)"
  using assms
  by (auto simp: validate_state_bytes_def ok_iff Let_def bind_eq_Some_conv dest!: element_count_ok
      split: if_splits)

lemma totals_fold:
  assumes "try_fold (validate_state bounds m tc) (a, b) entries = Inr (a', b')"
  shows "unat a' = unat a + sum_list (map (\<lambda>(f, r, p). dense_bytes (rs_segment_shape r) (fs_dtype f)) entries)
    \<and> unat b' = unat b + sum_list (map (\<lambda>(f, r, p). dense_bytes (rs_full_shape r) (fs_dtype f)) entries)"
  using assms
proof (induction entries arbitrary: a b)
  case Nil
  then show ?case by simp
next
  case (Cons x entries)
  obtain f r p where x: "x = (f, r, p)" by (cases x)
  from Cons(2) x obtain a1 b1 where step: "validate_state bounds m tc (a, b) (f, r, p) = Inr (a1, b1)"
    and rest: "try_fold (validate_state bounds m tc) (a1, b1) entries = Inr (a', b')"
    by (auto simp: rbind_eq_Inr)
  from validate_state_ok [OF step] obtain start count width seg whole where
    w: "width_bytes (fs_dtype f) = Some width"
    and sizes: "validate_state_bytes (start, count) f r width = Inr (seg, whole)"
    and sums: "unat a1 = unat a + unat seg" "unat b1 = unat b + unat whole" by metis
  from validate_state_bytes_ok [OF sizes] have
    "unat seg = dense_bytes (rs_segment_shape r) (fs_dtype f)"
    "unat whole = dense_bytes (rs_full_shape r) (fs_dtype f)"
    using w by (auto simp: dense_bytes_def)
  with Cons(1) [OF rest] sums x show ?case by simp
qed

lemma footprint_fold:
  "try_fold footprint_step off ds = Inr r \<Longrightarrow>
     unat r = unat off + sum_list (map (\<lambda>(d, s). (unat d - 1) * unat s) ds)"
  by (induction ds arbitrary: off) (auto simp: footprint_step_def ok_iff bind_eq_Some_conv)

lemma physical_footprint_ok:
  "physical_footprint s strides width = Inr r \<Longrightarrow>
     unat r = footprint (shape_dims s) strides * unat width"
  by (auto simp: physical_footprint_def footprint_def ok_iff bind_eq_Some_conv dest!: footprint_fold)

text \<open>Canonical contiguous strides leave no hole: the footprint is the number of elements.\<close>

lemma stride_fold_dense:
  assumes "try_fold stride_step e ds = Inr r" and "\<forall>(d, s) \<in> set ds. d \<noteq> 0"
  shows "sum_list (map (\<lambda>(d, s). (unat d - 1) * unat s) ds) + unat e
    = unat e * prod_list (map (unat \<circ> fst) ds)"
  using assms
proof (induction ds arbitrary: e)
  case Nil
  then show ?case by simp
next
  case (Cons x ds)
  from Cons(2) obtain e' where step: "stride_step e x = Inr e'"
    and rest: "try_fold stride_step e' ds = Inr r"
    by (auto simp: rbind_eq_Inr)
  from step Cons(3) obtain d where x: "x = (d, e)" and d: "d \<noteq> 0" and e': "unat e' = unat e * unat d"
    by (cases x) (auto simp: stride_step_def ok_iff)
  obtain n where n: "unat d = Suc n" using d by (metis not0_implies_Suc unat_eq_zero)
  from Cons(1) [OF rest] Cons(3) e' x n show ?case by (simp add: algebra_simps)
qed

lemma contiguous_footprint:
  assumes "try_fold stride_step 1 (rev (zip dims strides)) = Inr r"
    and "length strides = length dims" and "0 \<notin> set dims"
  shows "footprint dims strides = prod_list (map unat dims)"
proof -
  have "\<forall>(d, s) \<in> set (rev (zip dims strides)). d \<noteq> 0"
    using assms(3) by (auto dest: set_zip_leftD)
  from stride_fold_dense [OF assms(1) this]
  have "footprint dims strides = prod_list (map (unat \<circ> fst) (rev (zip dims strides)))"
    by (simp add: footprint_def rev_map [symmetric] sum_list_rev)
  also have "map (unat \<circ> fst) (rev (zip dims strides)) = rev (map unat dims)"
    using assms(2) by (metis map_fst_zip map_map rev_map)
  finally show ?thesis by (simp add: prod_list.rev)
qed

text \<open>A shape that matches its family is the family's dimensions at the given token count.\<close>

definition realized_dims :: "family_state \<Rightarrow> u64 \<Rightarrow> u64 list" where
  "realized_dims f tokens = map (\<lambda>d. case d of Token \<Rightarrow> tokens | Fixed v \<Rightarrow> v) (fs_dimensions f)"

lemma validate_shape_ok:
  assumes "validate_shape s f tokens = Inr ()" and "ok_shape s"
  shows "shape_dims s = realized_dims f tokens"
    "\<And>i. i < length (fs_dimensions f) \<Longrightarrow> (i = unat (fs_token_axis f)) = (fs_dimensions f ! i = Token)"
proof -
  from assms(1) have rank: "length (shape_dims s) = length (fs_dimensions f)"
    using ok_shape_dims(4) [OF assms(2)] by (simp add: validate_shape_def split: if_splits)
  have entry: "shape_dims s ! i = (case fs_dimensions f ! i of Token \<Rightarrow> tokens | Fixed v \<Rightarrow> v)
      \<and> (i = unat (fs_token_axis f)) = (fs_dimensions f ! i = Token)" if "i < length (fs_dimensions f)" for i
  proof -
    have "(i, shape_dims s ! i, fs_dimensions f ! i)
        \<in> set (enumerate 0 (zip (shape_dims s) (fs_dimensions f)))"
      using that rank by (auto simp: in_set_enumerate_eq)
    with assms(1) show ?thesis
      by (fastforce simp: validate_shape_def ok_iff Let_def split: if_splits)
  qed
  then show "shape_dims s = realized_dims f tokens"
    using rank by (auto simp: realized_dims_def intro: nth_equalityI)
  show "(i = unat (fs_token_axis f)) = (fs_dimensions f ! i = Token)" if "i < length (fs_dimensions f)" for i
    using entry [OF that] by simp
qed

lemma footprint_sum:
  "length strides = length dims \<Longrightarrow>
     footprint dims strides = (\<Sum>i < length dims. (unat (dims ! i) - 1) * unat (strides ! i)) + 1"
  by (simp add: footprint_def sum_list_sum_nth atLeast0LessThan)

text \<open>Cutting the first tokens off a state moves its footprint by whole token strides.\<close>

lemma footprint_tail:
  assumes axis: "\<And>i. i < length (fs_dimensions f) \<Longrightarrow> (i = a) = (fs_dimensions f ! i = Token)"
    and "a < length (fs_dimensions f)" and "length strides = length (fs_dimensions f)"
    and "unat n = k + unat m" and "m \<noteq> 0"
  shows "footprint (realized_dims f n) strides = footprint (realized_dims f m) strides + k * unat (strides ! a)"
proof -
  let ?n = "length (fs_dimensions f)"
  let ?contrib = "\<lambda>t i. (unat (realized_dims f t ! i) - 1) * unat (strides ! i)"
  have "?contrib n i = ?contrib m i" if "i \<in> {..<?n} - {a}" for i
    using that axis [of i] by (auto simp: realized_dims_def split: static_dimension.splits)
  then have rest: "(\<Sum>i \<in> {..<?n} - {a}. ?contrib n i) = (\<Sum>i \<in> {..<?n} - {a}. ?contrib m i)"
    by (rule sum.cong [OF refl])
  have "realized_dims f t ! a = t" for t
    using axis [of a] assms(2) by (simp add: realized_dims_def)
  moreover have "k + unat m - 1 = k + (unat m - 1)" using assms(5) by (simp add: Suc_le_eq unat_gt_0)
  ultimately have "?contrib n a = ?contrib m a + k * unat (strides ! a)"
    using assms(4) by (simp add: add_mult_distrib)
  moreover have "(\<Sum>i < ?n. ?contrib t i) = ?contrib t a + (\<Sum>i \<in> {..<?n} - {a}. ?contrib t i)" for t
    using assms(2) by (intro sum.remove) auto
  ultimately show ?thesis
    using rest assms(3) by (simp add: footprint_sum realized_dims_def)
qed

section \<open>The concrete manifest is accepted\<close>

lemma sample_dependencies: "validate_dependencies (rf_states sample_family) = Inr ()"
proof (subst validate_dependencies_ok)
  show "sorted_wrt (<) (map fs_key (rf_states sample_family))"
    by (simp add: sample_defs less_state_key_def)
  have "{(fs_key s, d) | s d. s \<in> set (rf_states sample_family) \<and> d \<in> set (fs_dependencies s)}
      = {(StateKey 0 [118], StateKey 0 [107])}"
    by (force simp: sample_defs)
  then show "(\<forall>s \<in> set (rf_states sample_family). fs_key s \<notin> set (fs_dependencies s)
        \<and> set (fs_dependencies s) \<subseteq> fs_key ` set (rf_states sample_family) \<and> sorted_wrt (<) (fs_dependencies s))
     \<and> acyclic {(fs_key s, d) | s d. s \<in> set (rf_states sample_family) \<and> d \<in> set (fs_dependencies s)}"
    by (simp add: sample_defs acyclic_insert) (simp add: acyclic_def)
qed

lemma sample_family_valid: "validate_family sample_family = Inr ()"
  using sample_dependencies
  by (simp add: sample_defs validate_family_def validate_family_state_def validate_state_key_def
      token_dimensions_def checked_product_def checked_mul_def Let_def
      wire_consts less_eq_state_key_def enumerate_eq_zip)

lemma sample_valid:
  assumes "validate_atomic_groups (sample_manifest groups) = Inr ()"
  shows "validate_manifest (sample_manifest groups) default_bounds = Inr ()"
proof -
  have "validate_family (cm_family (sample_manifest groups)) = Inr ()"
    using sample_family_valid by (simp add: sample_manifest_def)
  moreover have "validate_manifest_identity (sample_manifest groups) = Inr ()"
    by (simp add: sample_defs validate_manifest_identity_def Let_def)
  ultimately show ?thesis
    using assms
    by (simp add: validate_manifest_def Let_def sample_defs default_bounds_def wire_consts
        validate_state_def state_range_def validate_state_layout_def validate_shape_def
        shape_rank_def shape_dims_def enumerate_eq_zip stride_step_def validate_state_bytes_def element_count_def
        physical_footprint_def footprint_step_def validate_state_chunks_def chunk_step_def
        checked_mul_def checked_add_def checked_sub_def)
qed

lemma sample_manifest_valid: "validate_manifest (sample_manifest sample_groups) default_bounds = Inr ()"
  by (rule sample_valid)
    (simp add: sample_defs validate_atomic_groups_def Let_def group_step_def group_state_step_def
      less_eq_state_key_def insert_commute)

section \<open>Properties\<close>

lemma manifest_token_range:
  assumes "validate_manifest m bounds = Inr ()"
    and "cut_range (rc_kind (cm_realized_schema m)) (cm_input_cut m) = Inr tc"
    and "state_range m tc f r = Inr (start, count)"
  shows "unat start + unat count = unat (ic_token_count (cm_input_cut m))" "count \<noteq> 0"
proof -
  have tokens: "ic_token_count (cm_input_cut m) \<noteq> 0"
    using assms(1) by (auto simp: validate_manifest_def validate_manifest_identity_def Let_def ok_iff)
  have tc: "unat (fst tc) + unat (snd tc) = unat (ic_token_count (cm_input_cut m)) \<and> snd tc \<noteq> 0"
    using assms(2) tokens
    by (cases "rc_kind (cm_realized_schema m)") (auto simp: ok_iff not_le unat_sub_if' word_less_nat_alt)
  show "unat start + unat count = unat (ic_token_count (cm_input_cut m))" "count \<noteq> 0"
    using assms(3) tc by (auto simp: state_range_def Let_def ok_iff not_less unat_sub_if' word_le_nat_alt
      split: if_splits)
qed

lemma state_layout_ok:
  assumes "validate_state_layout m (start, count) f r = Inr ()"
    and "ok_shape (rs_full_shape r)" and "ok_shape (rs_segment_shape r)"
  shows "shape_dims (rs_full_shape r) = realized_dims f
      (if fs_token_axis_rule f = TailWindow then count else ic_token_count (cm_input_cut m))"
    "shape_dims (rs_segment_shape r) = realized_dims f count"
    "\<And>i. i < length (fs_dimensions f) \<Longrightarrow> (i = unat (fs_token_axis f)) = (fs_dimensions f ! i = Token)"
    "rs_logical_start r = start" "rs_logical_count r = count"
    "length (rs_strides r) = length (fs_dimensions f)"
    "fs_layout f = Contiguous \<Longrightarrow> footprint (shape_dims (rs_full_shape r)) (rs_strides r)
       = prod_list (map unat (shape_dims (rs_full_shape r)))"
proof -
  note facts = assms(1) [unfolded validate_state_layout_def prod.case Let_def]
  from facts have full: "validate_shape (rs_full_shape r) f
      (if fs_token_axis_rule f = TailWindow then count else ic_token_count (cm_input_cut m)) = Inr ()"
    and seg: "validate_shape (rs_segment_shape r) f count = Inr ()"
    and "rs_logical_start r = start" "rs_logical_count r = count"
    and strides: "length (rs_strides r) = length (shape_dims (rs_full_shape r))"
    using ok_shape_dims(4) [OF assms(2)] by (auto simp: ok_iff)
  then show "rs_logical_start r = start" "rs_logical_count r = count" by auto
  show dims: "shape_dims (rs_full_shape r) = realized_dims f
      (if fs_token_axis_rule f = TailWindow then count else ic_token_count (cm_input_cut m))"
    and "shape_dims (rs_segment_shape r) = realized_dims f count"
    and "\<And>i. i < length (fs_dimensions f) \<Longrightarrow> (i = unat (fs_token_axis f)) = (fs_dimensions f ! i = Token)"
    using validate_shape_ok [OF full assms(2)] validate_shape_ok [OF seg assms(3)] by auto
  show "length (rs_strides r) = length (fs_dimensions f)"
    using strides dims by (simp add: realized_dims_def)
  show "footprint (shape_dims (rs_full_shape r)) (rs_strides r)
       = prod_list (map unat (shape_dims (rs_full_shape r)))" if "fs_layout f = Contiguous"
    using facts that strides ok_shape_dims(3) [OF assms(2)]
    by (auto simp: ok_iff intro: contiguous_footprint)
qed

text \<open>Property C2.  In an accepted manifest the chunk spans of every state partition its token
  range and its plaintext byte range: every token of the state, and every byte of its plaintext,
  lies in exactly one chunk.\<close>

theorem validated_chunks_partition:
  assumes "validate_manifest m bounds = Inr ()" and "i < length (cm_states m)"
    and "r = rc_states (cm_realized_schema m) ! i" and "f = rf_states (cm_family m) ! i"
    and "bpt = unat (fs_elements_per_token f) * unat (the (width_bytes (fs_dtype f)))"
    and "ok_shape (rs_full_shape r)" and "ok_shape (rs_segment_shape r)"
  shows "(\<forall>t. unat (rs_logical_start r) \<le> t \<and> t < unat (rs_logical_start r) + unat (rs_logical_count r) \<longrightarrow>
       (\<exists>!j. j < length (rs_chunk_spans r) \<and> unat (cs_token_start (rs_chunk_spans r ! j)) \<le> t
          \<and> t < unat (cs_token_start (rs_chunk_spans r ! j)) + unat (cs_token_count (rs_chunk_spans r ! j))))
    \<and> (\<forall>x. unat (rs_logical_start r) * bpt \<le> x
          \<and> x < (unat (rs_logical_start r) + unat (rs_logical_count r)) * bpt \<longrightarrow>
       (\<exists>!j. j < length (rs_chunk_spans r) \<and> unat (cs_plaintext_offset (rs_chunk_spans r ! j)) \<le> x
          \<and> x < unat (cs_plaintext_offset (rs_chunk_spans r ! j))
              + unat (cs_plaintext_bytes (rs_chunk_spans r ! j))))"
proof -
  from validate_manifest_state [OF assms(1,2)] assms(3,4) obtain tc a b a' b' where
    "validate_state bounds m tc (a, b) (f, r, cm_states m ! i) = Inr (a', b')" by metis
  from validate_state_ok [OF this] obtain start count width where
    layout: "validate_state_layout m (start, count) f r = Inr ()"
    and width: "width_bytes (fs_dtype f) = Some width"
    and chunks: "validate_state_chunks bounds (start, count) f r (cm_states m ! i) width = Inr ()"
    by metis
  note range = state_layout_ok(4,5) [OF layout assms(6,7)]
  note tile = state_chunks_tile [OF chunks]
  show ?thesis
    using tiles_cover [OF conjunct1 [OF tile]] tiles_cover [OF conjunct2 [OF tile]]
    by (auto simp: range assms(5) width cong: conj_cong)
qed

theorem validated_chunks_partition_witness:
  "\<exists>!j. j < length (rs_chunk_spans (sample_realized [118]))
     \<and> unat (cs_token_start (rs_chunk_spans (sample_realized [118]) ! j)) \<le> 2
     \<and> 2 < unat (cs_token_start (rs_chunk_spans (sample_realized [118]) ! j))
          + unat (cs_token_count (rs_chunk_spans (sample_realized [118]) ! j))"
  using validated_chunks_partition [OF sample_manifest_valid, of 1 "sample_realized [118]"
      "sample_state [118] [StateKey 0 [107]]", OF _ _ _ refl, THEN conjunct1, THEN spec, of 2]
  by (simp add: sample_defs sample_shape_ok [unfolded sample_shape_def])

text \<open>Property C26.  In an accepted manifest the physical segment of every state ends exactly where
  its complete physical allocation ends: offset plus span is the complete footprint, so the
  segment never reaches outside the allocation.\<close>

theorem validated_segment_in_allocation:
  assumes "validate_manifest m bounds = Inr ()" and "i < length (cm_states m)"
    and "r = rc_states (cm_realized_schema m) ! i"
    and "ok_shape (rs_full_shape r)" and "ok_shape (rs_segment_shape r)"
  shows "unat (rs_physical_offset_bytes r) + unat (rs_physical_span_bytes r)
    = unat (rs_complete_physical_bytes r)"
proof -
  define f where "f = rf_states (cm_family m) ! i"
  from validate_manifest_state [OF assms(1,2)] obtain tc a b a' b' where
    tc: "cut_range (rc_kind (cm_realized_schema m)) (cm_input_cut m) = Inr tc"
    and "validate_state bounds m tc (a, b) (f, r, cm_states m ! i) = Inr (a', b')"
    unfolding f_def assms(3) by metis
  from validate_state_ok [OF this(2)] obtain start count width seg whole where
    rng: "state_range m tc f r = Inr (start, count)"
    and layout: "validate_state_layout m (start, count) f r = Inr ()"
    and bytes: "validate_state_bytes (start, count) f r width = Inr (seg, whole)"
    by metis
  note tokens = manifest_token_range [OF assms(1) tc rng]
  note lay = state_layout_ok [OF layout assms(4,5)]
  from validate_manifest_ok [OF assms(1)] have fam: "validate_family (cm_family m) = Inr ()"
    and len: "length (cm_states m) = length (rf_states (cm_family m))" by metis+
  with validate_family_ok(5) [OF fam, of i] assms(2) have axis: "unat (fs_token_axis f) < length (fs_dimensions f)"
    by (auto simp: family_state_valid_def validate_family_state_def f_def Let_def ok_iff not_le)
  let ?stride = "unat (rs_strides r ! unat (fs_token_axis f))"
  have "footprint (shape_dims (rs_full_shape r)) (rs_strides r)
      = footprint (shape_dims (rs_segment_shape r)) (rs_strides r)
        + (if fs_token_axis_rule f = TailWindow then 0 else unat start) * ?stride"
    using footprint_tail [OF lay(3) axis lay(6) tokens(1) [symmetric] tokens(2)] lay(1,2) by simp
  moreover from validate_state_bytes_ok [OF bytes] have
    "unat (rs_physical_offset_bytes r) =
       (if fs_token_axis_rule f = TailWindow then 0 else unat start) * ?stride * unat width"
    "unat (rs_physical_span_bytes r) = footprint (shape_dims (rs_segment_shape r)) (rs_strides r) * unat width"
    "unat (rs_complete_physical_bytes r) = footprint (shape_dims (rs_full_shape r)) (rs_strides r) * unat width"
    by (metis physical_footprint_ok)+
  ultimately show ?thesis by (simp add: add_mult_distrib)
qed

theorem validated_segment_in_allocation_witness:
  "unat (rs_physical_offset_bytes (sample_realized [118])) + unat (rs_physical_span_bytes (sample_realized [118]))
    = unat (rs_complete_physical_bytes (sample_realized [118]))"
  using validated_segment_in_allocation [OF sample_manifest_valid, of 1 "sample_realized [118]"]
  by (simp add: sample_defs sample_shape_ok [unfolded sample_shape_def])

text \<open>Property C28.  The totals of an accepted manifest are exact: the segment and complete restored
  bytes are the sums over all states of elements times element width, with no wrap-around, and the
  complete total respects the caller's bound.\<close>

theorem validated_totals_exact:
  assumes "validate_manifest m bounds = Inr ()"
  shows "unat (rc_segment_restored_bytes (cm_realized_schema m)) =
      (\<Sum>i < length (cm_states m). dense_bytes (rs_segment_shape (rc_states (cm_realized_schema m) ! i))
         (fs_dtype (rf_states (cm_family m) ! i)))
    \<and> unat (rc_complete_restored_bytes (cm_realized_schema m)) =
      (\<Sum>i < length (cm_states m). dense_bytes (rs_full_shape (rc_states (cm_realized_schema m) ! i))
         (fs_dtype (rf_states (cm_family m) ! i)))
    \<and> rc_complete_restored_bytes (cm_realized_schema m) \<le> mb_max_restored_bytes bounds"
proof -
  from validate_manifest_ok [OF assms] obtain tc seg whole where
    len: "length (rc_states (cm_realized_schema m)) = length (rf_states (cm_family m))"
      "length (cm_states m) = length (rf_states (cm_family m))"
    and fold: "try_fold (validate_state bounds m tc) (0, 0) (zip (rf_states (cm_family m))
       (zip (rc_states (cm_realized_schema m)) (cm_states m))) = Inr (seg, whole)"
    and totals: "rc_segment_restored_bytes (cm_realized_schema m) = seg"
      "rc_complete_restored_bytes (cm_realized_schema m) = whole" "whole \<le> mb_max_restored_bytes bounds"
    by metis
  from totals_fold [OF fold] totals len show ?thesis
    by (simp add: sum_list_sum_nth atLeast0LessThan)
qed

theorem validated_totals_exact_witness:
  "unat (rc_complete_restored_bytes (cm_realized_schema (sample_manifest sample_groups))) =
     (\<Sum>i < length (cm_states (sample_manifest sample_groups)).
        dense_bytes (rs_full_shape (rc_states (cm_realized_schema (sample_manifest sample_groups)) ! i))
         (fs_dtype (rf_states (cm_family (sample_manifest sample_groups)) ! i)))"
  using validated_totals_exact [OF sample_manifest_valid] by blast

lemma distinct_concat_index:
  assumes "distinct (concat xss)" and "i < length xss" "j < length xss"
    and "x \<in> set (xss ! i)" "x \<in> set (xss ! j)"
  shows "i = j"
  using assms
proof (induction xss arbitrary: i j)
  case (Cons xs xss)
  have "x \<notin> set (xss ! k)" if "x \<in> set xs" "k < length xss" for k
    using Cons(2) that nth_mem [OF that(2)] by (auto simp: disjoint_iff)
  with Cons show ?case by (cases i; cases j) auto
qed simp

lemma distinct_concat_unique:
  assumes "distinct (concat xss)" and "x \<in> set (concat xss)"
  shows "\<exists>!j. j < length xss \<and> x \<in> set (xss ! j)"
proof -
  obtain j where "j < length xss" "x \<in> set (xss ! j)"
    using assms(2) by (auto simp: in_set_conv_nth [of _ xss])
  then show ?thesis using distinct_concat_index [OF assms(1)] by blast
qed

text \<open>The atomic groups of an accepted manifest partition the family: every state of
  the family belongs to exactly one group, no group names another state, and the group ids are
  nonzero and strictly ascending.\<close>

theorem validated_groups_partition:
  assumes "validate_manifest m bounds = Inr ()"
    and "groups = rc_atomic_groups (cm_realized_schema m)"
  shows "(\<forall>s \<in> set (rf_states (cm_family m)). \<exists>!j. j < length groups \<and> fs_key s \<in> set (ag_states (groups ! j)))
    \<and> (\<forall>g \<in> set groups. set (ag_states g) \<subseteq> fs_key ` set (rf_states (cm_family m)))
    \<and> sorted_wrt (<) (0 # map ag_id groups)"
proof -
  from validate_manifest_ok [OF assms(1)] have "validate_atomic_groups m = Inr ()" by metis
  note ok = validate_atomic_groups_ok [OF this, folded assms(2)]
  have "\<exists>!j. j < length groups \<and> fs_key s \<in> set (ag_states (groups ! j))"
    if "s \<in> set (rf_states (cm_family m))" for s
  proof -
    have "fs_key s \<in> set (concat (map ag_states groups))" unfolding ok(3) using that by simp
    from distinct_concat_unique [OF ok(2) this] show ?thesis by (simp cong: conj_cong)
  qed
  moreover have "set (ag_states g) \<subseteq> fs_key ` set (rf_states (cm_family m))" if "g \<in> set groups" for g
    using ok(3) that by auto
  ultimately show ?thesis using ok(1) by blast
qed

theorem validated_groups_partition_witness:
  "\<exists>!j. j < length sample_groups \<and> StateKey 0 [118] \<in> set (ag_states (sample_groups ! j))"
  using validated_groups_partition [OF sample_manifest_valid, of sample_groups]
  by (simp add: sample_defs)

text \<open>Property C15.  On a family in canonical key order the dependency check accepts exactly the
  graphs that are closed, canonically ordered and acyclic.\<close>

theorem validate_dependencies_iff:
  assumes "sorted_wrt (<) (map fs_key states)"
  shows "validate_dependencies states = Inr () \<longleftrightarrow>
     (\<forall>s \<in> set states. set (fs_dependencies s) \<subseteq> fs_key ` set states
        \<and> sorted_wrt (<) (fs_dependencies s))
     \<and> acyclic {(fs_key s, d) | s d. s \<in> set states \<and> d \<in> set (fs_dependencies s)}"
    (is "_ \<longleftrightarrow> _ \<and> acyclic ?E")
proof -
  have "fs_key s \<notin> set (fs_dependencies s)" if "acyclic ?E" "s \<in> set states" for s
  proof
    assume "fs_key s \<in> set (fs_dependencies s)"
    then have "(fs_key s, fs_key s) \<in> ?E" using that(2) by auto
    then show False using that(1) by (auto simp: acyclic_def)
  qed
  then show ?thesis unfolding validate_dependencies_ok [OF assms] by blast
qed

theorem validate_dependencies_iff_witness:
  "acyclic {(fs_key s, d) | s d. s \<in> set (rf_states sample_family) \<and> d \<in> set (fs_dependencies s)}"
  using validate_dependencies_iff [OF validate_family_ok(3) [OF sample_family_valid]]
    sample_dependencies by simp

text \<open>A contiguous state of an accepted manifest is stored without holes: its
  complete physical allocation is exactly its elements times the element width.\<close>

theorem validated_contiguous_dense:
  assumes "validate_manifest m bounds = Inr ()" and "i < length (cm_states m)"
    and "r = rc_states (cm_realized_schema m) ! i" and "f = rf_states (cm_family m) ! i"
    and "fs_layout f = Contiguous"
    and "ok_shape (rs_full_shape r)" and "ok_shape (rs_segment_shape r)"
  shows "unat (rs_complete_physical_bytes r) = dense_bytes (rs_full_shape r) (fs_dtype f)"
proof -
  from validate_manifest_state [OF assms(1,2)] obtain tc a b a' b' where
    "validate_state bounds m tc (a, b) (f, r, cm_states m ! i) = Inr (a', b')"
    unfolding assms(3,4) by metis
  from validate_state_ok [OF this] obtain start count width seg whole where
    layout: "validate_state_layout m (start, count) f r = Inr ()"
    and width: "width_bytes (fs_dtype f) = Some width"
    and bytes: "validate_state_bytes (start, count) f r width = Inr (seg, whole)"
    by metis
  from validate_state_bytes_ok [OF bytes] have
    "unat (rs_complete_physical_bytes r) = footprint (shape_dims (rs_full_shape r)) (rs_strides r) * unat width"
    by (metis physical_footprint_ok)
  with state_layout_ok(7) [OF layout assms(6,7,5)] width show ?thesis by (simp add: dense_bytes_def)
qed

theorem validated_contiguous_dense_witness:
  "unat (rs_complete_physical_bytes (sample_realized [118])) = dense_bytes sample_shape F16"
  using validated_contiguous_dense [OF sample_manifest_valid, of 1 "sample_realized [118]"
      "sample_state [118] [StateKey 0 [107]]"]
  by (simp add: sample_defs sample_shape_ok [unfolded sample_shape_def])

end
