(* ===== verification/Validated_Wire.thy ===== *)
theory Validated_Wire
  imports Validator
begin

text \<open>
  The link between the two gates a manifest passes: the semantic validator of
  \<^verbatim>\<open>kvpack-core/src/validator.rs\<close> and the canonical codec of \<^verbatim>\<open>manifest.rs\<close>.  A manifest the validator
  accepts is one the codec can carry, except for two counts the validator does not look at, the
  dependencies of a state and the members of an atomic group.
\<close>

section \<open>Validation and the wire\<close>

text \<open>What the Rust types of a manifest guarantee by themselves: identities are 32 bytes, state
  names are UTF-8, shapes come from \<^verbatim>\<open>Shape::new\<close>.\<close>

definition typed_manifest :: "cut_manifest \<Rightarrow> bool" where
  "typed_manifest m \<longleftrightarrow>
     length (cm_tenant_namespace m) = 32 \<and> ok_semantic (cm_semantic_model m) \<and>
     ok_input_cut (cm_input_cut m) \<and> ok_kind (rc_kind (cm_realized_schema m)) \<and>
     length (rf_engine_cache_abi (cm_family m)) = 32 \<and> length (rf_topology (cm_family m)) = 32 \<and>
     length (rf_shard_map (cm_family m)) = 32 \<and>
     list_all (\<lambda>s. valid_utf8 (sk_name (fs_key s))) (rf_states (cm_family m)) \<and>
     list_all (\<lambda>r. ok_shape (rs_full_shape r) \<and> ok_shape (rs_segment_shape r))
       (rc_states (cm_realized_schema m)) \<and>
     list_all (\<lambda>p. list_all ok_ref (st_chunks p)) (cm_states m)"

lemma family_state_valid_ok:
  assumes "family_state_valid mode s"
  shows "fs_dimensions s \<noteq> []" "length (fs_dimensions s) \<le> MAX_RANK"
    "list_all ok_dimension (fs_dimensions s)" "length (sk_name (fs_key s)) \<le> MAX_STATE_NAME_BYTES"
proof -
  from assms obtain prev r e where step: "validate_family_state mode prev s = Inr r"
    and e: "checked_product (fixed_dimensions (fs_dimensions s)) ''family elements-per-token overflows u64'' = Inr e"
      "e \<noteq> 0"
    by (auto simp: family_state_valid_def validate_family_state_def Let_def ok_iff)
  from step show "fs_dimensions s \<noteq> []" "length (fs_dimensions s) \<le> MAX_RANK"
    "length (sk_name (fs_key s)) \<le> MAX_STATE_NAME_BYTES"
    by (auto simp: validate_family_state_def validate_state_key_def Let_def ok_iff not_less)
  have "0 \<notin> set (fixed_dimensions (fs_dimensions s))"
    using checked_product_ok [OF e(1)] e(2) by (force simp: prod_list_zero_iff unat_eq_zero [symmetric])
  moreover have "Fixed v \<in> set ds \<Longrightarrow> v \<in> set (fixed_dimensions ds)" for v ds
    by (induction ds rule: fixed_dimensions.induct) auto
  ultimately show "list_all ok_dimension (fs_dimensions s)"
    by (auto simp: list_all_iff ok_dimension_def)
qed

lemma group_count_bound:
  "distinct (concat xss) \<Longrightarrow> [] \<notin> set xss \<Longrightarrow> length xss \<le> length (concat xss)"
proof (induction xss)
  case (Cons xs xss)
  then show ?case by (cases xs) auto
qed simp

lemma validated_state_keys:
  assumes "validate_manifest m bounds = Inr ()" and "i < length (cm_states m)"
    and "ok_shape (rs_full_shape (rc_states (cm_realized_schema m) ! i))"
    and "ok_shape (rs_segment_shape (rc_states (cm_realized_schema m) ! i))"
    and "mb_max_chunks_per_state bounds \<le> MAX_CHUNKS_PER_STATE"
  shows "rs_key (rc_states (cm_realized_schema m) ! i) = fs_key (rf_states (cm_family m) ! i)"
    "st_key (cm_states m ! i) = fs_key (rf_states (cm_family m) ! i)"
    "length (rs_strides (rc_states (cm_realized_schema m) ! i))
       = length (fs_dimensions (rf_states (cm_family m) ! i))"
    "rs_chunk_spans (rc_states (cm_realized_schema m) ! i) \<noteq> []"
    "length (rs_chunk_spans (rc_states (cm_realized_schema m) ! i)) \<le> MAX_CHUNKS_PER_STATE"
    "length (st_chunks (cm_states m ! i)) = length (rs_chunk_spans (rc_states (cm_realized_schema m) ! i))"
proof -
  from validate_manifest_state [OF assms(1,2)] obtain tc a b a' b' where
    "validate_state bounds m tc (a, b) (rf_states (cm_family m) ! i,
       rc_states (cm_realized_schema m) ! i, cm_states m ! i) = Inr (a', b')" by metis
  from validate_state_ok [OF this] obtain start count width where keys:
    "fs_key (rf_states (cm_family m) ! i) = rs_key (rc_states (cm_realized_schema m) ! i)"
    "rs_key (rc_states (cm_realized_schema m) ! i) = st_key (cm_states m ! i)"
    and layout: "validate_state_layout m (start, count) (rf_states (cm_family m) ! i)
      (rc_states (cm_realized_schema m) ! i) = Inr ()"
    and chunks: "validate_state_chunks bounds (start, count) (rf_states (cm_family m) ! i)
      (rc_states (cm_realized_schema m) ! i) (cm_states m ! i) width = Inr ()" by metis
  show "rs_key (rc_states (cm_realized_schema m) ! i) = fs_key (rf_states (cm_family m) ! i)"
    "st_key (cm_states m ! i) = fs_key (rf_states (cm_family m) ! i)" using keys by auto
  show "length (rs_strides (rc_states (cm_realized_schema m) ! i))
       = length (fs_dimensions (rf_states (cm_family m) ! i))"
    using state_layout_ok(6) [OF layout assms(3,4)] .
  show "rs_chunk_spans (rc_states (cm_realized_schema m) ! i) \<noteq> []"
    "length (rs_chunk_spans (rc_states (cm_realized_schema m) ! i)) \<le> MAX_CHUNKS_PER_STATE"
    "length (st_chunks (cm_states m ! i)) = length (rs_chunk_spans (rc_states (cm_realized_schema m) ! i))"
    using chunks assms(5) by (auto simp: validate_state_chunks_def ok_iff)
qed


lemma validated_family_ok:
  assumes "validate_family f = Inr ()"
    and "length (rf_engine_cache_abi f) = 32" "length (rf_topology f) = 32" "length (rf_shard_map f) = 32"
    and "list_all (\<lambda>s. valid_utf8 (sk_name (fs_key s))) (rf_states f)"
    and "list_all (\<lambda>s. length (fs_dependencies s) \<le> MAX_DEPENDENCIES_PER_STATE) (rf_states f)"
  shows "ok_family f" "\<And>k. k \<in> fs_key ` set (rf_states f) \<Longrightarrow> ok_state_key k"
proof -
  note fam = validate_family_ok [OF assms(1)]
  have valid: "family_state_valid (rf_mode f) s" if "s \<in> set (rf_states f)" for s
    using fam(5) that by (metis in_set_conv_nth)
  have key: "ok_state_key (fs_key s)" if "s \<in> set (rf_states f)" for s
    using family_state_valid_ok(4) [OF valid [OF that]] assms(5) that
    by (auto simp: ok_state_key_def ok_string_def list_all_iff wire_consts)
  then show "\<And>k. k \<in> fs_key ` set (rf_states f) \<Longrightarrow> ok_state_key k" by auto
  have "set (fs_dependencies s) \<subseteq> fs_key ` set (rf_states f)" if "s \<in> set (rf_states f)" for s
    using validate_dependencies_ok [OF fam(3)] fam(4) that by blast
  then have deps: "list_all ok_state_key (fs_dependencies s)" if "s \<in> set (rf_states f)" for s
    using key that by (fastforce simp: list_all_iff)
  have "ok_family_state s" if "s \<in> set (rf_states f)" for s
    using family_state_valid_ok(1-3) [OF valid [OF that]] key [OF that] deps [OF that] assms(6) that
    by (simp add: ok_family_state_def list_all_iff)
  then show "ok_family f"
    using fam(1,2) assms(2-4) by (simp add: ok_family_def list_all_iff)
qed

lemma validated_groups_ok:
  assumes "validate_atomic_groups m = Inr ()"
    and "\<And>k. k \<in> fs_key ` set (rf_states (cm_family m)) \<Longrightarrow> ok_state_key k"
    and "rf_states (cm_family m) \<noteq> []" "length (rf_states (cm_family m)) \<le> MAX_STATES"
    and "groups = rc_atomic_groups (cm_realized_schema m)"
    and "list_all (\<lambda>g. ag_states g \<noteq> []) groups"
  shows "groups \<noteq> []" "length groups \<le> MAX_ATOMIC_GROUPS" "list_all ok_group groups"
proof -
  note ok = validate_atomic_groups_ok [OF assms(1), folded assms(5)]
  have "card (fs_key ` set (rf_states (cm_family m))) \<le> length (rf_states (cm_family m))"
    using card_image_le [of "set (rf_states (cm_family m))" fs_key] card_length [of "rf_states (cm_family m)"]
    by simp
  then have total: "length (concat (map ag_states groups)) \<le> MAX_STATES"
    using distinct_card [OF ok(2)] ok(3) assms(4) by simp
  show "groups \<noteq> []" using ok(3) assms(3) by auto
  have "length (map ag_states groups) \<le> length (concat (map ag_states groups))"
    using assms(6) by (intro group_count_bound [OF ok(2)]) (auto simp: list_all_iff)
  with total show "length groups \<le> MAX_ATOMIC_GROUPS" by (simp add: wire_consts)
  have "ok_group g" if "g \<in> set groups" for g
  proof -
    have "distinct (ag_states g)" and sub: "set (ag_states g) \<subseteq> fs_key ` set (rf_states (cm_family m))"
      using ok(2,3) that by (auto simp: distinct_concat_iff)
    have "length (ag_states g) \<le> length (concat (map ag_states groups))"
      using that by (induction groups) auto
    with total sub assms(2,6) that show ?thesis by (auto simp: ok_group_def list_all_iff)
  qed
  then show "list_all ok_group groups" by (simp add: list_all_iff)
qed

text \<open>Everything but the atomic groups of an accepted, well-typed manifest is encodable.\<close>

lemma validated_parts_ok:
  assumes "validate_manifest m bounds = Inr ()" and "typed_manifest m"
    and "mb_max_chunks_per_state bounds \<le> MAX_CHUNKS_PER_STATE"
    and "list_all (\<lambda>s. length (fs_dependencies s) \<le> MAX_DEPENDENCIES_PER_STATE) (rf_states (cm_family m))"
  shows "ok_family (cm_family m)" "\<And>k. k \<in> fs_key ` set (rf_states (cm_family m)) \<Longrightarrow> ok_state_key k"
    "rf_states (cm_family m) \<noteq> []" "length (rf_states (cm_family m)) \<le> MAX_STATES"
    "rc_states (cm_realized_schema m) \<noteq> []" "length (rc_states (cm_realized_schema m)) \<le> MAX_STATES"
    "cm_states m \<noteq> []" "length (cm_states m) \<le> MAX_STATES"
    "list_all ok_realized (rc_states (cm_realized_schema m))" "list_all ok_state_manifest (cm_states m)"
    "validate_atomic_groups m = Inr ()"
proof -
  from validate_manifest_ok [OF assms(1)] have fam: "validate_family (cm_family m) = Inr ()"
    and groups: "validate_atomic_groups m = Inr ()"
    and len: "length (rc_states (cm_realized_schema m)) = length (rf_states (cm_family m))"
      "length (cm_states m) = length (rf_states (cm_family m))" by metis+
  note typed = assms(2) [unfolded typed_manifest_def]
  show ok_fam: "ok_family (cm_family m)"
    and key: "\<And>k. k \<in> fs_key ` set (rf_states (cm_family m)) \<Longrightarrow> ok_state_key k"
    using validated_family_ok [OF fam] typed assms(4) by auto
  note fam_ok = validate_family_ok [OF fam]
  have shapes: "ok_shape (rs_full_shape (rc_states (cm_realized_schema m) ! i))"
    "ok_shape (rs_segment_shape (rc_states (cm_realized_schema m) ! i))" if "i < length (cm_states m)" for i
    using typed that len by (auto simp: list_all_length)
  have state: "ok_realized (rc_states (cm_realized_schema m) ! i)" "ok_state_manifest (cm_states m ! i)"
    if i: "i < length (cm_states m)" for i
  proof -
    note st = validated_state_keys [OF assms(1) i shapes [OF i] assms(3)]
    have rank: "length (fs_dimensions (rf_states (cm_family m) ! i)) \<le> MAX_RANK"
      using fam_ok(5) [of i] family_state_valid_ok(2) i len by metis
    have "ok_state_key (fs_key (rf_states (cm_family m) ! i))" using key i len by simp
    with st rank shapes [OF i] typed i show "ok_realized (rc_states (cm_realized_schema m) ! i)"
      "ok_state_manifest (cm_states m ! i)"
      by (auto simp: ok_realized_def ok_state_manifest_def list_all_length)
  qed
  then show "list_all ok_realized (rc_states (cm_realized_schema m))" "list_all ok_state_manifest (cm_states m)"
    using len by (auto simp: list_all_length)
  show "rf_states (cm_family m) \<noteq> []" "length (rf_states (cm_family m)) \<le> MAX_STATES"
    "rc_states (cm_realized_schema m) \<noteq> []" "length (rc_states (cm_realized_schema m)) \<le> MAX_STATES"
    "cm_states m \<noteq> []" "length (cm_states m) \<le> MAX_STATES" "validate_atomic_groups m = Inr ()"
    using fam_ok(1,2) len groups by auto
qed

text \<open>An empty group is written and then refused.\<close>

lemma group_emits:
  assumes "list_all ok_state_key (ag_states g)" and "length (ag_states g) \<le> MAX_STATES"
  shows "\<exists>bs. emits (enc_group g) bs"
proof -
  obtain cs where cs: "emits (enc_seq (map enc_state_key (ag_states g))) cs"
    using state_key_codec.round_list [OF assms(1) refl] by (auto simp: codes_def)
  have "length (ag_states g) < 2 ^ 32" using assms(2) by (simp add: wire_consts)
  then have "emits (enc_try (try_from_usize (length (ag_states g)) ''too many atomic-group states'') enc_u32)
      (to_le_bytes (of_nat (length (ag_states g)) :: u32))" by simp
  then have "emits (enc_group g) (to_le_bytes (ag_id g) @ to_le_bytes (of_nat (length (ag_states g)) :: u32)
      @ cs @ [])"
    unfolding enc_group_def by (intro emits_Cons emits_Nil cs) simp
  then show ?thesis ..
qed

lemma groups_emit:
  "\<forall>g \<in> set gs. \<exists>bs. emits (enc_group g) bs \<Longrightarrow> \<exists>bs. emits (enc_seq (map enc_group gs)) bs"
proof (induction gs)
  case Nil
  then show ?case using emits_Nil by auto
next
  case (Cons g gs)
  then show ?case using emits_Cons by (metis list.set_intros(1) list.set_intros(2) list.simps(9))
qed

lemma empty_group_rejected:
  assumes "ag_states g = []"
  shows "rejects (enc_group g) dec_group"
  unfolding enc_group_def dec_group_def assms
  by (rule rejects_bind [OF codes_prims(3)], rule rejects_bind [OF codes_count32])
    (simp_all add: rejects_dfail [OF emits_Cons [OF emits_Nil emits_Nil]])

lemma groups_rejected:
  assumes "\<forall>g \<in> set gs. list_all ok_state_key (ag_states g) \<and> length (ag_states g) \<le> MAX_STATES"
    and "\<exists>g \<in> set gs. ag_states g = []"
  shows "rejects (enc_seq (map enc_group gs)) (dec_times (length gs) dec_group)"
proof -
  obtain xs y zs where gs: "gs = xs @ y # zs" and y: "ag_states y = []" and xs: "\<forall>g \<in> set xs. ag_states g \<noteq> []"
    using split_list_first_prop [OF assms(2)] by blast
  have "list_all ok_group xs"
    using assms(1) xs gs by (auto simp: list_all_iff ok_group_def)
  moreover obtain cs where "emits (enc_seq (map enc_group zs)) cs"
    using groups_emit [of zs] group_emits assms(1) gs by auto
  ultimately show ?thesis
    unfolding gs by (rule group_codec.rejects_list [OF _ empty_group_rejected [OF y]])
qed

lemma schema_rejected:
  assumes "ok_kind (rc_kind s)" "rc_states s \<noteq> []" "length (rc_states s) \<le> MAX_STATES"
    and "list_all ok_realized (rc_states s)" and "length (rc_atomic_groups s) < 2 ^ 32"
    and "\<forall>g \<in> set (rc_atomic_groups s).
      list_all ok_state_key (ag_states g) \<and> length (ag_states g) \<le> MAX_STATES"
    and "\<exists>g \<in> set (rc_atomic_groups s). ag_states g = []"
  shows "rejects (schema_encode_body s) schema_decode_body"
proof -
  let ?n = "of_nat (length (rc_states s)) :: u32" and ?g = "of_nat (length (rc_atomic_groups s)) :: u32"
  have n: "unat ?n = length (rc_states s)" "length (rc_states s) < 2 ^ 32"
    and g: "unat ?g = length (rc_atomic_groups s)"
    using assms(3,5) by (simp_all add: unat_of_nat wire_consts)
  have "emits (enc_seq [enc_u64 (rc_segment_restored_bytes s), enc_u64 (rc_complete_restored_bytes s)])
      (to_le_bytes (rc_segment_restored_bytes s) @ to_le_bytes (rc_complete_restored_bytes s) @ [])"
    by (intro emits_Cons emits_Nil) simp_all
  with groups_rejected [OF assms(6,7)]
  have groups: "rejects (enc_seq (enc_seq (map enc_group (rc_atomic_groups s))
      # [enc_u64 (rc_segment_restored_bytes s), enc_u64 (rc_complete_restored_bytes s)]))
    (dbind (dec_times (length (rc_atomic_groups s)) dec_group) f)"
    for f :: "atomic_group list \<Rightarrow> realized_cut_schema_id get"
    by (rule rejects_head)
  moreover from this have "\<exists>bs. emits (enc_seq (enc_seq (map enc_group (rc_atomic_groups s))
      # [enc_u64 (rc_segment_restored_bytes s), enc_u64 (rc_complete_restored_bytes s)])) bs"
    by (auto simp: rejects_def)
  ultimately have tail: "rejects (enc_seq
      [enc_seq (map enc_group (rc_atomic_groups s)),
       enc_u64 (rc_segment_restored_bytes s), enc_u64 (rc_complete_restored_bytes s)])
     (if unat ?g = 0 \<or> unat ?g > MAX_ATOMIC_GROUPS then dfail err
      else dbind (dec_times (unat ?g) dec_group) f)"
    for err and f :: "atomic_group list \<Rightarrow> realized_cut_schema_id get"
    using g by (auto intro: rejects_dfail)
  show ?thesis
    unfolding schema_encode_body_def schema_decode_body_def
    by (rule rejects_bind [OF kind_codec.round [OF assms(1)]], rule rejects_bind [OF codes_count32 [OF n(2)]],
        unfold n(1), subst if_not_P, use assms(2,3) in simp,
        rule rejects_bind [OF realized_codec.round_list [OF assms(4) refl]],
        rule rejects_bind [OF codes_count32 [OF assms(5)]], rule tail)
qed

lemma manifest_rejected:
  assumes "typed_manifest m" and "ok_family (cm_family m)"
    and "rejects (schema_encode_body (cm_realized_schema m)) schema_decode_body"
    and "length (cm_states m) \<le> MAX_STATES" and "list_all ok_state_manifest (cm_states m)"
  shows "rejects (manifest_encode_body m) manifest_decode_body"
proof -
  note typed = assms(1) [unfolded typed_manifest_def]
  obtain cs where cs: "emits (enc_seq (map enc_state_manifest (cm_states m))) cs"
    using state_manifest_codec.round_list [OF assms(5) refl] by (auto simp: codes_def)
  have "length (cm_states m) < 2 ^ 32" using assms(4) by (simp add: wire_consts)
  then have "emits (enc_seq [enc_try (try_from_usize (length (cm_states m)) ''too many manifest states'') enc_u32,
      enc_seq (map enc_state_manifest (cm_states m))])
      (to_le_bytes (of_nat (length (cm_states m)) :: u32) @ cs @ [])"
    by (intro emits_Cons emits_Nil cs) simp
  note tail = rejects_head [OF assms(3) this]
  show ?thesis
    unfolding manifest_encode_body_def manifest_decode_body_def
    by (rule rejects_bind [OF codes_id], use typed in simp, rule rejects_bind [OF codes_prims(4)],
        rule rejects_bind [OF semantic_codec.round], use typed in simp,
        rule rejects_bind [OF input_cut_codec.round], use typed in simp,
        rule rejects_bind [OF family_codec.round [OF assms(2)]], rule tail)
qed

text \<open>The two counts the validator leaves open, as the round trip needs them.\<close>

definition groups_inhabited :: "cut_manifest \<Rightarrow> bool" where
  "groups_inhabited m \<longleftrightarrow> list_all (\<lambda>g. ag_states g \<noteq> []) (rc_atomic_groups (cm_realized_schema m))"

definition dependencies_bounded :: "cut_manifest \<Rightarrow> bool" where
  "dependencies_bounded m \<longleftrightarrow>
     list_all (\<lambda>s. length (fs_dependencies s) \<le> MAX_DEPENDENCIES_PER_STATE) (rf_states (cm_family m))"

lemma validated_ok_manifest:
  assumes "validate_manifest m bounds = Inr ()" and "typed_manifest m"
    and "mb_max_chunks_per_state bounds \<le> MAX_CHUNKS_PER_STATE"
    and "groups_inhabited m" and "dependencies_bounded m"
  shows "ok_manifest m"
proof -
  note parts = validated_parts_ok [OF assms(1-3) assms(5) [unfolded dependencies_bounded_def]]
  show ?thesis
    using validated_groups_ok [OF parts(11,2,3,4) refl assms(4) [unfolded groups_inhabited_def]]
      parts assms(2)
    by (auto simp: ok_manifest_def ok_schema_def typed_manifest_def)
qed


lemma sample_typed: "typed_manifest (sample_manifest groups)"
  using sample_shape_ok
  by (simp add: typed_manifest_def sample_defs ok_semantic_def ok_input_cut_def ok_ref_def)


lemma empty_group_undecodable:
  assumes "validate_manifest m bounds = Inr ()" and "typed_manifest m"
    and "mb_max_chunks_per_state bounds \<le> MAX_CHUNKS_PER_STATE"
    and "\<not> groups_inhabited m" and "dependencies_bounded m"
    and "length (rc_atomic_groups (cm_realized_schema m)) < 2 ^ 32"
  shows "\<exists>bs. manifest_encode_canonical m = Inr bs \<and> (\<exists>err. manifest_decode_canonical bs = Inl err)"
proof -
  note parts = validated_parts_ok [OF assms(1-3) assms(5) [unfolded dependencies_bounded_def]]
  let ?groups = "rc_atomic_groups (cm_realized_schema m)"
  note cover = validate_atomic_groups_ok(2,3) [OF parts(11)]
  have "card (fs_key ` set (rf_states (cm_family m))) \<le> MAX_STATES"
    using card_image_le [of "set (rf_states (cm_family m))" fs_key] card_length [of "rf_states (cm_family m)"]
      parts(4) by simp
  then have total: "length (concat (map ag_states ?groups)) \<le> MAX_STATES"
    using distinct_card [OF cover(1)] cover(2) by simp
  have "length (ag_states g) \<le> length (concat (map ag_states gs))" if "g \<in> set gs" for g gs
    using that by (induction gs) auto
  with total have "length (ag_states g) \<le> MAX_STATES" if "g \<in> set ?groups" for g
    using that order_trans by blast
  moreover have "list_all ok_state_key (ag_states g)" if "g \<in> set ?groups" for g
    using that cover(2) parts(2) by (auto simp: list_all_iff)
  ultimately have "rejects (schema_encode_body (cm_realized_schema m)) schema_decode_body"
    using schema_rejected [OF _ parts(5,6,9) assms(6)] assms(2,4)
    by (auto simp: groups_inhabited_def typed_manifest_def list_all_iff)
  then have rej: "rejects (enc_versioned (manifest_encode_body m)) (dec_versioned m1 m2 manifest_decode_body)"
    for m1 m2
    by (intro rejects_versioned manifest_rejected assms(2) parts(1,8,10))
  from rej [of "[]" "[]"] obtain bs where bs: "manifest_encode_canonical m = Inr bs"
    unfolding manifest_encode_canonical_def rejects_def using emits_run by blast
  have "\<exists>err. manifest_decode_canonical bs = Inl err"
  proof (cases "length bs > MAX_MANIFEST_BYTES")
    case True
    then show ?thesis by (simp add: manifest_decode_canonical_def)
  next
    case False
    then have "length bs < 2 ^ 64" by (simp add: wire_consts)
    from decode_object_rejected [OF _ rej bs [unfolded manifest_encode_canonical_def] this] False
    show ?thesis by (auto simp: manifest_decode_canonical_eq)
  qed
  with bs show ?thesis by blast
qed

text \<open>Property C34.  The validator does not look for empty atomic groups, and the decoder refuses
  them: a well-typed manifest that the validator accepts and that has an empty group still
  encodes, but no decoding of its bytes succeeds.  (The producer in \<^verbatim>\<open>pack.rs\<close> validates and
  encodes without decoding again.)\<close>

theorem validated_empty_group_undecodable:
  assumes "validate_manifest m bounds = Inr ()" and "typed_manifest m"
    and "mb_max_chunks_per_state bounds \<le> MAX_CHUNKS_PER_STATE"
    and "\<not> groups_inhabited m" and "dependencies_bounded m"
    and "length (rc_atomic_groups (cm_realized_schema m)) < 2 ^ 32"
  shows "\<exists>bs. manifest_encode_canonical m = Inr bs \<and> (\<exists>err. manifest_decode_canonical bs = Inl err)"
  using assms by (rule empty_group_undecodable)

definition sample_empty_group :: cut_manifest where
  "sample_empty_group = sample_manifest (sample_groups @ [\<lparr>ag_id = 2, ag_states = []\<rparr>])"

lemma sample_empty_group_valid: "validate_manifest sample_empty_group default_bounds = Inr ()"
  unfolding sample_empty_group_def
  by (rule sample_valid)
    (simp add: sample_defs validate_atomic_groups_def Let_def group_step_def group_state_step_def
      less_eq_state_key_def insert_commute word_le_nat_alt)

theorem validated_empty_group_undecodable_witness:
  "validate_manifest sample_empty_group default_bounds = Inr ()
    \<and> (\<exists>bs. manifest_encode_canonical sample_empty_group = Inr bs
         \<and> (\<exists>err. manifest_decode_canonical bs = Inl err))"
  using validated_empty_group_undecodable [OF sample_empty_group_valid] sample_empty_group_valid
    sample_typed [of "sample_groups @ [\<lparr>ag_id = 2, ag_states = []\<rparr>]"]
  by (simp add: sample_empty_group_def default_bounds_def groups_inhabited_def dependencies_bounded_def
      sample_defs wire_consts)

end
