(* ===== verification/Codec_Frame.thy ===== *)
theory Codec_Frame
  imports Wire_Types
begin

text \<open>
  The codec frames of \<^verbatim>\<open>kvpack-core/src/chunk.rs\<close>: a 16-byte header followed by the plaintext itself
  (\<open>Raw\<close>) or by PackBits-style packets (\<open>Lossless\<close>).  The loops of the source are the recursive
  functions below, on the same indices; each terminates because every iteration moves its index.
\<close>

unbundle bit_operations_syntax

definition usize_saturating_add :: "nat \<Rightarrow> nat \<Rightarrow> nat" where
  "usize_saturating_add a b = min (a + b) (2 ^ 64 - 1)"

definition get_u16 :: "bytes \<Rightarrow> nat \<Rightarrow> u16" where
  "get_u16 source off = from_le_bytes (subslice source off (off + 2))"

definition get_u32 :: "bytes \<Rightarrow> nat \<Rightarrow> u32" where
  "get_u32 source off = from_le_bytes (subslice source off (off + 4))"

definition get_u64 :: "bytes \<Rightarrow> nat \<Rightarrow> u64" where
  "get_u64 source off = from_le_bytes (subslice source off (off + 8))"

definition frame_header :: "bytes \<Rightarrow> nat \<Rightarrow> bytes result" where
  "frame_header magic plaintext_bytes =
     rbind (try_from_usize plaintext_bytes ''codec plaintext length exceeds u32'') (\<lambda>len :: u32.
     Inr (magic @ to_le_bytes WIRE_VERSION @ to_le_bytes (0 :: u16) @ to_le_bytes len))"

function repeated_run_from :: "bytes \<Rightarrow> nat \<Rightarrow> nat \<Rightarrow> nat" where
  "repeated_run_from input start len =
     (if start + len < length input \<and> len < 128 \<and> input ! (start + len) = input ! start
      then repeated_run_from input start (len + 1) else len)"
  by auto
termination by (relation "measure (\<lambda>(_, _, len). 128 - len)") auto

declare repeated_run_from.simps [simp del]

definition repeated_run :: "bytes \<Rightarrow> nat \<Rightarrow> nat" where
  "repeated_run input start = repeated_run_from input start 1"

lemma repeated_run_from_props:
  "n \<le> repeated_run_from input start n
   \<and> (n \<le> 128 \<longrightarrow> repeated_run_from input start n \<le> 128)
   \<and> (start + n \<le> length input \<longrightarrow> start + repeated_run_from input start n \<le> length input)
   \<and> (\<forall>k. n \<le> k \<longrightarrow> k < repeated_run_from input start n \<longrightarrow> input ! (start + k) = input ! start)"
proof (induction input start n rule: repeated_run_from.induct)
  case (1 input start n)
  show ?case
  proof (cases "start + n < length input \<and> n < 128 \<and> input ! (start + n) = input ! start")
    case True
    then have step: "repeated_run_from input start n = repeated_run_from input start (n + 1)"
      by (subst repeated_run_from.simps) simp
    have "input ! (start + k) = input ! start" if "n \<le> k" "k < repeated_run_from input start (n + 1)" for k
      using 1 [OF True] that True by (cases "k = n") auto
    then show ?thesis unfolding step using 1 [OF True] True by auto
  next
    case False
    then have step: "repeated_run_from input start n = n" by (subst repeated_run_from.simps) auto
    show ?thesis unfolding step by simp
  qed
qed

lemma repeated_run_props:
  "1 \<le> repeated_run input start" "repeated_run input start \<le> 128"
  "start < length input \<Longrightarrow> start + repeated_run input start \<le> length input"
  "k < repeated_run input start \<Longrightarrow> input ! (start + k) = input ! start"
proof -
  note from1 = repeated_run_from_props [of 1 input start]
  then show "1 \<le> repeated_run input start" "repeated_run input start \<le> 128"
    "start < length input \<Longrightarrow> start + repeated_run input start \<le> length input"
    by (simp_all add: repeated_run_def)
  show "input ! (start + k) = input ! start" if "k < repeated_run input start"
    using from1 that by (cases "k = 0") (simp_all add: repeated_run_def)
qed

lemma repeated_run_slice:
  assumes "start < length input"
  shows "subslice input start (start + repeated_run input start)
    = replicate (repeated_run input start) (input ! start)"
  using repeated_run_props(1,2,4) [where input = input and start = start]
    repeated_run_props(3) [OF assms]
  by (auto intro!: nth_equalityI simp: nth_subslice)

function literal_end :: "bytes \<Rightarrow> nat \<Rightarrow> nat \<Rightarrow> nat" where
  "literal_end input literal_start index =
     (if index < length input \<and> index - literal_start < 128
      then let next_run = repeated_run input index in
        if next_run \<ge> 3 then index
        else if index - literal_start + next_run > 128 then literal_start + 128
        else literal_end input literal_start (index + next_run)
      else index)"
  by auto
termination
  using repeated_run_props(1)
  by (relation "measure (\<lambda>(input, _, index). length input - index)")
    (auto simp: Suc_le_eq diff_less_mono2)

declare literal_end.simps [simp del]

lemma literal_end_props:
  assumes "s < i" "i \<le> length input" "i \<le> s + 128"
  shows "i \<le> literal_end input s i \<and> literal_end input s i \<le> length input
    \<and> literal_end input s i \<le> s + 128
    \<and> (literal_end input s i = s + 128 \<or> literal_end input s i = length input
        \<or> 3 \<le> repeated_run input (literal_end input s i))"
  using assms
proof (induction input s i rule: literal_end.induct)
  case (1 input s i)
  note run = repeated_run_props [where input = input and start = i]
  show ?case
  proof (cases "i < length input \<and> i - s < 128")
    case False
    then have step: "literal_end input s i = i" by (subst literal_end.simps) auto
    show ?thesis unfolding step using False "1.prems" by auto
  next
    case True
    with run(3) have fits: "i + repeated_run input i \<le> length input" by simp
    consider "3 \<le> repeated_run input i" | "\<not> 3 \<le> repeated_run input i" "128 < i - s + repeated_run input i"
      | "\<not> 3 \<le> repeated_run input i" "\<not> 128 < i - s + repeated_run input i" by blast
    then show ?thesis
    proof cases
      case 1
      with True have step: "literal_end input s i = i" by (subst literal_end.simps) (simp add: Let_def)
      show ?thesis unfolding step using 1 "1.prems" by auto
    next
      case 2
      with True "1.prems" have step: "literal_end input s i = s + 128"
        by (subst literal_end.simps) (simp add: Let_def)
      show ?thesis unfolding step using 2 True "1.prems" fits by auto
    next
      case 3
      from True 3 have step: "literal_end input s i = literal_end input s (i + repeated_run input i)"
        by (subst literal_end.simps) (simp add: Let_def)
      have "s < i + repeated_run input i" "i + repeated_run input i \<le> s + 128"
        using "1.prems" 3 by auto
      with "1.IH" [OF True refl 3] fits show ?thesis unfolding step by auto
    qed
  qed
qed

section \<open>Encoding\<close>

function encode_packets :: "bytes \<Rightarrow> nat \<Rightarrow> bytes" where
  "encode_packets plaintext index =
     (if index < length plaintext
      then let run = repeated_run plaintext index in
        if run \<ge> 3
        then [0x80 OR of_nat (run - 1), plaintext ! index] @ encode_packets plaintext (index + run)
        else let index' = literal_end plaintext index (index + run) in
          [of_nat (index' - index - 1)] @ subslice plaintext index index'
            @ encode_packets plaintext index'
      else [])"
  by auto
termination
proof (relation "measure (\<lambda>(plaintext, index). length plaintext - index)")
  fix plaintext :: bytes and index run
  assume "index < length plaintext" and run: "run = repeated_run plaintext index"
  with repeated_run_props(1) [of plaintext index]
  show "((plaintext, index + run), plaintext, index) \<in> measure (\<lambda>(plaintext, index). length plaintext - index)"
    by simp
next
  fix plaintext :: bytes and index run index'
  assume less: "index < length plaintext" and run: "run = repeated_run plaintext index"
    and "\<not> 3 \<le> run" and index': "index' = literal_end plaintext index (index + run)"
  have "index < index'"
    using literal_end_props [of index "index + run" plaintext] repeated_run_props(1) [of plaintext index]
      repeated_run_props(3) [OF less] \<open>\<not> 3 \<le> run\<close> run index' by auto
  with less show "((plaintext, index'), plaintext, index) \<in> measure (\<lambda>(plaintext, index). length plaintext - index)"
    by simp
qed simp

declare encode_packets.simps [simp del]

definition encode_codec_frame :: "codec \<Rightarrow> bytes \<Rightarrow> bytes result" where
  "encode_codec_frame c plaintext =
     (if plaintext = [] \<or> length plaintext > MAX_CHUNK_PLAINTEXT
      then Inl (Bounds ''chunk plaintext must be in 1..=4 MiB'')
      else case c of
        Raw \<Rightarrow> rbind (frame_header RAW_FRAME_MAGIC (length plaintext)) (\<lambda>header.
          Inr (header @ plaintext))
      | Lossless \<Rightarrow> rbind (frame_header LOSSLESS_FRAME_MAGIC (length plaintext)) (\<lambda>header.
          let result = header @ encode_packets plaintext 0 in
          if length result > MAX_CHUNK_PLAINTEXT + MAX_CODEC_OVERHEAD
          then Inl (Bounds ''lossless frame exceeds encoded bound'') else Inr result))"

section \<open>Decoding\<close>

function decode_packets :: "bytes \<Rightarrow> nat \<Rightarrow> nat \<Rightarrow> bytes \<Rightarrow> bytes result" where
  "decode_packets payload expected index output =
     (if index < length payload
      then let control = payload ! index; index1 = index + 1; len = unat (control AND 0x7f) + 1 in
        if control AND 0x80 \<noteq> 0
        then if index1 < length payload
          then if usize_saturating_add (length output) len > expected
            then Inl (Bounds ''lossless frame expands past bound'')
            else decode_packets payload expected (index1 + 1) (output @ replicate len (payload ! index1))
          else Inl (Truncated ''truncated lossless repeat packet'')
        else rbind (ok_or (usize_checked_add index1 len) (Bounds ''lossless literal offset overflow''))
          (\<lambda>end'. if end' \<le> length payload
            then if usize_saturating_add (length output) len > expected
              then Inl (Bounds ''lossless frame expands past bound'')
              else decode_packets payload expected end' (output @ subslice payload index1 end')
            else Inl (Truncated ''truncated lossless literal packet''))
      else Inr output)"
  by auto
termination
  by (relation "measure (\<lambda>(payload, _, index, _). length payload - index)")
    (auto simp: usize_checked_add_Some ok_iff)

declare decode_packets.simps [simp del]

definition decode_codec_frame :: "codec \<Rightarrow> bytes \<Rightarrow> nat \<Rightarrow> bytes result" where
  "decode_codec_frame c encoded expected_plaintext_bytes =
     (if length encoded < CODEC_FRAME_HEADER_BYTES then Inl (Truncated ''truncated codec frame'')
      else if take 8 encoded \<noteq> (case c of Raw \<Rightarrow> RAW_FRAME_MAGIC | Lossless \<Rightarrow> LOSSLESS_FRAME_MAGIC)
      then Inl (BadMagic ''codec frame magic does not match codec'')
      else if get_u16 encoded 8 \<noteq> WIRE_VERSION
      then Inl (BadMagic ''unsupported codec frame version'')
      else if get_u16 encoded 10 \<noteq> 0
      then Inl (Reserved ''codec frame reserved field is nonzero'')
      else if unat (get_u32 encoded 12) \<noteq> expected_plaintext_bytes
        \<or> expected_plaintext_bytes = 0 \<or> expected_plaintext_bytes > MAX_CHUNK_PLAINTEXT
      then Inl (Bounds ''codec frame decoded length mismatch'')
      else let payload = drop CODEC_FRAME_HEADER_BYTES encoded in
      case c of
        Raw \<Rightarrow> if length payload \<noteq> expected_plaintext_bytes
          then Inl (Bounds ''raw frame length mismatch'') else Inr payload
      | Lossless \<Rightarrow> rbind (decode_packets payload expected_plaintext_bytes 0 []) (\<lambda>result.
          if length result \<noteq> expected_plaintext_bytes
          then Inl (Bounds ''lossless decoded length mismatch'')
          else rbind (encode_codec_frame c result) (\<lambda>reencoded.
            if reencoded \<noteq> encoded then Inl (Reserved ''codec frame is not canonical'')
            else Inr result)))"

section \<open>The packets\<close>

lemma control_repeat:
  assumes "n < 128"
  shows "unat ((0x80 OR of_nat n :: byte) AND 0x7f) = n" "(0x80 OR of_nat n :: byte) AND 0x80 \<noteq> 0"
proof -
  have "\<forall>n \<in> set [0 ..< 128]. unat ((0x80 OR of_nat n :: byte) AND 0x7f) = n
      \<and> (0x80 OR of_nat n :: byte) AND 0x80 \<noteq> 0"
    by code_simp
  with assms show "unat ((0x80 OR of_nat n :: byte) AND 0x7f) = n" "(0x80 OR of_nat n :: byte) AND 0x80 \<noteq> 0"
    by simp_all
qed

lemma control_literal:
  assumes "n < 128"
  shows "unat ((of_nat n :: byte) AND 0x7f) = n" "(of_nat n :: byte) AND 0x80 = 0"
proof -
  have "\<forall>n \<in> set [0 ..< 128]. unat ((of_nat n :: byte) AND 0x7f) = n \<and> (of_nat n :: byte) AND 0x80 = 0"
    by code_simp
  with assms show "unat ((of_nat n :: byte) AND 0x7f) = n" "(of_nat n :: byte) AND 0x80 = 0"
    by simp_all
qed

lemma encode_packets_end: "length p \<le> i \<Longrightarrow> encode_packets p i = []"
  by (subst encode_packets.simps) simp

lemma encode_packets_repeat:
  "i < length p \<Longrightarrow> 3 \<le> repeated_run p i \<Longrightarrow>
   encode_packets p i = [0x80 OR of_nat (repeated_run p i - 1), p ! i] @ encode_packets p (i + repeated_run p i)"
  by (subst encode_packets.simps) (simp add: Let_def)

lemma encode_packets_literal:
  "i < length p \<Longrightarrow> \<not> 3 \<le> repeated_run p i \<Longrightarrow> j = literal_end p i (i + repeated_run p i) \<Longrightarrow>
   encode_packets p i = [of_nat (j - i - 1)] @ subslice p i j @ encode_packets p j"
  by (subst encode_packets.simps) (simp add: Let_def)

lemma literal_packet_props:
  assumes "i < length p" "\<not> 3 \<le> repeated_run p i" "j = literal_end p i (i + repeated_run p i)"
  shows "i < j" "j \<le> length p" "j - i \<le> 128"
    "j = i + 128 \<or> j = length p \<or> 3 \<le> repeated_run p j"
  using literal_end_props [of i "i + repeated_run p i" p] repeated_run_props(1) [of p i]
    repeated_run_props(3) [OF assms(1)] assms by auto

lemma take_subslice: "i \<le> j \<Longrightarrow> take i xs @ subslice xs i j = take j xs"
  using take_add [of i "j - i" xs] by (simp add: subslice_def)

text \<open>The three kinds of induction step, shared by the proofs about the packets.\<close>

lemma packets_induct [case_names End Repeat Literal]:
  assumes "\<And>i. length p \<le> i \<Longrightarrow> P i"
    and "\<And>i. i < length p \<Longrightarrow> 3 \<le> repeated_run p i \<Longrightarrow> P (i + repeated_run p i) \<Longrightarrow> P i"
    and "\<And>i j. i < length p \<Longrightarrow> \<not> 3 \<le> repeated_run p i \<Longrightarrow>
      j = literal_end p i (i + repeated_run p i) \<Longrightarrow> P j \<Longrightarrow> P i"
  shows "P i"
proof (induction "length p - i" arbitrary: i rule: less_induct)
  case less
  consider "length p \<le> i" | "i < length p" "3 \<le> repeated_run p i" | "i < length p" "\<not> 3 \<le> repeated_run p i"
    by linarith
  then show ?case
  proof cases
    case 1
    then show ?thesis by (rule assms(1))
  next
    case 2
    show ?thesis by (rule assms(2) [OF 2], rule less) (use 2 in simp)
  next
    case 3
    show ?thesis
      by (rule assms(3) [OF 3 refl], rule less) (use 3 literal_packet_props(1) [OF 3 refl] in simp)
  qed
qed

lemma decode_repeat_step:
  assumes "1 \<le> n" "n \<le> 128" "length out + n \<le> expected" "expected < 2 ^ 64"
  shows "decode_packets (pre @ [0x80 OR of_nat (n - 1), v] @ rest) expected (length pre) out
    = decode_packets ((pre @ [0x80 OR of_nat (n - 1), v]) @ rest) expected
        (length (pre @ [0x80 OR of_nat (n - 1), v])) (out @ replicate n v)"
  using control_repeat [of "n - 1"] assms
  by (subst decode_packets.simps) (simp add: Let_def nth_append usize_saturating_add_def)

lemma decode_literal_step:
  assumes "lit \<noteq> []" "length lit \<le> 128" "length out + length lit \<le> expected" "expected < 2 ^ 64"
    and "length (pre @ [of_nat (length lit - 1)] @ lit @ rest) < 2 ^ 64"
  shows "decode_packets (pre @ [of_nat (length lit - 1)] @ lit @ rest) expected (length pre) out
    = decode_packets ((pre @ [of_nat (length lit - 1)] @ lit) @ rest) expected
        (length (pre @ [of_nat (length lit - 1)] @ lit)) (out @ lit)"
proof -
  have n: "length lit - 1 < 128" "length lit - 1 + 1 = length lit" using assms(1,2) by (cases lit; simp)+
  have "subslice (pre @ of_nat (length lit - 1) # lit @ rest) (Suc (length pre)) (Suc (length pre) + length lit) = lit"
    by (simp add: subslice_def)
  then show ?thesis
    using control_literal [OF n(1)] n(2) assms(3-5)
    by (subst decode_packets.simps)
      (simp add: Let_def nth_append usize_saturating_add_def usize_checked_add_def)
qed

lemma decode_encode_packets:
  assumes "i \<le> length p" and "length (pre @ encode_packets p i) < 2 ^ 64" and "length p < 2 ^ 64"
  shows "decode_packets (pre @ encode_packets p i) (length p) (length pre) (take i p) = Inr p"
  using assms
proof (induction i arbitrary: pre rule: packets_induct [where p = p])
  case (End i)
  then show ?case by (subst decode_packets.simps) (simp add: encode_packets_end)
next
  case (Repeat i)
  let ?run = "repeated_run p i"
  let ?pre = "pre @ [0x80 OR of_nat (?run - 1), p ! i]"
  have fits: "i + ?run \<le> length p" using repeated_run_props(3) [OF Repeat(1)] .
  have enc: "encode_packets p i = [0x80 OR of_nat (?run - 1), p ! i] @ encode_packets p (i + ?run)"
    using Repeat(1,2) by (rule encode_packets_repeat)
  have out: "take i p @ replicate ?run (p ! i) = take (i + ?run) p"
    using take_subslice [of i "i + ?run" p] repeated_run_slice [OF Repeat(1)] by simp
  have rest: "decode_packets (?pre @ encode_packets p (i + ?run)) (length p) (length ?pre) (take (i + ?run) p) = Inr p"
    by (rule Repeat(3) [OF fits]) (use Repeat(5,6) enc in simp_all)
  have step: "decode_packets (pre @ [0x80 OR of_nat (?run - 1), p ! i] @ encode_packets p (i + ?run))
      (length p) (length pre) (take i p)
    = decode_packets (?pre @ encode_packets p (i + ?run)) (length p) (length ?pre)
      (take i p @ replicate ?run (p ! i))"
    by (rule decode_repeat_step) (use fits repeated_run_props(1,2) Repeat(1,6) in simp_all)
  show ?case unfolding enc step out by (rule rest)
next
  case (Literal i j)
  note j = literal_packet_props [OF Literal(1-3)]
  let ?lit = "subslice p i j"
  have len: "length ?lit = j - i" using j(2) by simp
  have enc: "encode_packets p i = [of_nat (length ?lit - 1)] @ ?lit @ encode_packets p j"
    unfolding len using Literal(1-3) by (rule encode_packets_literal)
  let ?pre = "pre @ [of_nat (length ?lit - 1)] @ ?lit"
  have out: "take i p @ ?lit = take j p" by (rule take_subslice) (use j(1) in simp)
  have rest: "decode_packets (?pre @ encode_packets p j) (length p) (length ?pre) (take j p) = Inr p"
    by (rule Literal(4) [OF j(2)]) (use Literal(6,7) in \<open>simp_all add: enc del: length_subslice\<close>)
  have step: "decode_packets (pre @ [of_nat (length ?lit - 1)] @ ?lit @ encode_packets p j)
      (length p) (length pre) (take i p)
    = decode_packets (?pre @ encode_packets p j) (length p) (length ?pre) (take i p @ ?lit)"
  proof (rule decode_literal_step)
    have "0 < length ?lit" unfolding len using j(1) by simp
    then show "?lit \<noteq> []" by (rule length_greater_0_conv [THEN iffD1])
    show "length (pre @ [of_nat (length ?lit - 1)] @ ?lit @ encode_packets p j) < 2 ^ 64"
      using Literal(6) unfolding enc .
  qed (use j len Literal(1,7) in simp_all)
  show ?case unfolding enc step out by (rule rest)
qed

text \<open>A literal packet shorter than 128 bytes is followed by a repeat packet, which saves a byte,
  or by the end of the input: so the packets cost at most one byte per 128.\<close>

lemma encode_packets_size:
  "i < length p \<Longrightarrow>
     length (encode_packets p i) + (if 3 \<le> repeated_run p i then 1 else 0)
       \<le> length p - i + div_ceil (length p - i) 128"
proof (induction i rule: packets_induct [where p = p])
  case (End i)
  then show ?case by simp
next
  case (Repeat i)
  let ?run = "repeated_run p i"
  have fits: "i + ?run \<le> length p" using repeated_run_props(3) [OF Repeat(1)] .
  have enc: "length (encode_packets p i) = 2 + length (encode_packets p (i + ?run))"
    using Repeat(1,2) by (simp add: encode_packets_repeat)
  show ?case
  proof (cases "i + ?run < length p")
    case True
    from Repeat(3) [OF True] Repeat(2) fits True show ?thesis
      unfolding enc by (auto simp: div_ceil_def split: if_splits)
  next
    case False
    then have "encode_packets p (i + ?run) = []" by (simp add: encode_packets_end)
    with False Repeat(2) fits show ?thesis unfolding enc by (auto simp: div_ceil_def)
  qed
next
  case (Literal i j)
  note j = literal_packet_props [OF Literal(1-3)]
  have enc: "length (encode_packets p i) = 1 + (j - i) + length (encode_packets p j)"
    using encode_packets_literal [OF Literal(1-3)] j(2) by simp
  show ?case
  proof (cases "j < length p")
    case True
    from Literal(4) [OF True] j True Literal(2) show ?thesis
      unfolding enc by (auto simp: div_ceil_def split: if_splits)
  next
    case False
    then have "encode_packets p j = []" by (simp add: encode_packets_end)
    with False Literal(2) j show ?thesis unfolding enc by (auto simp: div_ceil_def)
  qed
qed

lemma frame_header_ok:
  "n \<le> MAX_CHUNK_PLAINTEXT \<Longrightarrow> frame_header magic n
     = Inr (magic @ to_le_bytes WIRE_VERSION @ to_le_bytes (0 :: u16) @ to_le_bytes (of_nat n :: u32))"
  by (simp add: frame_header_def wire_consts)

definition codec_payload :: "codec \<Rightarrow> bytes \<Rightarrow> bytes" where
  "codec_payload c p = (case c of Raw \<Rightarrow> p | Lossless \<Rightarrow> encode_packets p 0)"

definition codec_magic :: "codec \<Rightarrow> bytes" where
  "codec_magic c = (case c of Raw \<Rightarrow> RAW_FRAME_MAGIC | Lossless \<Rightarrow> LOSSLESS_FRAME_MAGIC)"

lemma codec_payload_size:
  assumes "p \<noteq> []"
  shows "length (codec_payload c p) \<le> length p + div_ceil (length p) 128"
  using encode_packets_size [of 0 p] assms by (cases c) (auto simp: codec_payload_def split: if_splits)

lemma encode_codec_frame_eq:
  "encode_codec_frame c p =
     (if p = [] \<or> length p > MAX_CHUNK_PLAINTEXT then Inl (Bounds ''chunk plaintext must be in 1..=4 MiB'')
      else Inr (codec_magic c @ to_le_bytes WIRE_VERSION @ to_le_bytes (0 :: u16)
        @ to_le_bytes (of_nat (length p) :: u32) @ codec_payload c p))"
proof (cases "p = [] \<or> length p > MAX_CHUNK_PLAINTEXT")
  case False
  have "div_ceil (length p) 128 \<le> div_ceil MAX_CHUNK_PLAINTEXT 128"
    using False by (auto simp: div_ceil_def intro: div_le_mono)
  then have "16 + length (codec_payload c p) \<le> MAX_CHUNK_PLAINTEXT + MAX_CODEC_OVERHEAD"
    using codec_payload_size [of p c] False
    by (simp add: MAX_CODEC_OVERHEAD_def CODEC_FRAME_HEADER_BYTES_def)
  with False show ?thesis
    by (cases c) (auto simp: encode_codec_frame_def frame_header_ok codec_payload_def codec_magic_def)
qed (auto simp: encode_codec_frame_def)

section \<open>Properties\<close>

lemma get_at:
  "length pre = off \<Longrightarrow> get_u16 (pre @ to_le_bytes a @ post) off = a"
  "length pre = off \<Longrightarrow> get_u32 (pre @ to_le_bytes b @ post) off = b"
  "length pre = off \<Longrightarrow> get_u64 (pre @ to_le_bytes c @ post) off = c"
proof -
  show "length pre = off \<Longrightarrow> get_u16 (pre @ to_le_bytes a @ post) off = a"
    using subslice_append_middle [of pre "to_le_bytes a" post] by (simp add: get_u16_def)
  show "length pre = off \<Longrightarrow> get_u32 (pre @ to_le_bytes b @ post) off = b"
    using subslice_append_middle [of pre "to_le_bytes b" post] by (simp add: get_u32_def)
  show "length pre = off \<Longrightarrow> get_u64 (pre @ to_le_bytes c @ post) off = c"
    using subslice_append_middle [of pre "to_le_bytes c" post] by (simp add: get_u64_def)
qed

text \<open>Reading a field of a record that is written as a concatenation: skip the fields before it.\<close>

lemma slice_fields:
  "length xs \<le> i \<Longrightarrow> i \<le> j \<Longrightarrow> subslice (xs @ ys) i j = subslice ys (i - length xs) (j - length xs)"
  "length xs = j \<Longrightarrow> subslice (xs @ ys) 0 j = xs"
  "length xs \<le> off \<Longrightarrow> get_u16 (xs @ ys) off = get_u16 ys (off - length xs)"
  "length xs \<le> off \<Longrightarrow> get_u32 (xs @ ys) off = get_u32 ys (off - length xs)"
  "length xs \<le> off \<Longrightarrow> get_u64 (xs @ ys) off = get_u64 ys (off - length xs)"
  "get_u16 (to_le_bytes a @ ys) 0 = a" "get_u32 (to_le_bytes b @ ys) 0 = b" "get_u64 (to_le_bytes c @ ys) 0 = c"
  using get_at(1) [of "[]" 0 a ys] get_at(2) [of "[]" 0 b ys] get_at(3) [of "[]" 0 c ys]
  by (simp_all add: subslice_def get_u16_def get_u32_def get_u64_def)

lemma slice_of_get:
  "off + 2 \<le> length xs \<Longrightarrow> get_u16 xs off = a \<Longrightarrow> subslice xs off (off + 2) = to_le_bytes a"
  "off + 4 \<le> length xs \<Longrightarrow> get_u32 xs off = b \<Longrightarrow> subslice xs off (off + 4) = to_le_bytes b"
  "off + 8 \<le> length xs \<Longrightarrow> get_u64 xs off = c \<Longrightarrow> subslice xs off (off + 8) = to_le_bytes c"
  by (auto simp: get_u16_def get_u32_def get_u64_def)

lemma frame_fields:
  assumes "enc = codec_magic c @ to_le_bytes WIRE_VERSION @ to_le_bytes (0 :: u16) @ to_le_bytes len @ payload"
  shows "take 8 enc = codec_magic c" "get_u16 enc 8 = WIRE_VERSION" "get_u16 enc 10 = 0"
    "get_u32 enc 12 = len" "drop 16 enc = payload" "length enc = 16 + length payload"
proof -
  have magic: "length (codec_magic c) = 8" by (cases c) (simp_all add: codec_magic_def)
  show "take 8 enc = codec_magic c" "drop 16 enc = payload" "length enc = 16 + length payload"
    using magic by (simp_all add: assms)
  show "get_u16 enc 8 = WIRE_VERSION" "get_u16 enc 10 = 0" "get_u32 enc 12 = len"
    using magic get_at(1) [of "codec_magic c" 8]
      get_at(1) [of "codec_magic c @ to_le_bytes WIRE_VERSION" 10 0]
      get_at(2) [of "codec_magic c @ to_le_bytes WIRE_VERSION @ to_le_bytes (0 :: u16)" 12 len]
    by (simp_all add: assms)
qed

lemma frame_from_fields:
  assumes "16 \<le> length enc" "take 8 enc = codec_magic c" "get_u16 enc 8 = WIRE_VERSION"
    "get_u16 enc 10 = 0" "get_u32 enc 12 = len"
  shows "enc = codec_magic c @ to_le_bytes WIRE_VERSION @ to_le_bytes (0 :: u16) @ to_le_bytes len @ drop 16 enc"
proof -
  have parts: "subslice enc 8 10 = to_le_bytes WIRE_VERSION" "subslice enc 10 12 = to_le_bytes (0 :: u16)"
    "subslice enc 12 16 = to_le_bytes len"
    using slice_of_get(1) [of 8 enc WIRE_VERSION] slice_of_get(1) [of 10 enc 0]
      slice_of_get(2) [of 12 enc len] assms by simp_all
  have "enc = take 16 enc @ drop 16 enc" by simp
  also have "take 16 enc = take 8 enc @ subslice enc 8 16" by (simp add: take_subslice)
  also have "subslice enc 8 16 = subslice enc 8 10 @ subslice enc 10 12 @ subslice enc 12 16"
    by (simp add: subslice_concat)
  finally show ?thesis unfolding parts assms(2) by simp
qed

lemma codec_frame_decode_encode:
  assumes "encode_codec_frame c p = Inr enc"
  shows "decode_codec_frame c enc (length p) = Inr p"
proof -
  from assms have p: "p \<noteq> []" "length p \<le> MAX_CHUNK_PLAINTEXT"
    and enc: "enc = codec_magic c @ to_le_bytes WIRE_VERSION @ to_le_bytes (0 :: u16)
        @ to_le_bytes (of_nat (length p) :: u32) @ codec_payload c p"
    by (auto simp: encode_codec_frame_eq split: if_splits)
  have "length (encode_packets p 0) < 2 ^ 64" "length p < 2 ^ 64"
    using codec_payload_size [OF p(1), of Lossless] p(2)
    by (auto simp: codec_payload_def div_ceil_def wire_consts)
  then have "decode_packets (encode_packets p 0) (length p) 0 [] = Inr p"
    using decode_encode_packets [of 0 p "[]"] by simp
  moreover have "unat (of_nat (length p) :: u32) = length p"
    using p(2) by (simp add: unat_of_nat wire_consts)
  ultimately show ?thesis
    using frame_fields [OF enc] p assms
    by (cases c) (simp_all add: decode_codec_frame_def codec_magic_def codec_payload_def
        CODEC_FRAME_HEADER_BYTES_def Let_def)
qed

lemma decode_codec_frame_ok:
  "decode_codec_frame c enc n = Inr p \<longleftrightarrow> encode_codec_frame c p = Inr enc \<and> n = length p"
proof
  assume dec: "decode_codec_frame c enc n = Inr p"
  show "encode_codec_frame c p = Inr enc \<and> n = length p"
  proof (cases c)
    case Raw
    from dec Raw have fields: "16 \<le> length enc" "take 8 enc = codec_magic Raw" "get_u16 enc 8 = WIRE_VERSION"
      "get_u16 enc 10 = 0" "get_u32 enc 12 = of_nat n"
      and p: "p = drop 16 enc" "length p = n" "n \<noteq> 0" "n \<le> MAX_CHUNK_PLAINTEXT"
      by (auto simp: decode_codec_frame_def CODEC_FRAME_HEADER_BYTES_def Let_def codec_magic_def
          split: if_splits)
    from frame_from_fields [OF fields] p Raw show ?thesis
      by (auto simp: encode_codec_frame_eq codec_payload_def)
  next
    case Lossless
    with dec show ?thesis
      by (auto simp: decode_codec_frame_def Let_def ok_iff split: if_splits)
  qed
next
  assume "encode_codec_frame c p = Inr enc \<and> n = length p"
  then show "decode_codec_frame c enc n = Inr p" using codec_frame_decode_encode by blast
qed

text \<open>Property C3.  The codec frames are canonical and lossless for both codecs: decoding accepts a
  frame for a declared length exactly when it is the frame the encoder writes for some plaintext
  of that length, and returns that plaintext.  In particular no other byte string decodes.\<close>

theorem codec_frame_decode_iff:
  "decode_codec_frame c enc n = Inr p \<longleftrightarrow> encode_codec_frame c p = Inr enc \<and> n = length p"
  by (rule decode_codec_frame_ok)

text \<open>Property C23.  Every chunk plaintext encodes, in both codecs, to at most sixteen header bytes
  plus one byte per 128 of overhead; the encoder's own bound check never fires.\<close>

theorem codec_frame_encode_total:
  assumes "p \<noteq> []" and "length p \<le> MAX_CHUNK_PLAINTEXT"
  shows "\<exists>enc. encode_codec_frame c p = Inr enc
    \<and> length enc \<le> CODEC_FRAME_HEADER_BYTES + length p + div_ceil (length p) 128"
proof -
  have "length (codec_magic c) = 8" by (cases c) (simp_all add: codec_magic_def)
  with codec_payload_size [OF assms(1), of c] assms show ?thesis
    by (simp add: encode_codec_frame_eq CODEC_FRAME_HEADER_BYTES_def)
qed

theorem codec_frame_encode_total_witness:
  "\<exists>enc. encode_codec_frame Lossless [7, 7, 7, 7, 1, 2, 2, 9] = Inr enc
    \<and> length enc \<le> CODEC_FRAME_HEADER_BYTES + length [7 :: byte, 7, 7, 7, 1, 2, 2, 9]
         + div_ceil (length [7 :: byte, 7, 7, 7, 1, 2, 2, 9]) 128"
  by (rule codec_frame_encode_total) (simp_all add: wire_consts)

end
