(* ===== verification/Half.thy ===== *)
theory Half
  imports Wire_Types
begin

unbundle bit_operations_syntax

text \<open>
  Half-precision conversions (\<^verbatim>\<open>kvpack-core/src/half.rs\<close>).  Floats are their bit patterns: an
  \<^verbatim>\<open>f32\<close> is a \<open>u32\<close>.  Their meaning is an integer: every finite binary32 and binary16 value is a
  multiple of \<open>2 ^ -149\<close>, and \<open>f32_num\<close> and \<open>f16_num\<close> are those multiples, so exactness and
  nearest rounding are statements about integers.
\<close>

section \<open>Bit fields\<close>

lemma unat_and_mask: "unat (w AND mask n) = unat w mod 2 ^ n" for w :: "'a::len word"
  by (simp add: take_bit_eq_mask [symmetric] unsigned_take_bit_eq) (simp add: take_bit_eq_mod)

lemma unat_drop_bit: "unat (drop_bit n w) = unat w div 2 ^ n" for w :: "'a::len word"
  by (rule trans [OF unat_drop_bit_eq drop_bit_eq_div])

lemma bit_test: "w AND 0x400 = 0 \<longleftrightarrow> even (unat w div 2 ^ 10)" for w :: u32
proof -
  have "w AND 2 ^ 10 = 0 \<longleftrightarrow> \<not> bit w 10" by (rule and_exp_eq_0_iff_not_bit)
  moreover have "bit w 10 \<longleftrightarrow> bit (unat w) 10" by (simp add: bit_unsigned_iff)
  ultimately show ?thesis by (simp add: bit_iff_odd [of "unat w"])
qed

lemma masks:
  "(1 :: 'a::len word) = mask 1" "(0x1f :: 'a word) = mask 5" "(0xff :: 'a word) = mask 8"
  "(0x3ff :: 'a word) = mask 10" "(0x7fff :: 'a word) = mask 15" "(0x7fffff :: 'a word) = mask 23"
  by (simp_all add: mask_eq_exp_minus_1)

lemma or_disjoint_nat: "(a :: nat) < 2 ^ n \<Longrightarrow> push_bit n b OR a = b * 2 ^ n + a"
proof -
  assume a: "a < 2 ^ n"
  have "a div 2 ^ k = 0" if "n \<le> k" for k
    using a that by (meson div_less less_le_trans power_increasing one_le_numeral)
  then have "\<not> bit (push_bit n b) k \<or> \<not> bit a k" for k
    by (cases "n \<le> k") (auto simp: bit_push_bit_iff bit_iff_odd [of a])
  then show ?thesis using disjunctive_add [of "push_bit n b" a] by (simp add: push_bit_eq_mult)
qed

lemma or_nat_less: "(a :: nat) < 2 ^ n \<Longrightarrow> b < 2 ^ n \<Longrightarrow> a OR b < 2 ^ n"
  using take_bit_or [of n a b] by (simp add: take_bit_nat_eq_self_iff [symmetric])

lemma unat_push_bit_small: "unat w * 2 ^ n < 2 ^ LENGTH('a) \<Longrightarrow> unat (push_bit n w) = unat w * 2 ^ n"
  for w :: "'a::len word"
  using unsigned_push_bit_eq [of n w, where 'a = nat] by (simp add: push_bit_eq_mult take_bit_nat_eq_self)

lemma unat_or_fields:
  fixes a b :: "'a::len word"
  assumes "unat a = k * 2 ^ n" and "unat b < 2 ^ n"
  shows "unat (a OR b) = k * 2 ^ n + unat b"
  using assms or_disjoint_nat [OF assms(2), of k] by (simp add: unsigned_or_eq push_bit_eq_mult)

section \<open>The code\<close>

definition round_mantissa :: "u32 \<Rightarrow> nat \<Rightarrow> u16" where
  "round_mantissa mantissa shift =
     (let dropped = mantissa AND (push_bit shift 1 - 1);
          kept = drop_bit shift mantissa;
          halfway = push_bit (shift - 1) 1;
          round_up = (dropped > halfway \<or> dropped = halfway \<and> kept AND 1 = 1) in
      ucast (kept + (if round_up then 1 else 0)))"

text \<open>The normalisation loop of a subnormal; ten rounds are enough because the mantissa is a nonzero
  ten-bit number.\<close>

primrec normalize :: "nat \<Rightarrow> u32 \<Rightarrow> int \<Rightarrow> u32 \<times> int" where
  "normalize 0 mantissa exponent = (mantissa, exponent)"
| "normalize (Suc fuel) mantissa exponent =
     (if mantissa AND 0x400 = 0 then normalize fuel (push_bit 1 mantissa) (exponent - 1)
      else (mantissa, exponent))"

definition f16_to_f32 :: "u16 \<Rightarrow> u32" where
  "f16_to_f32 bits =
     (let sign = ucast (drop_bit 15 bits AND 1) :: u32;
          exponent = ucast (drop_bit 10 bits AND 0x1f) :: u32;
          mantissa = ucast (bits AND 0x3ff) :: u32 in
      if exponent = 0 then
        if mantissa = 0 then push_bit 31 sign
        else case normalize 10 mantissa (-14) of (mantissa, exponent) \<Rightarrow>
          push_bit 31 sign OR push_bit 23 (of_int (exponent + 127)) OR push_bit 13 (mantissa AND 0x3ff)
      else if exponent = 0x1f then
        if mantissa = 0 then push_bit 31 sign OR 0x7f800000
        else push_bit 31 sign OR 0x7f800000 OR push_bit 13 mantissa OR 0x00400000
      else push_bit 31 sign OR push_bit 23 (of_int (uint exponent - 15 + 127)) OR push_bit 13 mantissa)"

text \<open>\<^verbatim>\<open>f32::is_nan\<close> and \<^verbatim>\<open>f32::is_finite\<close>\<close>

definition f32_is_nan :: "u32 \<Rightarrow> bool" where
  "f32_is_nan x \<longleftrightarrow> drop_bit 23 x AND 0xff = 0xff \<and> x AND 0x7fffff \<noteq> 0"

definition f32_is_finite :: "u32 \<Rightarrow> bool" where
  "f32_is_finite x \<longleftrightarrow> drop_bit 23 x AND 0xff \<noteq> 0xff"

definition f32_to_f16 :: "u32 \<Rightarrow> u16" where
  "f32_to_f16 bits =
     (if f32_is_nan bits then 0x7e00
      else let sign = ucast (drop_bit 16 bits AND 0x8000) :: u16;
               exponent = uint (drop_bit 23 bits AND 0xff) - 127;
               mantissa = bits AND 0x7fffff in
      if exponent > 15 then sign OR 0x7c00
      else if exponent < -24 then sign
      else if exponent \<ge> -14 then
        let biased = push_bit 10 (of_int (exponent + 15));
            rounded = round_mantissa mantissa 13 in
        if rounded = 0x400 then sign OR push_bit 10 (of_int (exponent + 16))
        else sign OR biased OR rounded
      else let shift = nat (-14 - exponent);
               full = mantissa OR 0x00800000;
               rounded = round_mantissa full (13 + shift) in
      sign OR rounded)"

section \<open>Values\<close>

definition f16_sign :: "u16 \<Rightarrow> nat" where "f16_sign b = unat b div 2 ^ 15"
definition f16_exp :: "u16 \<Rightarrow> nat" where "f16_exp b = unat b div 2 ^ 10 mod 2 ^ 5"
definition f16_man :: "u16 \<Rightarrow> nat" where "f16_man b = unat b mod 2 ^ 10"
definition f32_sign :: "u32 \<Rightarrow> nat" where "f32_sign x = unat x div 2 ^ 31"
definition f32_exp :: "u32 \<Rightarrow> nat" where "f32_exp x = unat x div 2 ^ 23 mod 2 ^ 8"
definition f32_man :: "u32 \<Rightarrow> nat" where "f32_man x = unat x mod 2 ^ 23"

definition f16_mag :: "u16 \<Rightarrow> nat" where
  "f16_mag b = 2 ^ 125 * (if f16_exp b = 0 then f16_man b else (2 ^ 10 + f16_man b) * 2 ^ (f16_exp b - 1))"

definition f32_mag :: "u32 \<Rightarrow> nat" where
  "f32_mag x = (if f32_exp x = 0 then f32_man x else (2 ^ 23 + f32_man x) * 2 ^ (f32_exp x - 1))"

definition f16_num :: "u16 \<Rightarrow> int" where
  "f16_num b = (if f16_sign b = 0 then int (f16_mag b) else - int (f16_mag b))"

definition f32_num :: "u32 \<Rightarrow> int" where
  "f32_num x = (if f32_sign x = 0 then int (f32_mag x) else - int (f32_mag x))"

lemma f16_fields:
  "unat b = f16_sign b * 2 ^ 15 + f16_exp b * 2 ^ 10 + f16_man b"
  "f16_sign b < 2" "f16_exp b < 32" "f16_man b < 1024"
proof -
  have "unat b = unat b div 2 ^ 10 * 2 ^ 10 + f16_man b" by (simp add: f16_man_def)
  moreover have "unat b div 2 ^ 10 = unat b div 2 ^ 10 div 2 ^ 5 * 2 ^ 5 + f16_exp b"
    unfolding f16_exp_def by (rule div_mult_mod_eq [symmetric])
  moreover have "unat b div 2 ^ 10 div 2 ^ 5 = f16_sign b"
    by (simp add: f16_sign_def div_mult2_eq [symmetric])
  ultimately show "unat b = f16_sign b * 2 ^ 15 + f16_exp b * 2 ^ 10 + f16_man b" by simp
  show "f16_sign b < 2" "f16_exp b < 32" "f16_man b < 1024"
    using unat_bound [of b] by (auto simp: f16_sign_def f16_exp_def f16_man_def less_mult_imp_div_less)
qed

lemma f32_fields:
  "unat x = f32_sign x * 2 ^ 31 + f32_exp x * 2 ^ 23 + f32_man x"
  "f32_sign x < 2" "f32_exp x < 256" "f32_man x < 8388608"
proof -
  have "unat x = unat x div 2 ^ 23 * 2 ^ 23 + f32_man x" by (simp add: f32_man_def)
  moreover have "unat x div 2 ^ 23 = unat x div 2 ^ 23 div 2 ^ 8 * 2 ^ 8 + f32_exp x"
    unfolding f32_exp_def by (rule div_mult_mod_eq [symmetric])
  moreover have "unat x div 2 ^ 23 div 2 ^ 8 = f32_sign x"
    by (simp add: f32_sign_def div_mult2_eq [symmetric])
  ultimately show "unat x = f32_sign x * 2 ^ 31 + f32_exp x * 2 ^ 23 + f32_man x" by simp
  show "f32_sign x < 2" "f32_exp x < 256" "f32_man x < 8388608"
    using unat_bound [of x] by (auto simp: f32_sign_def f32_exp_def f32_man_def less_mult_imp_div_less)
qed

text \<open>A pattern is determined by its fields.\<close>

lemma f16_of_fields:
  assumes "unat b = s * 2 ^ 15 + e * 2 ^ 10 + m" and "e < 32" "m < 1024"
  shows "f16_sign b = s" "f16_exp b = e" "f16_man b = m"
proof -
  have b: "unat b = (s * 2 ^ 5 + e) * 2 ^ 10 + m" using assms(1) by simp
  have d: "unat b div 2 ^ 10 = s * 2 ^ 5 + e" unfolding b by (subst div_mult_self3) (use assms(3) in simp_all)
  show "f16_exp b = e" unfolding f16_exp_def d using assms(2) by (simp add: mod_mult_self3)
  show "f16_man b = m" unfolding f16_man_def b using assms(3) by (subst mod_mult_self3) simp
  show "f16_sign b = s" using assms by (simp add: f16_sign_def)
qed

lemma f32_of_fields:
  assumes "unat x = s * 2 ^ 31 + e * 2 ^ 23 + m" and "e < 256" "m < 8388608"
  shows "f32_sign x = s" "f32_exp x = e" "f32_man x = m"
proof -
  have b: "unat x = (s * 2 ^ 8 + e) * 2 ^ 23 + m" using assms(1) by simp
  have d: "unat x div 2 ^ 23 = s * 2 ^ 8 + e" unfolding b by (subst div_mult_self3) (use assms(3) in simp_all)
  show "f32_exp x = e" unfolding f32_exp_def d using assms(2) by (simp add: mod_mult_self3)
  show "f32_man x = m" unfolding f32_man_def b using assms(3) by (subst mod_mult_self3) simp
  show "f32_sign x = s" using assms by (simp add: f32_sign_def)
qed

lemma f16_eqI:
  "f16_sign a = f16_sign b \<Longrightarrow> f16_exp a = f16_exp b \<Longrightarrow> f16_man a = f16_man b \<Longrightarrow> a = b"
  using f16_fields(1) [of a] f16_fields(1) [of b] by (simp add: word_unat_eq_iff)

section \<open>Widening\<close>

lemma f16_parts:
  "unat (drop_bit 15 b AND 1) = f16_sign b" "unat (drop_bit 10 b AND 0x1f) = f16_exp b"
  "unat (b AND 0x3ff) = f16_man b"
proof -
  show "unat (drop_bit 15 b AND 1) = f16_sign b"
    using f16_fields(2) [of b] unfolding masks unat_and_mask
    by (simp add: unat_drop_bit f16_sign_def)
qed (unfold masks unat_and_mask, simp_all add: unat_drop_bit f16_exp_def f16_man_def)

lemma f32_parts:
  "unat (drop_bit 23 x AND 0xff) = f32_exp x" "unat (x AND 0x7fffff) = f32_man x"
  unfolding masks unat_and_mask by (simp_all add: unat_drop_bit f32_exp_def f32_man_def)

lemma f32_is_finite_iff: "f32_is_finite x \<longleftrightarrow> f32_exp x \<noteq> 255"
  by (simp add: f32_is_finite_def f32_parts word_unat_eq_iff)

lemma f32_is_nan_iff: "f32_is_nan x \<longleftrightarrow> f32_exp x = 255 \<and> f32_man x \<noteq> 0"
  by (simp add: f32_is_nan_def f32_parts word_unat_eq_iff)

text \<open>Assembling a binary32 pattern from shifted fields.\<close>

lemma f32_pack:
  assumes "unat s < 2" "unat e < 256" "unat m < 1024"
  shows "unat (push_bit 31 s OR push_bit 23 e OR push_bit 13 m :: u32)
    = unat s * 2 ^ 31 + unat e * 2 ^ 23 + unat m * 2 ^ 13"
proof -
  have "unat (push_bit 23 e OR push_bit 13 m) = unat e * 2 ^ 23 + unat m * 2 ^ 13"
    using assms unat_or_fields [of "push_bit 23 e" "unat e" 23 "push_bit 13 m"]
    by (simp add: unat_push_bit_small)
  with assms show ?thesis
    using unat_or_fields [of "push_bit 31 s" "unat s" 31 "push_bit 23 e OR push_bit 13 m"]
    by (simp add: unat_push_bit_small or.assoc)
qed

lemma normalize_value:
  assumes "0 < unat m" "unat m < 1024" "1024 \<le> unat m * 2 ^ fuel"
  shows "\<exists>k m'. normalize fuel m e = (m', e - int k) \<and> k \<le> fuel \<and> unat m' = unat m * 2 ^ k
    \<and> 1024 \<le> unat m' \<and> unat m' < 2048 \<and> 1 \<le> k"
  using assms
proof (induction fuel arbitrary: m e)
  case 0
  then show ?case by simp
next
  case (Suc fuel)
  have "m AND 0x400 = 0" using Suc(3) by (simp add: bit_test)
  then have step: "normalize (Suc fuel) m e = normalize fuel (push_bit 1 m) (e - 1)" by simp
  have double: "unat (push_bit 1 m) = unat m * 2"
    using Suc(3) unat_push_bit_small [of m 1] by simp
  show ?case
  proof (cases "unat m * 2 < 1024")
    case True
    then obtain k m' where "normalize fuel (push_bit 1 m) (e - 1) = (m', e - 1 - int k)" "k \<le> fuel"
      "unat m' = unat (push_bit 1 m) * 2 ^ k" "1024 \<le> unat m'" "unat m' < 2048"
      using Suc(1) [of "push_bit 1 m" "e - 1"] Suc(2,4) double by auto
    then show ?thesis using double step by (intro exI [of _ "Suc k"] exI [of _ m']) simp
  next
    case False
    have "unat (push_bit 1 m) div 2 ^ 10 = 1" using False Suc(3) double by simp
    then have "\<not> push_bit 1 m AND 0x400 = 0" by (simp add: bit_test)
    then have "normalize fuel (push_bit 1 m) (e - 1) = (push_bit 1 m, e - 1)" by (cases fuel) simp_all
    then show ?thesis using double step False Suc(3) by (intro exI [of _ 1] exI [of _ "push_bit 1 m"]) simp
  qed
qed

lemma unat_ucast_u16 [simp]: "unat (ucast (w :: u16) :: u32) = unat w"
proof -
  have "unat w < 2 ^ 32" using unat_bound [of w] by simp
  then show ?thesis by (simp add: unsigned_ucast_eq take_bit_nat_eq_self)
qed

lemma unat_of_int_u32: "0 \<le> k \<Longrightarrow> k < 2 ^ 32 \<Longrightarrow> unat (of_int k :: u32) = nat k"
  by (simp add: unsigned_of_int take_bit_int_eq_self nat_eq_iff)

lemma f16_to_f32_fields:
  "f32_sign (f16_to_f32 b) = f16_sign b"
  "f16_exp b \<noteq> 31 \<Longrightarrow> f32_mag (f16_to_f32 b) = f16_mag b \<and> f32_exp (f16_to_f32 b) < 143"
  "f16_exp b = 31 \<Longrightarrow> f32_exp (f16_to_f32 b) = 255 \<and> (f32_man (f16_to_f32 b) = 0 \<longleftrightarrow> f16_man b = 0)"
proof -
  let ?s = "ucast (drop_bit 15 b AND 1) :: u32" and ?e = "ucast (drop_bit 10 b AND 0x1f) :: u32"
    and ?m = "ucast (b AND 0x3ff) :: u32"
  note parts = f16_parts [of b] and lt = f16_fields(2-4) [of b]
  have fields: "unat ?s = f16_sign b" "unat ?e = f16_exp b" "unat ?m = f16_man b"
    by (simp_all only: unat_ucast_u16 parts)
  consider (zero) "f16_exp b = 0" "f16_man b = 0" | (sub) "f16_exp b = 0" "f16_man b \<noteq> 0"
    | (inf) "f16_exp b = 31" "f16_man b = 0" | (nan) "f16_exp b = 31" "f16_man b \<noteq> 0"
    | (norm) "f16_exp b \<noteq> 0" "f16_exp b \<noteq> 31" by blast
  then have "f32_sign (f16_to_f32 b) = f16_sign b
    \<and> (f16_exp b \<noteq> 31 \<longrightarrow> f32_mag (f16_to_f32 b) = f16_mag b \<and> f32_exp (f16_to_f32 b) < 143)
    \<and> (f16_exp b = 31 \<longrightarrow> f32_exp (f16_to_f32 b) = 255 \<and> (f32_man (f16_to_f32 b) = 0 \<longleftrightarrow> f16_man b = 0))"
  proof cases
    case zero
    then have "f16_to_f32 b = push_bit 31 ?s" using fields by (simp add: f16_to_f32_def word_unat_eq_iff)
    then have "unat (f16_to_f32 b) = f16_sign b * 2 ^ 31 + 0 * 2 ^ 23 + 0"
      using fields(1) lt(1) by (simp add: unat_push_bit_small)
    from f32_of_fields [OF this] zero show ?thesis by (simp add: f32_mag_def f16_mag_def)
  next
    case sub
    then obtain k m' where n: "normalize 10 ?m (-14) = (m', -14 - int k)" "k \<le> 10" "1 \<le> k"
      "unat m' = f16_man b * 2 ^ k" "1024 \<le> unat m'" "unat m' < 2048"
      using normalize_value [of ?m 10 "-14"] fields(3) lt(3) by auto
    have man: "unat (m' AND 0x3ff) = unat m' - 1024"
      using n(5,6) unfolding masks unat_and_mask by (simp add: mod_if [of "unat m'"] le_mod_geq)
    have ex: "unat (of_int (- 14 - int k + 127) :: u32) = 113 - k"
      using n(2) by (subst unat_of_int_u32) (auto simp: nat_diff_distrib)
    have "f16_to_f32 b = push_bit 31 ?s OR push_bit 23 (of_int (- 14 - int k + 127)) OR push_bit 13 (m' AND 0x3ff)"
      using sub fields n(1) by (simp add: f16_to_f32_def word_unat_eq_iff [of _ 0])
    then have "unat (f16_to_f32 b) = f16_sign b * 2 ^ 31 + (113 - k) * 2 ^ 23 + (unat m' - 1024) * 2 ^ 13"
      using f32_pack [of ?s "of_int (- 14 - int k + 127)" "m' AND 0x3ff"] fields(1) lt(1) ex man n by simp
    note f = f32_of_fields [OF this]
    have f: "f32_sign (f16_to_f32 b) = f16_sign b" "f32_exp (f16_to_f32 b) = 113 - k"
      "f32_man (f16_to_f32 b) = (unat m' - 1024) * 2 ^ 13" using f n by auto
    have "f32_mag (f16_to_f32 b) = (2 ^ 23 + (unat m' - 1024) * 2 ^ 13) * 2 ^ (113 - k - 1)"
      using f n(2) by (simp add: f32_mag_def)
    also have "2 ^ 23 + (unat m' - 1024) * 2 ^ 13 = unat m' * 2 ^ 13" using n(5) by simp
    also have "unat m' * 2 ^ 13 * 2 ^ (113 - k - 1) = f16_man b * 2 ^ (k + 13 + (113 - k - 1))"
      by (simp add: n(4) power_add)
    also have "k + 13 + (113 - k - 1) = 125" using n(2) by simp
    finally show ?thesis using f sub by (simp add: f16_mag_def)
  next
    case inf
    then have "f16_to_f32 b = push_bit 31 ?s OR 0x7f800000"
      using fields by (simp add: f16_to_f32_def word_unat_eq_iff)
    then have "unat (f16_to_f32 b) = f16_sign b * 2 ^ 31 + 255 * 2 ^ 23 + 0"
      using fields(1) lt(1) unat_or_fields [of "push_bit 31 ?s" "f16_sign b" 31 "0x7f800000"]
      by (simp add: unat_push_bit_small)
    from f32_of_fields [OF this] inf show ?thesis by simp
  next
    case nan
    let ?t = "push_bit 13 ?m OR 0x00400000"
    have "f16_to_f32 b = push_bit 31 ?s OR (0x7f800000 OR ?t)"
      using nan fields by (simp add: f16_to_f32_def word_unat_eq_iff [of _ 0] word_unat_eq_iff [of _ "0x1f"] or.assoc)
    moreover have t: "unat ?t < 2 ^ 23"
    proof -
      have "unat (push_bit 13 ?m) < 2 ^ 23" using lt(3) fields(3) by (simp add: unat_push_bit_small)
      then show ?thesis unfolding unsigned_or_eq by (intro or_nat_less) simp_all
    qed
    moreover have "unat ?t \<noteq> 0" by (simp add: unat_eq_zero or_eq_0_iff)
    moreover have "unat (0x7f800000 OR ?t) = 255 * 2 ^ 23 + unat ?t"
      using t by (intro unat_or_fields) simp_all
    ultimately have "unat (f16_to_f32 b) = f16_sign b * 2 ^ 31 + 255 * 2 ^ 23 + unat ?t"
      using fields(1) lt(1) unat_or_fields [of "push_bit 31 ?s" "f16_sign b" 31 "0x7f800000 OR ?t"]
      by (simp add: unat_push_bit_small)
    from f32_of_fields [OF this] nan t \<open>unat ?t \<noteq> 0\<close> show ?thesis by simp
  next
    case norm
    have ex: "unat (of_int (uint ?e - 15 + 127) :: u32) = f16_exp b + 112"
    proof -
      have "uint ?e = int (f16_exp b)" by (simp only: uint_nat fields(2))
      then have "uint ?e - 15 + 127 = int (f16_exp b + 112)" by simp
      with lt(2) show ?thesis by (simp only:) (subst unat_of_int_u32, simp_all)
    qed
    have "f16_to_f32 b = push_bit 31 ?s OR push_bit 23 (of_int (uint ?e - 15 + 127)) OR push_bit 13 ?m"
      using norm fields by (auto simp: f16_to_f32_def word_unat_eq_iff [of _ 0] word_unat_eq_iff [of _ "0x1f"])
    then have "unat (f16_to_f32 b) = f16_sign b * 2 ^ 31 + (f16_exp b + 112) * 2 ^ 23 + f16_man b * 2 ^ 13"
      using f32_pack [of ?s "of_int (uint ?e - 15 + 127)" ?m] fields lt ex by simp
    note f = f32_of_fields [OF this]
    have "f16_mag b = (2 ^ 23 + f16_man b * 2 ^ 13) * 2 ^ (f16_exp b + 111)"
    proof -
      have "(2 :: nat) ^ (f16_exp b + 111) = 2 ^ 112 * 2 ^ (f16_exp b - 1)"
        using norm by (subst power_add [symmetric]) simp
      then show ?thesis using norm(1) by (simp only: f16_mag_def if_False) (simp add: algebra_simps)
    qed
    with f lt norm show ?thesis by (simp add: f32_mag_def)
  qed
  then show "f32_sign (f16_to_f32 b) = f16_sign b"
    "f16_exp b \<noteq> 31 \<Longrightarrow> f32_mag (f16_to_f32 b) = f16_mag b \<and> f32_exp (f16_to_f32 b) < 143"
    "f16_exp b = 31 \<Longrightarrow> f32_exp (f16_to_f32 b) = 255 \<and> (f32_man (f16_to_f32 b) = 0 \<longleftrightarrow> f16_man b = 0)"
    by auto
qed

section \<open>Rounding\<close>

definition rne :: "nat \<Rightarrow> nat \<Rightarrow> nat" where
  "rne m s = m div 2 ^ s
     + (if 2 ^ (s - 1) < m mod 2 ^ s \<or> m mod 2 ^ s = 2 ^ (s - 1) \<and> odd (m div 2 ^ s) then 1 else 0)"

lemma rne_le: "rne m s \<le> m div 2 ^ s + 1"
  by (simp add: rne_def)

lemma round_mantissa_rne:
  assumes "unat m < 2 ^ 24" "13 \<le> s" "s \<le> 24"
  shows "unat (round_mantissa m s) = rne (unat m) s"
proof -
  have pow: "unat (push_bit n 1 :: u32) = 2 ^ n" if "n < 32" for n
  proof -
    have "(2 :: nat) ^ n < 2 ^ 32" using that by (intro power_strict_increasing) simp_all
    then show ?thesis using unat_push_bit_small [of "1 :: u32" n] by simp
  qed
  have d: "unat (m AND (push_bit s 1 - 1)) = unat m mod 2 ^ s"
    using unat_and_mask [of m s] by (simp add: mask_eq_exp_minus_1 push_bit_eq_mult)
  have odd: "drop_bit s m AND 1 = 1 \<longleftrightarrow> odd (unat m div 2 ^ s)"
    using unat_and_mask [of "drop_bit s m" 1] unat_drop_bit [of s m]
    by (simp add: word_unat_eq_iff masks(1) [symmetric] odd_iff_mod_2_eq_one)
  have k: "unat m div 2 ^ s \<le> 2 ^ 11"
  proof -
    have "(2 :: nat) ^ 13 \<le> 2 ^ s" using assms(2) by (rule power_increasing) simp
    then have "unat m div 2 ^ s \<le> unat m div 2 ^ 13" by (rule div_le_mono2 [rotated]) simp
    with assms(1) show ?thesis by simp
  qed
  have half: "unat (push_bit (s - 1) 1 :: u32) = 2 ^ (s - 1)" using assms(3) by (intro pow) simp
  have up: "m AND (push_bit s 1 - 1) > push_bit (s - 1) 1 \<or> m AND (push_bit s 1 - 1) = push_bit (s - 1) 1 \<and> drop_bit s m AND 1 = 1
    \<longleftrightarrow> 2 ^ (s - 1) < unat m mod 2 ^ s \<or> unat m mod 2 ^ s = 2 ^ (s - 1) \<and> odd (unat m div 2 ^ s)"
    using d half odd by (simp add: word_less_nat_alt word_unat_eq_iff)
  have "unat (ucast (drop_bit s m + (if c then 1 else 0)) :: u16) = unat m div 2 ^ s + (if c then 1 else 0)" for c
  proof -
    have "unat (drop_bit s m + (if c then 1 else 0)) = unat m div 2 ^ s + (if c then 1 else 0)"
      using k by (simp add: unat_word_ariths unat_drop_bit)
    with k show ?thesis by (simp add: unsigned_ucast_eq take_bit_eq_mod)
  qed
  then show ?thesis unfolding round_mantissa_def rne_def Let_def up by simp
qed

lemma rne_nearest:
  assumes "1 \<le> s"
  shows "\<bar>int (rne m s * 2 ^ s) - int m\<bar> \<le> \<bar>int (j * 2 ^ s) - int m\<bar>"
proof -
  define k d where "k = m div 2 ^ s" and "d = m mod 2 ^ s"
  have m: "m = k * 2 ^ s + d" by (simp only: k_def d_def div_mult_mod_eq)
  have d: "d < 2 ^ s" by (simp add: d_def)
  have two: "(2 :: nat) ^ s = 2 * 2 ^ (s - 1)" using assms by (cases s) auto
  have r: "rne m s = k + (if 2 ^ (s - 1) < d \<or> d = 2 ^ (s - 1) \<and> odd k then 1 else 0)"
    by (simp add: rne_def k_def d_def)
  have choice: "rne m s = k \<and> 2 * d \<le> 2 ^ s \<or> rne m s = k + 1 \<and> 2 ^ s \<le> 2 * d"
    using r two by auto
  have dist: "int (k * 2 ^ s) - int m = - int d" "int ((k + 1) * 2 ^ s) - int m = int (2 ^ s) - int d"
    using arg_cong [OF m, of int] by (simp_all add: algebra_simps)
  define P where "P = int (2 ^ s)"
  have lhs: "\<bar>int (rne m s * 2 ^ s) - int m\<bar> \<le> int d
      \<and> \<bar>int (rne m s * 2 ^ s) - int m\<bar> \<le> int (2 ^ s) - int d"
  proof (cases "rne m s = k \<and> 2 * d \<le> 2 ^ s")
    case True
    then have "2 * int d \<le> P" unfolding P_def by linarith
    with True dist(1) show ?thesis unfolding P_def [symmetric] by simp
  next
    case False
    then have r1: "rne m s = k + 1" and "2 ^ s \<le> 2 * d" using choice by auto
    then have "P \<le> 2 * int d" "int d < P" using d unfolding P_def by linarith+
    then show ?thesis unfolding r1 dist(2) P_def [symmetric] by linarith
  qed
  show ?thesis
  proof (cases "j \<le> k")
    case True
    then have "j * 2 ^ s \<le> k * 2 ^ s" by simp
    then have "int (j * 2 ^ s) - int m \<le> - int d" using m by linarith
    with lhs show ?thesis by linarith
  next
    case False
    then have "(k + 1) * 2 ^ s \<le> j * 2 ^ s" by (intro mult_le_mono1) simp
    then have "int ((k + 1) * 2 ^ s) \<le> int (j * 2 ^ s)" by (simp only: of_nat_le_iff)
    then have "int (2 ^ s) - int d \<le> int (j * 2 ^ s) - int m" using dist(2) by linarith
    with lhs show ?thesis by linarith
  qed
qed

lemma rne_shift: "rne (2 ^ 10 * 2 ^ 13 + m) 13 = 2 ^ 10 + rne m 13"
proof -
  have "(2 ^ 10 * 2 ^ 13 + m) div 2 ^ 13 = 2 ^ 10 + m div 2 ^ 13"
    "(2 ^ 10 * 2 ^ 13 + m) mod 2 ^ 13 = m mod 2 ^ 13"
    by (rule div_mult_self3, simp) (rule mod_mult_self3)
  moreover have "even (2 ^ 10 + m div 2 ^ 13) \<longleftrightarrow> even (m div 2 ^ 13)" by simp
  ultimately show ?thesis unfolding rne_def by presburger
qed

lemma sign_field: "unat (ucast (drop_bit 16 x AND 0x8000) :: u16) = f32_sign x * 2 ^ 15" for x :: u32
proof -
  have b: "bit x 31 \<longleftrightarrow> f32_sign x = 1"
  proof -
    have "bit x 31 \<longleftrightarrow> bit (unat x) 31" by (simp add: bit_unsigned_iff)
    also have "\<dots> \<longleftrightarrow> odd (f32_sign x)" unfolding bit_iff_odd f32_sign_def ..
    finally show ?thesis using f32_fields(2) [of x] by (auto simp: less_2_cases_iff)
  qed
  have "w AND 2 ^ n = (if bit w n then 2 ^ n else 0)" for w :: u32 and n
    by (rule bit_word_eqI) (auto simp: bit_and_iff bit_exp_iff)
  from this [of "drop_bit 16 x" 15]
  have "drop_bit 16 x AND 0x8000 = (if f32_sign x = 1 then 0x8000 else 0)"
    using b by (simp add: bit_drop_bit_eq del: drop_bit_numeral_minus_bit1)
  then show ?thesis using f32_fields(2) [of x] by (auto simp: less_2_cases_iff)
qed

text \<open>The scale of a finite binary32 number between the half-precision limits, and the value the
  conversion gives: the nearest multiple of the half-precision spacing at that scale.\<close>

lemma f32_to_f16_sub:
  assumes "103 \<le> f32_exp x" "f32_exp x < 113"
  shows "unat (f32_to_f16 x) = f32_sign x * 2 ^ 15 + rne (2 ^ 23 + f32_man x) (126 - f32_exp x)"
    "rne (2 ^ 23 + f32_man x) (126 - f32_exp x) \<le> 2 ^ 10"
proof -
  let ?M = "2 ^ 23 + f32_man x" and ?s = "126 - f32_exp x"
  let ?full = "x AND 0x7fffff OR 0x00800000"
  have man: "f32_man x < 2 ^ 23" using f32_fields(4) [of x] by simp
  have "unat (0x00800000 OR (x AND 0x7fffff)) = 1 * 2 ^ 23 + unat (x AND 0x7fffff)"
    by (rule unat_or_fields) (use man in \<open>simp_all add: f32_parts\<close>)
  then have full: "unat ?full = ?M" by (simp add: or.commute f32_parts)
  have "?M div 2 ^ ?s \<le> ?M div 2 ^ 14"
  proof (rule div_le_mono2)
    show "(2 :: nat) ^ 14 \<le> 2 ^ ?s" using assms(2) by (intro power_increasing) simp_all
  qed simp
  also have "\<dots> < 2 ^ 10" using man by simp
  finally show small: "rne ?M ?s \<le> 2 ^ 10" using rne_le [of ?M ?s] by simp
  have r: "unat (round_mantissa ?full ?s) = rne ?M ?s"
    using round_mantissa_rne [of ?full ?s] full man assms by simp
  have ex: "uint (drop_bit 23 x AND 0xff) = int (f32_exp x)" by (simp only: uint_nat f32_parts)
  have "13 + nat (- 14 - (int (f32_exp x) - 127)) = ?s" using assms by simp
  then have "f32_to_f16 x = ucast (drop_bit 16 x AND 0x8000) OR round_mantissa ?full ?s"
    using assms unfolding f32_to_f16_def Let_def ex f32_is_nan_iff by simp
  moreover have "rne ?M ?s < 2 ^ 15" using small by simp
  ultimately show "unat (f32_to_f16 x) = f32_sign x * 2 ^ 15 + rne ?M ?s"
    using unat_or_fields [OF sign_field, of "round_mantissa ?full ?s" x] r by simp
qed

lemma f32_to_f16_norm:
  assumes "113 \<le> f32_exp x" "f32_exp x < 143"
  shows "unat (f32_to_f16 x) = f32_sign x * 2 ^ 15 + ((f32_exp x - 112) * 2 ^ 10 + rne (f32_man x) 13)"
    "rne (f32_man x) 13 \<le> 2 ^ 10"
proof -
  let ?r = "round_mantissa (x AND 0x7fffff) 13"
  have man: "f32_man x < 2 ^ 23" using f32_fields(4) [of x] by simp
  then have "f32_man x div 2 ^ 13 < 2 ^ 10" by simp
  then show small: "rne (f32_man x) 13 \<le> 2 ^ 10" using rne_le [of "f32_man x" 13] by simp
  have r: "unat ?r = rne (f32_man x) 13"
    using round_mantissa_rne [of "x AND 0x7fffff" 13] man by (simp add: f32_parts)
  have ex: "uint (drop_bit 23 x AND 0xff) = int (f32_exp x)" by (simp only: uint_nat f32_parts)
  have ei: "unat (of_int (int n) :: u16) = n" if "n < 2 ^ 16" for n
    using that by (simp add: unat_of_nat)
  have shifted: "unat (push_bit 10 (of_int (int n) :: u16)) = n * 2 ^ 10" if "n < 32" for n
    using that unat_push_bit_small [of "of_int (int n) :: u16" 10] ei [of n] by simp
  have e: "int (f32_exp x) - 127 + 15 = int (f32_exp x - 112)" "int (f32_exp x) - 127 + 16 = int (f32_exp x - 111)"
    using assms by simp_all
  have def: "f32_to_f16 x = (let sign = ucast (drop_bit 16 x AND 0x8000) in
      if ?r = 0x400 then sign OR push_bit 10 (of_int (int (f32_exp x - 111)))
      else sign OR push_bit 10 (of_int (int (f32_exp x - 112))) OR ?r)"
    using assms unfolding f32_to_f16_def Let_def ex f32_is_nan_iff e by simp
  show "unat (f32_to_f16 x) = f32_sign x * 2 ^ 15 + ((f32_exp x - 112) * 2 ^ 10 + rne (f32_man x) 13)"
  proof (cases "?r = 0x400")
    case True
    then have "rne (f32_man x) 13 = 2 ^ 10" using r by simp
    with True show ?thesis
      using unat_or_fields [OF sign_field, of "push_bit 10 (of_int (int (f32_exp x - 111)))" x]
        shifted [of "f32_exp x - 111"] assms by (simp add: def)
  next
    case False
    then have lt: "unat ?r < 2 ^ 10" using small r by (simp add: word_unat_eq_iff)
    have "unat (push_bit 10 (of_int (int (f32_exp x - 112))) OR ?r) = (f32_exp x - 112) * 2 ^ 10 + unat ?r"
      by (rule unat_or_fields) (use shifted [of "f32_exp x - 112"] assms lt in simp_all)
    with False lt show ?thesis
      using unat_or_fields [OF sign_field, of "push_bit 10 (of_int (int (f32_exp x - 112))) OR ?r" x] assms r
      by (simp add: def or.assoc)
  qed
qed

lemma f32_to_f16_value:
  assumes "103 \<le> f32_exp x" "f32_exp x < 143"
  defines "s \<equiv> max 13 (126 - f32_exp x)"
  shows "f16_sign (f32_to_f16 x) = f32_sign x"
    "f16_mag (f32_to_f16 x) = rne (2 ^ 23 + f32_man x) s * 2 ^ s * 2 ^ (f32_exp x - 1)"
proof -
  let ?y = "f32_to_f16 x" and ?E = "f32_exp x"
  have "f16_sign ?y = f32_sign x \<and> f16_mag ?y = rne (2 ^ 23 + f32_man x) s * 2 ^ s * 2 ^ (?E - 1)"
  proof (cases "?E < 113")
    case True
    let ?r = "rne (2 ^ 23 + f32_man x) (126 - ?E)"
    note y = f32_to_f16_sub [OF assms(1) True]
    have s: "s = 126 - ?E" using True by (simp add: s_def)
    have scale: "(2 :: nat) ^ s * 2 ^ (?E - 1) = 2 ^ 125"
      using True assms(1) unfolding s by (subst power_add [symmetric]) simp
    have "f16_sign ?y = f32_sign x \<and> f16_mag ?y = 2 ^ 125 * ?r"
    proof (cases "?r < 2 ^ 10")
      case True
      then show ?thesis
        using f16_of_fields [of ?y "f32_sign x" 0 ?r] y(1) by (simp add: f16_mag_def)
    next
      case False
      then have "?r = 2 ^ 10" using y(2) by simp
      then show ?thesis
        using f16_of_fields [of ?y "f32_sign x" 1 0] y(1) by (simp add: f16_mag_def)
    qed
    then show ?thesis using scale s by (simp add: mult.assoc mult.commute)
  next
    case False
    let ?r = "rne (f32_man x) 13"
    have big: "113 \<le> ?E" using False by simp
    note y = f32_to_f16_norm [OF big assms(2)]
    have s: "s = 13" using big by (simp add: s_def)
    have scale: "(2 :: nat) ^ 13 * 2 ^ (?E - 1) = 2 ^ 125 * 2 ^ (?E - 112 - 1)"
      using big by (subst (1 2) power_add [symmetric]) simp
    have "f16_sign ?y = f32_sign x \<and> f16_mag ?y = 2 ^ 125 * ((2 ^ 10 + ?r) * 2 ^ (?E - 112 - 1))"
    proof (cases "?r < 2 ^ 10")
      case True
      then show ?thesis
        using f16_of_fields [of ?y "f32_sign x" "?E - 112" ?r] y(1) big assms(2) by (simp add: f16_mag_def)
    next
      case False
      then have r: "?r = 2 ^ 10" using y(2) by simp
      then have "f16_sign ?y = f32_sign x" "f16_exp ?y = ?E - 111" "f16_man ?y = 0"
        using f16_of_fields [of ?y "f32_sign x" "?E - 111" 0] y(1) big assms(2) by simp_all
      moreover have "?E - 111 - 1 = Suc (?E - 112 - 1)" using big by simp
      then have "(2 :: nat) ^ (?E - 111 - 1) = 2 * 2 ^ (?E - 112 - 1)" by (simp only: power_Suc)
      ultimately show ?thesis using r big by (simp add: f16_mag_def)
    qed
    moreover have "rne (2 ^ 23 + f32_man x) 13 = 2 ^ 10 + ?r" using rne_shift [of "f32_man x"] by simp
    ultimately show ?thesis using scale s by (simp add: mult.assoc mult.left_commute)
  qed
  then show "f16_sign ?y = f32_sign x"
    "f16_mag ?y = rne (2 ^ 23 + f32_man x) s * 2 ^ s * 2 ^ (?E - 1)" by auto
qed

text \<open>Every finite half-precision number is a multiple of that spacing or lies below the binade.\<close>

lemma f16_grid:
  assumes "f16_exp c \<noteq> 31" "103 \<le> E"
  defines "s \<equiv> max 13 (126 - E)"
  shows "(\<exists>j. f16_mag c = j * 2 ^ s * 2 ^ (E - 1))
    \<or> 113 \<le> E \<and> f16_mag c \<le> 2 ^ 10 * 2 ^ 13 * 2 ^ (E - 1)"
proof (cases "E < 113")
  case True
  then have "(2 :: nat) ^ s * 2 ^ (E - 1) = 2 ^ 125"
    using assms(2) unfolding s_def by (subst power_add [symmetric]) simp
  moreover have "\<exists>j. f16_mag c = j * 2 ^ 125" unfolding f16_mag_def using mult.commute by blast
  ultimately show ?thesis by (metis mult.assoc)
next
  case False
  then have s: "s = 13" and E: "113 \<le> E" by (simp_all add: s_def)
  have scale: "(2 :: nat) ^ 13 * 2 ^ (E - 1) = 2 ^ 125 * 2 ^ (E - 113)"
    using E by (subst (1 2) power_add [symmetric]) simp
  show ?thesis
  proof (cases "E - 112 \<le> f16_exp c")
    case True
    then have ex: "f16_exp c - 1 = (E - 113) + (f16_exp c - 1 - (E - 113))" and "f16_exp c \<noteq> 0" using E by auto
    have "f16_mag c = 2 ^ 125 * ((2 ^ 10 + f16_man c) * 2 ^ (f16_exp c - 1))"
      using \<open>f16_exp c \<noteq> 0\<close> by (simp add: f16_mag_def)
    also have "\<dots> = (2 ^ 10 + f16_man c) * 2 ^ (f16_exp c - 1 - (E - 113)) * (2 ^ 125 * 2 ^ (E - 113))"
      by (subst ex, subst power_add) (simp only: ac_simps)
    finally show ?thesis unfolding s mult.assoc scale by (metis mult.assoc)
  next
    case False
    have "(if f16_exp c = 0 then f16_man c else (2 ^ 10 + f16_man c) * 2 ^ (f16_exp c - 1)) \<le> 2 ^ 10 * 2 ^ (E - 113)"
    proof (cases "f16_exp c = 0")
      case True
      then show ?thesis using f16_fields(4) [of c] le_trans [of "f16_man c" "2 ^ 10" "2 ^ 10 * 2 ^ (E - 113)"] by simp
    next
      case nz: False
      have "(2 ^ 10 + f16_man c) * 2 ^ (f16_exp c - 1) \<le> 2 ^ 11 * 2 ^ (f16_exp c - 1)"
        using f16_fields(4) [of c] by simp
      also have "\<dots> = 2 ^ 10 * 2 ^ f16_exp c" using nz by (cases "f16_exp c") simp_all
      also have "\<dots> \<le> 2 ^ 10 * 2 ^ (E - 113)"
        using False E by (intro mult_le_mono2 power_increasing) simp_all
      finally show ?thesis using nz by simp
    qed
    then have "f16_mag c \<le> 2 ^ 125 * (2 ^ 10 * 2 ^ (E - 113))" unfolding f16_mag_def by (rule mult_le_mono2)
    then show ?thesis using E scale by (simp only: mult.assoc mult.left_commute [of "2 ^ 125"] scale) simp
  qed
qed

lemma f32_mag_lower: "2 ^ 125 \<le> f32_mag x \<Longrightarrow> 103 \<le> f32_exp x"
proof (rule ccontr)
  assume small: "2 ^ 125 \<le> f32_mag x" "\<not> 103 \<le> f32_exp x"
  have "f32_mag x < 2 ^ 24 * 2 ^ (f32_exp x - 1)" using f32_fields(4) [of x] by (simp add: f32_mag_def)
  also have "\<dots> \<le> 2 ^ 24 * 2 ^ 101" using small by (intro mult_le_mono2 power_increasing) simp_all
  finally show False using small(1) by simp
qed

lemma f32_to_f16_nearest_mag:
  assumes "103 \<le> f32_exp x" "f32_exp x < 143" and "f16_exp c \<noteq> 31"
  shows "\<bar>int (f16_mag (f32_to_f16 x)) - int (f32_mag x)\<bar> \<le> \<bar>int (f16_mag c) - int (f32_mag x)\<bar>"
    "\<bar>int (f16_mag (f32_to_f16 x)) - int (f32_mag x)\<bar> \<le> int (f32_mag x)"
proof -
  define s where "s = max 13 (126 - f32_exp x)"
  define K where "K = int (2 ^ (f32_exp x - 1))"
  define M where "M = 2 ^ 23 + f32_man x"
  have K: "0 < K" by (simp add: K_def)
  have y: "int (f16_mag (f32_to_f16 x)) = int (rne M s * 2 ^ s) * K"
    using f32_to_f16_value(2) [OF assms(1,2)] by (simp add: s_def K_def M_def)
  have x: "int (f32_mag x) = int M * K" using assms(1) by (simp add: f32_mag_def K_def M_def)
  have grid: "\<bar>int (rne M s * 2 ^ s) * K - int M * K\<bar> \<le> \<bar>int (j * 2 ^ s) * K - int M * K\<bar>" for j
  proof -
    have "\<bar>int (rne M s * 2 ^ s) - int M\<bar> * \<bar>K\<bar> \<le> \<bar>int (j * 2 ^ s) - int M\<bar> * \<bar>K\<bar>"
      by (rule mult_right_mono [OF rne_nearest]) (simp_all add: s_def)
    then show ?thesis by (simp only: abs_mult [symmetric] left_diff_distrib)
  qed
  show "\<bar>int (f16_mag (f32_to_f16 x)) - int (f32_mag x)\<bar> \<le> int (f32_mag x)"
    using grid [of 0] K unfolding x y by simp
  from f16_grid [OF assms(3,1)] show "\<bar>int (f16_mag (f32_to_f16 x)) - int (f32_mag x)\<bar>
      \<le> \<bar>int (f16_mag c) - int (f32_mag x)\<bar>"
  proof
    assume "\<exists>j. f16_mag c = j * 2 ^ max 13 (126 - f32_exp x) * 2 ^ (f32_exp x - 1)"
    then obtain j where "int (f16_mag c) = int (j * 2 ^ s) * K" by (auto simp: s_def K_def)
    then show ?thesis using grid [of j] unfolding x y by simp
  next
    assume low: "113 \<le> f32_exp x \<and> f16_mag c \<le> 2 ^ 10 * 2 ^ 13 * 2 ^ (f32_exp x - 1)"
    then have s: "s = 13" unfolding s_def by (intro max_absorb1) linarith
    have "int (f16_mag c) \<le> int (2 ^ 10 * 2 ^ 13) * K"
      using low unfolding K_def of_nat_mult [symmetric] of_nat_le_iff by blast
    moreover have "int (2 ^ 10 * 2 ^ 13) * K \<le> int M * K"
      using K by (intro mult_right_mono) (simp_all add: M_def)
    ultimately have "\<bar>int (2 ^ 10 * 2 ^ 13) * K - int M * K\<bar> \<le> \<bar>int (f16_mag c) - int M * K\<bar>" by linarith
    then show ?thesis using grid [of "2 ^ 10"] unfolding x y s by linarith
  qed
qed

lemma f16_mag_inj: "f16_mag a = f16_mag b \<Longrightarrow> f16_sign a = f16_sign b \<Longrightarrow> a = b"
proof (induction "f16_exp a" "f16_exp b" arbitrary: a b rule: linorder_wlog)
  case le
  let ?g = "\<lambda>c. if f16_exp c = 0 then f16_man c else (2 ^ 10 + f16_man c) * 2 ^ (f16_exp c - 1)"
  have g: "?g a = ?g b" using le(2) by (simp add: f16_mag_def)
  have "f16_exp a = f16_exp b"
  proof (rule ccontr)
    assume "f16_exp a \<noteq> f16_exp b"
    with le(1) have lt: "f16_exp a \<le> f16_exp b - 1" "f16_exp b \<noteq> 0" by auto
    have "?g a < 2 ^ 10 * 2 ^ f16_exp a"
      using f16_fields(4) [of a] by (cases "f16_exp a") simp_all
    also have "\<dots> \<le> 2 ^ 10 * 2 ^ (f16_exp b - 1)" using lt by (intro mult_le_mono2 power_increasing) simp_all
    also have "\<dots> \<le> ?g b" using lt by simp
    finally show False using g by simp
  qed
  moreover from this g have "f16_man a = f16_man b" by (auto split: if_splits)
  ultimately show ?case using le(3) by (intro f16_eqI)
next
  case (sym a b)
  then show ?case by metis
qed

text \<open>Property C30.  Widening is exact: a finite half-precision pattern becomes a finite binary32 pattern
  of the same value, an infinity an infinity of the same sign, and a NaN a NaN.\<close>

theorem f16_to_f32_exact:
  "if f16_exp b \<noteq> 31 then f32_is_finite (f16_to_f32 b) \<and> f32_num (f16_to_f32 b) = f16_num b
   else f32_sign (f16_to_f32 b) = f16_sign b \<and> \<not> f32_is_finite (f16_to_f32 b)
     \<and> (f32_is_nan (f16_to_f32 b) \<longleftrightarrow> f16_man b \<noteq> 0)"
  using f16_to_f32_fields [of b]
  by (auto simp: f32_is_finite_iff f32_is_nan_iff f32_num_def f16_num_def)



lemma f32_to_f16_widened:
  assumes "\<not> (f16_exp b = 31 \<and> f16_man b \<noteq> 0)"
  shows "f32_to_f16 (f16_to_f32 b) = b"
proof (cases "f16_exp b = 31 \<or> f16_mag b = 0")
  case True
  let ?x = "f16_to_f32 b"
  have ex: "uint (drop_bit 23 ?x AND 0xff) = int (f32_exp ?x)" by (simp only: uint_nat f32_parts)
  have sign: "unat (ucast (drop_bit 16 ?x AND 0x8000) :: u16) = f16_sign b * 2 ^ 15"
    using sign_field [of ?x] f16_to_f32_fields(1) [of b] by simp
  show ?thesis
  proof (cases "f16_exp b = 31")
    case True
    then have "f32_to_f16 ?x = ucast (drop_bit 16 ?x AND 0x8000) OR 0x7c00"
      using assms f16_to_f32_fields(3) [of b] unfolding f32_to_f16_def Let_def ex f32_is_nan_iff by simp
    then have "unat (f32_to_f16 ?x) = unat b"
      using unat_or_fields [OF sign, of "0x7c00"] f16_fields(1) [of b] True assms by simp
    then show ?thesis by (simp add: word_unat_eq_iff)
  next
    case False
    with True have "f16_mag b = 0" by simp
    then have z: "f16_exp b = 0" "f16_man b = 0" by (auto simp: f16_mag_def split: if_splits)
    have "f32_mag ?x = 0" using f16_to_f32_fields(2) [OF False] \<open>f16_mag b = 0\<close> by simp
    then have "f32_exp ?x = 0" by (auto simp: f32_mag_def split: if_splits)
    then have "f32_to_f16 ?x = ucast (drop_bit 16 ?x AND 0x8000)"
      unfolding f32_to_f16_def Let_def ex f32_is_nan_iff by simp
    then show ?thesis using sign f16_fields(1) [of b] z by (simp add: word_unat_eq_iff)
  qed
next
  case False
  let ?x = "f16_to_f32 b"
  have fin: "f16_exp b \<noteq> 31" using False by simp
  note x = f16_to_f32_fields(1) [of b] f16_to_f32_fields(2) [OF fin]
  have "2 ^ 125 \<le> f32_mag ?x" using x False by (simp add: f16_mag_def split: if_splits)
  then have "103 \<le> f32_exp ?x" by (rule f32_mag_lower)
  note lo = this conjunct2 [OF x(2)]
  have "f16_mag (f32_to_f16 ?x) = f16_mag b"
    using f32_to_f16_nearest_mag(1) [OF lo fin] x(2) by simp
  moreover have "f16_sign (f32_to_f16 ?x) = f16_sign b" using f32_to_f16_value(1) [OF lo] x(1) by simp
  ultimately show ?thesis by (rule f16_mag_inj)
qed

text \<open>Narrowing undoes widening for every pattern that is not a NaN, so half-precision
  data survives a trip through binary32 bit for bit.\<close>

theorem half_round_trip:
  "\<not> (f16_exp b = 31 \<and> f16_man b \<noteq> 0) \<Longrightarrow> f32_to_f16 (f16_to_f32 b) = b"
  by (rule f32_to_f16_widened)

theorem half_round_trip_witness: "f32_to_f16 (f16_to_f32 0x3c01) = 0x3c01"
  by (rule half_round_trip) (simp add: f16_exp_def f16_man_def)

lemma f32_to_f16_sign:
  assumes "\<not> f32_is_nan x"
  shows "f16_sign (f32_to_f16 x) = f32_sign x"
proof -
  have ex: "uint (drop_bit 23 x AND 0xff) = int (f32_exp x)" by (simp only: uint_nat f32_parts)
  consider (over) "143 \<le> f32_exp x" | (under) "f32_exp x < 103" | (mid) "103 \<le> f32_exp x" "f32_exp x < 143"
    by linarith
  then show ?thesis
  proof cases
    case over
    then have "f32_to_f16 x = ucast (drop_bit 16 x AND 0x8000) OR 0x7c00"
      using assms unfolding f32_to_f16_def Let_def ex by simp
    then have "unat (f32_to_f16 x) = f32_sign x * 2 ^ 15 + 31 * 2 ^ 10 + 0"
      using unat_or_fields [OF sign_field, of "0x7c00"] by simp
    then show ?thesis by (rule f16_of_fields) simp_all
  next
    case under
    then have "f32_to_f16 x = ucast (drop_bit 16 x AND 0x8000)"
      using assms unfolding f32_to_f16_def Let_def ex by simp
    then have "unat (f32_to_f16 x) = f32_sign x * 2 ^ 15 + 0 * 2 ^ 10 + 0" using sign_field by simp
    then show ?thesis by (rule f16_of_fields) simp_all
  next
    case mid
    then show ?thesis by (rule f32_to_f16_value(1))
  qed
qed

lemma f32_to_f16_overflow:
  assumes "143 \<le> f32_exp x" "f32_sign x = 0" "\<not> f32_is_nan x"
  shows "f32_to_f16 x = 0x7c00"
proof -
  have ex: "uint (drop_bit 23 x AND 0xff) = int (f32_exp x)" by (simp only: uint_nat f32_parts)
  have "f32_to_f16 x = ucast (drop_bit 16 x AND 0x8000) OR 0x7c00"
    using assms unfolding f32_to_f16_def Let_def ex by simp
  moreover have "(ucast (drop_bit 16 x AND 0x8000) :: u16) = 0"
    using sign_field [of x] assms(2) by (simp only: word_unat_eq_iff) simp
  ultimately show ?thesis by simp
qed

lemma f32_to_f16_not_nan:
  assumes "\<not> f32_is_nan x"
  shows "f16_exp (f32_to_f16 x) = 31 \<Longrightarrow> f16_man (f32_to_f16 x) = 0"
proof -
  assume inf: "f16_exp (f32_to_f16 x) = 31"
  have ex: "uint (drop_bit 23 x AND 0xff) = int (f32_exp x)" by (simp only: uint_nat f32_parts)
  consider (over) "143 \<le> f32_exp x" | (under) "f32_exp x < 103"
    | (sub) "103 \<le> f32_exp x" "f32_exp x < 113" | (norm) "113 \<le> f32_exp x" "f32_exp x < 143"
    by linarith
  then show ?thesis
  proof cases
    case over
    then have "f32_to_f16 x = ucast (drop_bit 16 x AND 0x8000) OR 0x7c00"
      using assms unfolding f32_to_f16_def Let_def ex by simp
    then have "unat (f32_to_f16 x) = f32_sign x * 2 ^ 15 + 31 * 2 ^ 10 + 0"
      using unat_or_fields [OF sign_field, of "0x7c00"] by simp
    then show ?thesis by (rule f16_of_fields) simp_all
  next
    case under
    then have "f32_to_f16 x = ucast (drop_bit 16 x AND 0x8000)"
      using assms unfolding f32_to_f16_def Let_def ex by simp
    then have "unat (f32_to_f16 x) = f32_sign x * 2 ^ 15 + 0 * 2 ^ 10 + 0" using sign_field by simp
    then show ?thesis by (rule f16_of_fields) simp_all
  next
    case sub
    let ?r = "rne (2 ^ 23 + f32_man x) (126 - f32_exp x)"
    note y = f32_to_f16_sub [OF sub]
    have "f16_exp (f32_to_f16 x) \<noteq> 31"
      using y f16_of_fields(2) [of "f32_to_f16 x" "f32_sign x" 0 ?r] f16_of_fields(2) [of "f32_to_f16 x" "f32_sign x" 1 0]
      by (cases "?r < 2 ^ 10") auto
    with inf show ?thesis by simp
  next
    case norm
    let ?r = "rne (f32_man x) 13"
    note y = f32_to_f16_norm [OF norm]
    show ?thesis
    proof (cases "?r < 2 ^ 10")
      case True
      then have "f16_exp (f32_to_f16 x) = f32_exp x - 112"
        using y(1) norm f16_of_fields(2) [of "f32_to_f16 x" "f32_sign x" "f32_exp x - 112" ?r] by simp
      with inf norm show ?thesis by simp
    next
      case False
      then have r: "?r = 2 ^ 10" using y(2) by simp
      have "unat (f32_to_f16 x) = f32_sign x * 2 ^ 15 + (f32_exp x - 111) * 2 ^ 10 + 0" using y(1) r norm by simp
      then show ?thesis by (rule f16_of_fields) (use norm in simp_all)
    qed
  qed
qed


end
