(* ===== verification/Stats.thy ===== *)
theory Stats
  imports Half "HOL-Library.Product_Lexorder"
begin

text \<open>
  The attention-statistics sidecar (\<^verbatim>\<open>kvpack-core/src/stats.rs\<close>): its canonical codec with the
  semantic checks of the decoder, the ranking of sinks, and its derivation from a plane of
  half-precision numbers.  The binary64 accumulation of the derivation is exact integer arithmetic
  with explicit rounding to 53 and 24 significant bits.
\<close>

definition MAX_SIDECAR_CHANNELS :: nat where [wire_consts]: "MAX_SIDECAR_CHANNELS = 512"
definition MAX_SIDECAR_TOKENS :: nat where [wire_consts]: "MAX_SIDECAR_TOKENS = 768"
definition MAX_SINK_SCORES :: nat where [wire_consts]: "MAX_SINK_SCORES = 8"

record channel_range =
  min_bits :: u16
  max_bits :: u16

record sink_score =
  token_index :: u32
  score_bits :: u16

record stats_sidecar =
  channel_ranges :: "channel_range list"
  key_l2_norms :: "u16 list"
  sink_scores :: "sink_score list"

text \<open>\<^verbatim>\<open>f32::total_cmp\<close> compares these keys.\<close>

definition total_key :: "u32 \<Rightarrow> int" where
  "total_key x = (if f32_sign x = 0 then int (unat x) else - int (unat x mod 2 ^ 31) - 1)"

definition top_sinks :: "u16 list \<Rightarrow> nat \<Rightarrow> sink_score list" where
  "top_sinks norms count =
     map (\<lambda>index. \<lparr>token_index = of_nat index, score_bits = norms ! index\<rparr>)
       (take count (sort_key (\<lambda>index. (- total_key (f16_to_f32 (norms ! index)), index)) [0..<length norms]))"

section \<open>Codec\<close>

definition enc_range :: "channel_range \<Rightarrow> put" where
  "enc_range r = enc_seq [enc_u16 (min_bits r), enc_u16 (max_bits r)]"

definition enc_sink :: "sink_score \<Rightarrow> put" where
  "enc_sink s = enc_seq [enc_u32 (token_index s), enc_u16 (score_bits s), enc_u16 0]"

definition stats_encode_body :: "stats_sidecar \<Rightarrow> put" where
  "stats_encode_body s = enc_seq
     [enc_try (try_from_usize (length (channel_ranges s)) ''stats sidecar channel count exceeds u32'') enc_u32,
      enc_seq (map enc_range (channel_ranges s)),
      enc_try (try_from_usize (length (key_l2_norms s)) ''stats sidecar token count exceeds u32'') enc_u32,
      enc_seq (map enc_u16 (key_l2_norms s)),
      enc_try (try_from_usize (length (sink_scores s)) ''stats sidecar sink count exceeds u16'') enc_u16,
      enc_seq (map enc_sink (sink_scores s))]"

definition stats_encode_canonical :: "stats_sidecar \<Rightarrow> bytes result" where
  "stats_encode_canonical s = enc_versioned (stats_encode_body s) (enc_new STATS_SIDECAR_MAGIC)"

definition dec_range :: "channel_range get" where
  "dec_range =
     dbind dec_u16 (\<lambda>lo.
     dbind dec_u16 (\<lambda>hi.
     if \<not> f32_is_finite (f16_to_f32 lo) \<or> \<not> f32_is_finite (f16_to_f32 hi)
       \<or> f32_num (f16_to_f32 lo) > f32_num (f16_to_f32 hi)
     then dfail (Semantics ''stats sidecar channel range is not finite and ordered'')
     else dret \<lparr>min_bits = lo, max_bits = hi\<rparr>))"

definition dec_norm :: "u16 get" where
  "dec_norm =
     dbind dec_u16 (\<lambda>bits.
     if \<not> f32_is_finite (f16_to_f32 bits) \<or> f32_num (f16_to_f32 bits) < 0
     then dfail (Semantics ''stats sidecar key norm is not a finite non-negative value'')
     else dret bits)"

definition dec_sink :: "sink_score get" where
  "dec_sink =
     dbind dec_u32 (\<lambda>index.
     dbind dec_u16 (\<lambda>score.
     dbind dec_u16 (\<lambda>reserved.
     if reserved \<noteq> 0 then dfail (Reserved ''stats sidecar sink reserved field is nonzero'')
     else dret \<lparr>token_index = index, score_bits = score\<rparr>)))"

definition stats_decode_body :: "stats_sidecar get" where
  "stats_decode_body =
     dbind dec_u32 (\<lambda>channel_count.
     if unat channel_count = 0 \<or> unat channel_count > MAX_SIDECAR_CHANNELS
     then dfail (Bounds ''stats sidecar channel count is outside bounds'')
     else dbind (dec_times (unat channel_count) dec_range) (\<lambda>channel_ranges.
     dbind dec_u32 (\<lambda>token_count.
     if unat token_count = 0 \<or> unat token_count > MAX_SIDECAR_TOKENS
     then dfail (Bounds ''stats sidecar token count is outside bounds'')
     else dbind (dec_times (unat token_count) dec_norm) (\<lambda>key_l2_norms.
     dbind dec_u16 (\<lambda>sink_count.
     if unat sink_count = 0 \<or> unat sink_count > MAX_SINK_SCORES
     then dfail (Bounds ''stats sidecar sink count is outside bounds'')
     else dbind (dec_times (unat sink_count) dec_sink) (\<lambda>sink_scores.
     dret \<lparr>channel_ranges = channel_ranges, key_l2_norms = key_l2_norms, sink_scores = sink_scores\<rparr>))))))"

definition stats_decode_canonical :: "bytes \<Rightarrow> stats_sidecar result" where
  "stats_decode_canonical bs =
     (if length bs > MAX_STATS_SIDECAR_BYTES
      then Inl (Bounds ''stats sidecar exceeds the chunk header capacity'')
      else rbind (decode_object STATS_SIDECAR_MAGIC
        (dec_versioned ''unsupported stats sidecar version'' ''stats sidecar reserved field is nonzero''
          stats_decode_body) bs) (\<lambda>s.
      let sink_count = length (sink_scores s); token_count = length (key_l2_norms s);
          expected = top_sinks (key_l2_norms s) (min sink_count token_count) in
      if sink_count > token_count \<or> sink_scores s \<noteq> expected
      then Inl (Semantics ''stats sidecar sink scores are not the exact top-m norms'')
      else rbind (stats_encode_canonical s) (\<lambda>encoded.
      if encoded \<noteq> bs then Inl (Reserved ''stats sidecar is not canonical'') else Inr s)))"

section \<open>Derivation\<close>

text \<open>Rounding a natural number to \<open>p\<close> significant bits, ties to even, and integer square roots.\<close>

fun bit_length :: "nat \<Rightarrow> nat" where
  "bit_length n = (if n = 0 then 0 else Suc (bit_length (n div 2)))"

declare bit_length.simps [simp del]

definition round_sig :: "nat \<Rightarrow> nat \<Rightarrow> nat" where
  "round_sig p n = (let b = bit_length n in if b \<le> p then n else rne n (b - p) * 2 ^ (b - p))"

fun isqrt :: "nat \<Rightarrow> nat" where
  "isqrt n = (if n = 0 then 0
     else let r = 2 * isqrt (n div 4) in if (r + 1) * (r + 1) \<le> n then r + 1 else r)"

declare isqrt.simps [simp del]

definition f32_of_mag :: "nat \<Rightarrow> u32" where
  "f32_of_mag n = (let b = bit_length n in
     if b \<le> 23 then of_nat n
     else if b - 23 \<ge> 255 then 0x7f800000
     else of_nat ((b - 23) * 2 ^ 23 + (n div 2 ^ (b - 24) - 2 ^ 23)))"

text \<open>One step \<^verbatim>\<open>sum += value * value\<close> in binary64, in units of \<open>2 ^ -298\<close>; then
  \<^verbatim>\<open>sum.sqrt() as f32\<close>, where the square root is in units of \<open>2 ^ -149\<close>.\<close>

definition norm_step :: "nat \<Rightarrow> u32 \<Rightarrow> nat" where
  "norm_step acc value = round_sig 53 (acc + round_sig 53 (f32_mag value * f32_mag value))"

definition norm_bits :: "nat \<Rightarrow> u32" where
  "norm_bits acc = (let q = isqrt acc;
       root = round_sig 53 (2 * q + (if q * q = acc then 0 else 1)) div 2 in
     f32_of_mag (round_sig 24 root))"

text \<open>\<^verbatim>\<open>f32::min\<close> and \<^verbatim>\<open>f32::max\<close> on numbers; of two zeros the first is kept.\<close>

definition f32_min :: "u32 \<Rightarrow> u32 \<Rightarrow> u32" where
  "f32_min a b = (if f32_num b < f32_num a then b else a)"

definition f32_max :: "u32 \<Rightarrow> u32 \<Rightarrow> u32" where
  "f32_max a b = (if f32_num a < f32_num b then b else a)"

definition stats_element :: "bytes \<Rightarrow> nat \<Rightarrow> nat \<Rightarrow> nat \<Rightarrow> u32 result" where
  "stats_element bs channels token channel =
     (let offset = (token * channels + channel) * 2;
          bits = from_le_bytes [bs ! offset, bs ! (offset + 1)] :: u16;
          value = f16_to_f32 bits in
      if \<not> f32_is_finite value then Inl (Semantics ''stats sidecar source contains a non-finite element'')
      else Inr value)"

definition derive_range :: "bytes \<Rightarrow> nat \<Rightarrow> nat \<Rightarrow> nat \<Rightarrow> channel_range result" where
  "derive_range bs tokens channels channel =
     rbind (try_fold (\<lambda>(lo, hi) token.
         rbind (stats_element bs channels token channel) (\<lambda>value. Inr (f32_min lo value, f32_max hi value)))
       (0x7f800000, 0xff800000) [0..<tokens]) (\<lambda>(lo, hi).
     Inr \<lparr>min_bits = f32_to_f16 lo, max_bits = f32_to_f16 hi\<rparr>)"

definition derive_norm :: "bytes \<Rightarrow> nat \<Rightarrow> nat \<Rightarrow> u16 result" where
  "derive_norm bs channels token =
     rbind (try_fold (\<lambda>sum channel.
         rbind (stats_element bs channels token channel) (\<lambda>value. Inr (norm_step sum value)))
       0 [0..<channels]) (\<lambda>sum.
     Inr (f32_to_f16 (norm_bits sum)))"

definition derive_f16 :: "nat \<Rightarrow> nat \<Rightarrow> nat \<Rightarrow> bytes \<Rightarrow> stats_sidecar result" where
  "derive_f16 tokens channels sink_count bs =
     (if tokens = 0 \<or> tokens > MAX_SIDECAR_TOKENS \<or> channels = 0 \<or> channels > MAX_SIDECAR_CHANNELS
         \<or> sink_count = 0 \<or> sink_count > MAX_SINK_SCORES
      then Inl (Bounds ''stats sidecar shape is outside bounded limits'')
      else rbind (ok_or (Option.bind (usize_checked_mul tokens channels) (\<lambda>elements. usize_checked_mul elements 2))
        (Bounds ''stats sidecar element count overflow'')) (\<lambda>expected.
      if length bs \<noteq> expected
      then Inl (Bounds ''stats sidecar source bytes do not match the declared shape'')
      else rbind (try_fold (\<lambda>acc channel. rbind (derive_range bs tokens channels channel) (\<lambda>r. Inr (acc @ [r])))
        [] [0..<channels]) (\<lambda>channel_ranges.
      rbind (try_fold (\<lambda>acc token. rbind (derive_norm bs channels token) (\<lambda>n. Inr (acc @ [n])))
        [] [0..<tokens]) (\<lambda>key_l2_norms.
      let sidecar = \<lparr>channel_ranges = channel_ranges, key_l2_norms = key_l2_norms,
            sink_scores = top_sinks key_l2_norms (min sink_count tokens)\<rparr> in
      rbind (stats_encode_canonical sidecar) (\<lambda>encoded.
      if length encoded > MAX_STATS_SIDECAR_BYTES
      then Inl (Bounds ''stats sidecar exceeds the chunk header capacity'')
      else Inr sidecar)))))"

section \<open>What is well formed\<close>

definition ok_range :: "channel_range \<Rightarrow> bool" where
  "ok_range r \<longleftrightarrow> f32_is_finite (f16_to_f32 (min_bits r)) \<and> f32_is_finite (f16_to_f32 (max_bits r))
     \<and> f32_num (f16_to_f32 (min_bits r)) \<le> f32_num (f16_to_f32 (max_bits r))"

definition ok_norm :: "u16 \<Rightarrow> bool" where
  "ok_norm b \<longleftrightarrow> f32_is_finite (f16_to_f32 b) \<and> 0 \<le> f32_num (f16_to_f32 b)"

definition ok_stats_body :: "stats_sidecar \<Rightarrow> bool" where
  "ok_stats_body s \<longleftrightarrow>
     channel_ranges s \<noteq> [] \<and> length (channel_ranges s) \<le> MAX_SIDECAR_CHANNELS \<and> list_all ok_range (channel_ranges s)
   \<and> key_l2_norms s \<noteq> [] \<and> length (key_l2_norms s) \<le> MAX_SIDECAR_TOKENS \<and> list_all ok_norm (key_l2_norms s)
   \<and> sink_scores s \<noteq> [] \<and> length (sink_scores s) \<le> MAX_SINK_SCORES"

definition ok_stats :: "stats_sidecar \<Rightarrow> bool" where
  "ok_stats s \<longleftrightarrow> ok_stats_body s \<and> length (sink_scores s) \<le> length (key_l2_norms s)
     \<and> sink_scores s = top_sinks (key_l2_norms s) (length (sink_scores s))"

interpretation range_codec: wire_codec enc_range dec_range ok_range
proof
  show "ok_range r \<Longrightarrow> codes (enc_range r) dec_range r" for r
    unfolding enc_range_def dec_range_def by (intro codes_then) (simp_all add: ok_range_def)
next
  show "get_spec dec_range (\<lambda>r bs. ok_range r \<and> emits (enc_range r) bs)"
    unfolding dec_range_def
    by (intro spec_then) (auto simp: ok_range_def enc_range_def intro!: emits_steps simp del: append_Nil2)
qed

interpretation norm_codec: wire_codec enc_u16 dec_norm ok_norm
proof
  show "codes (enc_u16 b) dec_norm b" if "ok_norm b" for b
    unfolding dec_norm_def using that
    by (intro codes_bind_pure [OF codes_prims(2)]) (simp add: ok_norm_def)
next
  show "get_spec dec_norm (\<lambda>b bs. ok_norm b \<and> emits (enc_u16 b) bs)"
    unfolding dec_norm_def by (intro spec_then) (auto simp: ok_norm_def)
qed

interpretation sink_codec: wire_codec enc_sink dec_sink "\<lambda>_. True"
proof
  show "codes (enc_sink r) dec_sink r" for r
    unfolding enc_sink_def dec_sink_def by (intro codes_then) simp_all
next
  show "get_spec dec_sink (\<lambda>r bs. True \<and> emits (enc_sink r) bs)"
    unfolding dec_sink_def
    by (intro spec_then) (auto simp: enc_sink_def intro!: emits_steps simp del: append_Nil2)
qed

lemma sidecar_counts:
  "n \<le> MAX_SIDECAR_CHANNELS \<Longrightarrow> unat (of_nat n :: u32) = n"
  "n \<le> MAX_SIDECAR_TOKENS \<Longrightarrow> unat (of_nat n :: u32) = n"
  "n \<le> MAX_SINK_SCORES \<Longrightarrow> unat (of_nat n :: u16) = n"
  by (simp_all add: wire_consts unat_of_nat)

interpretation stats_codec: wire_codec stats_encode_body stats_decode_body ok_stats_body
proof
  fix s
  assume ok: "ok_stats_body s"
  show "codes (stats_encode_body s) stats_decode_body s"
    unfolding stats_encode_body_def stats_decode_body_def
    by (intro codes_then range_codec.round_list_then norm_codec.round_list_then sink_codec.round_list_then)
      (use ok in \<open>simp_all add: ok_stats_body_def sidecar_counts list_all_iff\<close>, simp_all add: wire_consts)
next
  show "get_spec stats_decode_body (\<lambda>s bs. ok_stats_body s \<and> emits (stats_encode_body s) bs)"
    unfolding stats_decode_body_def
    by (intro spec_then range_codec.canon_list_then norm_codec.canon_list_then sink_codec.canon_list_then)
      (auto simp: ok_stats_body_def stats_encode_body_def wire_consts intro!: emits_steps
        simp del: append_Nil2)
qed

lemma stats_decode_canonical_iff:
  "stats_decode_canonical bs = Inr s \<longleftrightarrow>
     ok_stats s \<and> stats_encode_canonical s = Inr bs \<and> length bs \<le> MAX_STATS_SIDECAR_BYTES"
proof -
  have dec: "decode_object STATS_SIDECAR_MAGIC
        (dec_versioned ''unsupported stats sidecar version'' ''stats sidecar reserved field is nonzero''
          stats_decode_body) bs = Inr s
      \<longleftrightarrow> ok_stats_body s \<and> stats_encode_canonical s = Inr bs \<and> length bs < 2 ^ 64"
    unfolding stats_encode_canonical_def by (rule stats_codec.versioned_decode_iff) simp
  have "length bs \<le> MAX_STATS_SIDECAR_BYTES \<Longrightarrow> length bs < 2 ^ 64" by (simp add: wire_consts)
  then show ?thesis
    using dec by (auto simp: stats_decode_canonical_def ok_stats_def rbind_eq_Inr Let_def not_less
        split: if_splits)
qed


interpretation stats_object: canonical_object stats_encode_canonical stats_decode_canonical
  ok_stats "\<lambda>bs. length bs \<le> MAX_STATS_SIDECAR_BYTES"
  using stats_decode_canonical_iff stats_codec.versioned_encode_total [of _ STATS_SIDECAR_MAGIC]
  by unfold_locales (auto simp: ok_stats_def stats_encode_canonical_def)

section \<open>Derived sidecars\<close>

lemma collect_ok:
  "try_fold (\<lambda>acc x. rbind (f x) (\<lambda>y. Inr (acc @ [y]))) acc xs = Inr ys \<Longrightarrow>
   \<exists>zs. ys = acc @ zs \<and> length zs = length xs \<and> (\<forall>z \<in> set zs. \<exists>x \<in> set xs. f x = Inr z)"
proof (induction xs arbitrary: acc)
  case Nil
  then show ?case by simp
next
  case (Cons x xs)
  then obtain y where y: "f x = Inr y" "try_fold (\<lambda>acc x. rbind (f x) (\<lambda>y. Inr (acc @ [y]))) (acc @ [y]) xs = Inr ys"
    by (auto simp: rbind_eq_Inr)
  from Cons.IH [OF this(2)] obtain zs where "ys = (acc @ [y]) @ zs" "length zs = length xs"
    "\<forall>z \<in> set zs. \<exists>x \<in> set xs. f x = Inr z" by blast
  with y(1) show ?case by (intro exI [of _ "y # zs"]) auto
qed

lemma isqrt_bound: "isqrt n * isqrt n \<le> n"
proof (induction n rule: isqrt.induct)
  case (1 n)
  show ?case
  proof (cases "n = 0")
    case False
    with 1 have "2 * isqrt (n div 4) * (2 * isqrt (n div 4)) \<le> n" by simp
    with False show ?thesis by (subst (1 2) isqrt.simps) (auto simp: Let_def)
  qed (simp add: isqrt.simps)
qed

lemma finite_f16: "f32_is_finite (f16_to_f32 b) \<longleftrightarrow> f16_exp b \<noteq> 31"
  using f16_to_f32_fields [of b] f32_is_finite_iff [of "f16_to_f32 b"] by (cases "f16_exp b = 31") auto

lemma bit_length_bounds: "n < 2 ^ bit_length n" "n \<noteq> 0 \<Longrightarrow> 2 ^ (bit_length n - 1) \<le> n"
proof (induction n rule: bit_length.induct)
  case (1 n)
  {
    case 1
    show ?case
    proof (cases "n = 0")
      case False
      then have "n div 2 < 2 ^ bit_length (n div 2)" using "1.IH"(1) by blast
      with False show ?thesis by (subst bit_length.simps) simp
    qed simp
  next
    case 2
    show ?case
    proof (cases "n div 2 = 0")
      case True
      with 2 have "n = 1" by simp
      then show ?thesis by (simp add: bit_length.simps)
    next
      case False
      have "2 ^ (bit_length (n div 2) - 1) \<le> n div 2" using "1.IH"(2) [OF 2 False] .
      moreover have "bit_length (n div 2) \<noteq> 0" using False by (subst bit_length.simps) simp
      ultimately show ?thesis using 2
        by (subst bit_length.simps) (cases "bit_length (n div 2)", simp_all)
    qed
  }
qed

lemma bit_length_ge: "2 ^ k \<le> n \<Longrightarrow> k < bit_length n"
proof (rule ccontr)
  assume n: "2 ^ k \<le> n" "\<not> k < bit_length n"
  then have "(2 :: nat) ^ bit_length n \<le> 2 ^ k" by (intro power_increasing) simp_all
  with n bit_length_bounds(1) [of n] show False by simp
qed

lemma round_sig_ge:
  assumes "2 ^ k \<le> n" "0 < p"
  shows "2 ^ k \<le> round_sig p n"
proof (cases "bit_length n \<le> p")
  case False
  let ?b = "bit_length n"
  have nz: "n \<noteq> 0" using assms(1) by (intro notI) simp
  have "2 ^ k \<le> (2 :: nat) ^ (?b - 1)" using bit_length_ge [OF assms(1)] by (intro power_increasing) simp_all
  also have "\<dots> = 2 ^ (p - 1) * 2 ^ (?b - p)" using False assms(2) by (subst power_add [symmetric]) simp
  also have "\<dots> \<le> n div 2 ^ (?b - p) * 2 ^ (?b - p)"
  proof (intro mult_le_mono1)
    have "2 ^ (p - 1) = 2 ^ (?b - 1) div (2 :: nat) ^ (?b - p)"
      using False assms(2) by (subst power_diff_power_eq) simp_all
    also have "\<dots> \<le> n div 2 ^ (?b - p)" by (rule div_le_mono [OF bit_length_bounds(2) [OF nz]])
    finally show "2 ^ (p - 1) \<le> n div 2 ^ (?b - p)" .
  qed
  also have "\<dots> \<le> rne n (?b - p) * 2 ^ (?b - p)" by (intro mult_le_mono1) (simp add: rne_def)
  finally show ?thesis using False by (simp add: round_sig_def Let_def)
qed (use assms in \<open>simp add: round_sig_def Let_def\<close>)

lemma isqrt_ge: "k * k \<le> n \<Longrightarrow> k \<le> isqrt n"
proof (induction n arbitrary: k rule: isqrt.induct)
  case (1 n)
  show ?case
  proof (cases "n = 0")
    case False
    have "k div 2 * (k div 2) \<le> n div 4"
    proof -
      have "4 * (k div 2 * (k div 2)) = (2 * (k div 2)) * (2 * (k div 2))" by simp
      also have "\<dots> \<le> k * k" by (intro mult_le_mono) simp_all
      finally show ?thesis using 1(2) by simp
    qed
    then have ih: "k div 2 \<le> isqrt (n div 4)" using 1(1) [OF False] by blast
    let ?r = "2 * isqrt (n div 4)"
    have step: "isqrt n = (if (?r + 1) * (?r + 1) \<le> n then ?r + 1 else ?r)"
      using False by (subst isqrt.simps) (simp add: Let_def)
    show ?thesis
    proof (cases "k \<le> ?r")
      case True
      with step show ?thesis by auto
    next
      case False
      with ih have "k = ?r + 1" by linarith
      with 1(2) step show ?thesis by auto
    qed
  qed (use 1(2) in simp)
qed

lemma f32_of_mag_exp:
  assumes "2 ^ 165 \<le> n"
  shows "143 \<le> f32_exp (f32_of_mag n)"
proof -
  let ?b = "bit_length n"
  have b: "165 < ?b" by (rule bit_length_ge [OF assms])
  show ?thesis
  proof (cases "?b - 23 \<ge> 255")
    case True
    then have "unat (f32_of_mag n) = 0 * 2 ^ 31 + 255 * 2 ^ 23 + 0" using b by (simp add: f32_of_mag_def)
    then show ?thesis using f32_of_fields(2) [of "f32_of_mag n" 0 255 0] by simp
  next
    case False
    have "n div 2 ^ (?b - 24) < 2 ^ 24"
    proof (rule less_mult_imp_div_less)
      have "(2 :: nat) ^ 24 * 2 ^ (?b - 24) = 2 ^ ?b" using b by (subst power_add [symmetric]) simp
      then show "n < 2 ^ 24 * 2 ^ (?b - 24)" using bit_length_bounds(1) [of n] by simp
    qed
    then have m: "n div 2 ^ (?b - 24) - 2 ^ 23 < 8388608" by simp
    have "(?b - 23) * 2 ^ 23 + (n div 2 ^ (?b - 24) - 2 ^ 23) < 2 ^ 32" using False m by simp
    then have "unat (f32_of_mag n) = 0 * 2 ^ 31 + (?b - 23) * 2 ^ 23 + (n div 2 ^ (?b - 24) - 2 ^ 23)"
      using False b by (simp add: f32_of_mag_def Let_def unat_of_nat del: of_nat_add of_nat_mult of_nat_diff)
    from f32_of_fields(2) [OF this] False m b show ?thesis by simp
  qed
qed

lemma f32_of_mag_positive: "f32_sign (f32_of_mag n) = 0 \<and> \<not> f32_is_nan (f32_of_mag n)"
proof -
  let ?b = "bit_length n"
  consider (small) "?b \<le> 23" | (inf) "\<not> ?b \<le> 23" "?b - 23 \<ge> 255" | (norm) "\<not> ?b \<le> 23" "?b - 23 < 255" by linarith
  then show ?thesis
  proof cases
    case small
    have "n < 2 ^ 23" using bit_length_bounds(1) [of n] power_increasing [OF small, of "2 :: nat"] by simp
    moreover from this have "unat (f32_of_mag n) = 0 * 2 ^ 31 + 0 * 2 ^ 23 + n"
      using small by (simp add: f32_of_mag_def unat_of_nat)
    ultimately show ?thesis using f32_of_fields [of "f32_of_mag n" 0 0 n] by (simp add: f32_is_nan_iff)
  next
    case inf
    then have "unat (f32_of_mag n) = 0 * 2 ^ 31 + 255 * 2 ^ 23 + 0" by (simp add: f32_of_mag_def)
    then show ?thesis using f32_of_fields [of "f32_of_mag n" 0 255 0] by (simp add: f32_is_nan_iff)
  next
    case norm
    have "n div 2 ^ (?b - 24) < 2 ^ 24"
    proof (rule less_mult_imp_div_less)
      have "(2 :: nat) ^ 24 * 2 ^ (?b - 24) = 2 ^ ?b" using norm(1) by (subst power_add [symmetric]) simp
      then show "n < 2 ^ 24 * 2 ^ (?b - 24)" using bit_length_bounds(1) [of n] by simp
    qed
    then have m: "n div 2 ^ (?b - 24) - 2 ^ 23 < 8388608" by simp
    have "(?b - 23) * 2 ^ 23 + (n div 2 ^ (?b - 24) - 2 ^ 23) < 2 ^ 32"
      using norm(2) m by simp
    then have "unat (f32_of_mag n) = 0 * 2 ^ 31 + (?b - 23) * 2 ^ 23 + (n div 2 ^ (?b - 24) - 2 ^ 23)"
      using norm by (simp add: f32_of_mag_def Let_def unat_of_nat del: of_nat_add of_nat_mult of_nat_diff)
    from f32_of_fields [OF this] norm m show ?thesis by (simp add: f32_is_nan_iff)
  qed
qed

lemma finite_num:
  assumes "f32_is_finite x"
  shows "f32_num 0xff800000 < f32_num x" "f32_num x < f32_num 0x7f800000"
proof -
  have "f32_mag x < 2 ^ 24 * 2 ^ (f32_exp x - 1)" using f32_fields(4) [of x] by (simp add: f32_mag_def)
  also have "\<dots> \<le> 2 ^ 24 * 2 ^ 253"
    using assms f32_fields(3) [of x] by (intro mult_le_mono2 power_increasing) (auto simp: f32_is_finite_iff)
  finally have m: "f32_mag x < 2 ^ 277" by simp
  have "f32_num 0x7f800000 = 2 ^ 277" "f32_num 0xff800000 = - (2 ^ 277)"
    by (simp_all add: f32_num_def f32_mag_def f32_sign_def f32_exp_def f32_man_def)
  with m show "f32_num 0xff800000 < f32_num x" "f32_num x < f32_num 0x7f800000"
    by (auto simp: f32_num_def)
qed

lemma stats_element_ok:
  "stats_element bs channels token channel = Inr v \<Longrightarrow> \<exists>b. v = f16_to_f32 b \<and> f16_exp b \<noteq> 31"
  by (auto simp: stats_element_def Let_def finite_f16 split: if_splits)

lemma derive_range_ok:
  assumes "derive_range bs tokens channels channel = Inr r" and "0 < tokens"
  shows "ok_range r"
proof -
  let ?step = "\<lambda>(lo, hi) token. rbind (stats_element bs channels token channel)
    (\<lambda>value. Inr (f32_min lo value, f32_max hi value)) :: (u32 \<times> u32) result"
  define I where "I = (\<lambda>(lo, hi). \<exists>a b. lo = f16_to_f32 a \<and> hi = f16_to_f32 b \<and> f16_exp a \<noteq> 31 \<and> f16_exp b \<noteq> 31
    \<and> f32_num lo \<le> f32_num hi)"
  obtain lo hi where run: "try_fold ?step (0x7f800000, 0xff800000) [0..<tokens] = Inr (lo, hi)"
    and r: "r = \<lparr>min_bits = f32_to_f16 lo, max_bits = f32_to_f16 hi\<rparr>"
    using assms(1) by (auto simp: derive_range_def rbind_eq_Inr)
  have "[0..<tokens] = 0 # [1..<tokens]" using assms(2) by (simp add: upt_conv_Cons)
  with run obtain v where v: "stats_element bs channels 0 channel = Inr v"
    and rest: "try_fold ?step (f32_min 0x7f800000 v, f32_max 0xff800000 v) [1..<tokens] = Inr (lo, hi)"
    by (auto simp: rbind_eq_Inr)
  obtain b where b: "v = f16_to_f32 b" "f16_exp b \<noteq> 31" using stats_element_ok [OF v] by blast
  have "f32_is_finite v" using b by (simp add: finite_f16)
  then have "I (f32_min 0x7f800000 v, f32_max 0xff800000 v)"
    using finite_num [of v] b by (auto simp: I_def f32_min_def f32_max_def)
  with rest have "I (lo, hi)"
  proof (rule try_fold_invariant)
    fix acc token acc'
    assume "I acc" and step: "?step acc token = Inr acc'"
    then obtain l h w where acc: "acc = (l, h)" "I (l, h)" "stats_element bs channels token channel = Inr w"
      "acc' = (f32_min l w, f32_max h w)" by (cases acc) (auto simp: rbind_eq_Inr)
    obtain c where "w = f16_to_f32 c" "f16_exp c \<noteq> 31" using stats_element_ok [OF acc(3)] by blast
    with acc(2) show "I acc'" unfolding acc(4) I_def f32_min_def f32_max_def by auto
  qed
  then obtain a b where "lo = f16_to_f32 a" "hi = f16_to_f32 b" "f16_exp a \<noteq> 31" "f16_exp b \<noteq> 31"
    "f32_num lo \<le> f32_num hi" by (auto simp: I_def)
  then show ?thesis using f32_to_f16_widened [of a] f32_to_f16_widened [of b]
    by (simp add: r ok_range_def finite_f16)
qed

lemma derive_norm_ok:
  assumes "derive_norm bs channels token = Inr n" and "n \<noteq> 0x7c00"
  shows "ok_norm n"
proof -
  obtain acc where n: "n = f32_to_f16 (norm_bits acc)" using assms(1) by (auto simp: derive_norm_def rbind_eq_Inr)
  have x: "f32_sign (norm_bits acc) = 0" "\<not> f32_is_nan (norm_bits acc)"
    using f32_of_mag_positive by (simp_all add: norm_bits_def Let_def)
  have sign: "f16_sign n = 0" using f32_to_f16_sign [OF x(2)] x(1) n by simp
  have "f16_exp n = 31 \<Longrightarrow> f16_man n = 0" using f32_to_f16_not_nan [OF x(2)] n by simp
  then have "f16_exp n \<noteq> 31" using assms(2) f16_fields(1) [of n] sign by (auto simp: word_unat_eq_iff)
  with sign show ?thesis using f16_to_f32_fields(1) [of n] by (simp add: ok_norm_def finite_f16 f32_num_def)
qed

lemma length_top_sinks [simp]: "length (top_sinks norms count) = min count (length norms)"
  by (simp add: top_sinks_def)

lemma derive_f16_parts:
  assumes "derive_f16 tokens channels sink_count bs = Inr s"
  shows "0 < tokens" "length (key_l2_norms s) = tokens" "tokens \<le> MAX_SIDECAR_TOKENS"
    "0 < channels" "length (channel_ranges s) = channels" "channels \<le> MAX_SIDECAR_CHANNELS"
    "\<exists>encoded. stats_encode_canonical s = Inr encoded \<and> length encoded \<le> MAX_STATS_SIDECAR_BYTES"
    "list_all ok_range (channel_ranges s)" "\<forall>n \<in> set (key_l2_norms s). n \<noteq> 0x7c00 \<longrightarrow> ok_norm n"
    "0 < length (sink_scores s)" "length (sink_scores s) \<le> MAX_SINK_SCORES" "length (sink_scores s) \<le> tokens"
    "sink_scores s = top_sinks (key_l2_norms s) (length (sink_scores s))"
proof -
  show dims: "0 < tokens" "tokens \<le> MAX_SIDECAR_TOKENS" "0 < channels" "channels \<le> MAX_SIDECAR_CHANNELS"
    using assms(1) by (auto simp: derive_f16_def split: if_splits)
  have sinks: "0 < sink_count" "sink_count \<le> MAX_SINK_SCORES"
    using assms(1) by (auto simp: derive_f16_def split: if_splits)
  obtain rs ns where rs: "try_fold (\<lambda>acc channel. rbind (derive_range bs tokens channels channel) (\<lambda>r. Inr (acc @ [r])))
        [] [0..<channels] = Inr rs"
    and ns: "try_fold (\<lambda>acc token. rbind (derive_norm bs channels token) (\<lambda>n. Inr (acc @ [n]))) [] [0..<tokens] = Inr ns"
    and s: "s = \<lparr>channel_ranges = rs, key_l2_norms = ns, sink_scores = top_sinks ns (min sink_count tokens)\<rparr>"
    and enc: "\<exists>encoded. stats_encode_canonical s = Inr encoded \<and> length encoded \<le> MAX_STATS_SIDECAR_BYTES"
    using assms(1) by (auto simp: derive_f16_def rbind_eq_Inr Let_def split: if_splits)
  have r: "length rs = channels" "list_all ok_range rs"
    using collect_ok [OF rs] derive_range_ok dims(1) by (force simp: list_all_iff)+
  have n: "length ns = tokens" using collect_ok [OF ns] by auto
  have norms: "\<forall>n \<in> set ns. n \<noteq> 0x7c00 \<longrightarrow> ok_norm n"
    using collect_ok [OF ns] derive_norm_ok by fastforce
  show "\<exists>encoded. stats_encode_canonical s = Inr encoded \<and> length encoded \<le> MAX_STATS_SIDECAR_BYTES" by (rule enc)
  show "length (channel_ranges s) = channels" "length (key_l2_norms s) = tokens" "list_all ok_range (channel_ranges s)"
    "\<forall>n \<in> set (key_l2_norms s). n \<noteq> 0x7c00 \<longrightarrow> ok_norm n" using r n norms s by simp_all
  show "0 < length (sink_scores s)" "length (sink_scores s) \<le> MAX_SINK_SCORES" "length (sink_scores s) \<le> tokens"
    "sink_scores s = top_sinks (key_l2_norms s) (length (sink_scores s))"
    using n dims sinks by (simp_all add: s)
qed

lemma derive_f16_ok:
  assumes "derive_f16 tokens channels sink_count bs = Inr s"
    and "0x7c00 \<notin> set (key_l2_norms s)"
  shows "ok_stats s"
  using derive_f16_parts [OF assms(1)] assms(2)
  by (auto simp: ok_stats_def ok_stats_body_def list_all_iff simp flip: length_greater_0_conv)

section \<open>Properties\<close>

text \<open>Decoding a statistics sidecar accepts exactly the canonical encodings, within the
  header capacity, of well-formed sidecars: finite ordered ranges, finite non-negative norms, and
  sinks that are exactly the top of the norms.\<close>

theorem stats_decode_iff:
  "stats_decode_canonical bs = Inr s \<longleftrightarrow>
     ok_stats s \<and> stats_encode_canonical s = Inr bs \<and> length bs \<le> MAX_STATS_SIDECAR_BYTES"
  by (rule stats_object.decode_iff)

text \<open>The sinks are the largest norms: a token that is not listed has a norm no larger,
  in the total order of floats, than any listed one, and every listed score is the norm of its token.\<close>

theorem top_sinks_dominate:
  assumes "length norms \<le> MAX_SIDECAR_TOKENS" and "i < length norms"
    and "of_nat i \<notin> token_index ` set (top_sinks norms count)" and "s \<in> set (top_sinks norms count)"
  shows "total_key (f16_to_f32 (norms ! i)) \<le> total_key (f16_to_f32 (score_bits s))
    \<and> unat (token_index s) < length norms \<and> score_bits s = norms ! unat (token_index s)"
proof -
  let ?f = "\<lambda>index. (- total_key (f16_to_f32 (norms ! index)), index)"
  let ?order = "sort_key ?f [0..<length norms]"
  have s': "\<exists>j \<in> set (take count ?order). s = \<lparr>token_index = of_nat j, score_bits = norms ! j\<rparr>"
    using assms(4) by (auto simp: top_sinks_def)
  then obtain j where j: "j \<in> set (take count ?order)" "s = \<lparr>token_index = of_nat j, score_bits = norms ! j\<rparr>"
    by blast
  have "j < length norms" using in_set_takeD [OF j(1)] by simp
  moreover have "i \<notin> set (take count ?order)" using assms(3) by (auto simp: top_sinks_def image_iff)
  then have "i \<in> set (drop count ?order)"
  proof -
    have "i \<in> set ?order" using assms(2) by simp
    then have "i \<in> set (take count ?order) \<union> set (drop count ?order)"
      unfolding set_append [symmetric] append_take_drop_id .
    with \<open>i \<notin> set (take count ?order)\<close> show ?thesis by blast
  qed
  moreover have "sorted (map ?f (take count ?order) @ map ?f (drop count ?order))"
    unfolding map_append [symmetric] append_take_drop_id by (rule sorted_sort_key)
  ultimately have "?f j \<le> ?f i" using j(1) by (auto simp: sorted_append)
  moreover have "unat (of_nat j :: u32) = j"
    using \<open>j < length norms\<close> assms(1) by (simp add: wire_consts unat_of_nat)
  ultimately show ?thesis using j(2) \<open>j < length norms\<close> by auto
qed

theorem top_sinks_dominate_witness:
  "let norms = [0x3c00, 0x4200, 0x4000] in
   total_key (f16_to_f32 (norms ! 0)) \<le> total_key (f16_to_f32 0x4200)
    \<and> unat (1 :: u32) < length norms \<and> 0x4200 = norms ! unat (1 :: u32)"
proof -
  have widened: "f16_to_f32 0x3c00 = 0x3f800000" "f16_to_f32 0x4200 = 0x40400000" "f16_to_f32 0x4000 = 0x40000000"
    by (simp_all add: f16_to_f32_def)
  have sinks: "top_sinks [0x3c00, 0x4200, 0x4000] 1 = [\<lparr>token_index = 1, score_bits = 0x4200\<rparr>]"
    by (simp add: top_sinks_def widened total_key_def f32_sign_def upt_rec)
  have "total_key (f16_to_f32 ([0x3c00, 0x4200, 0x4000] ! 0))
      \<le> total_key (f16_to_f32 (score_bits \<lparr>token_index = 1, score_bits = 0x4200\<rparr>))
    \<and> unat (token_index \<lparr>token_index = 1, score_bits = 0x4200\<rparr>) < length [0x3c00, 0x4200, 0x4000 :: u16]
    \<and> score_bits \<lparr>token_index = 1, score_bits = 0x4200\<rparr> = [0x3c00, 0x4200, 0x4000] ! unat (token_index \<lparr>token_index = 1, score_bits = 0x4200\<rparr>)"
    by (rule top_sinks_dominate [of "[0x3c00, 0x4200, 0x4000]" 0 1]) (unfold sinks, simp_all add: wire_consts)
  then show ?thesis by simp
qed

text \<open>Property C31.  A derived sidecar whose norms do not overflow half precision survives its own
  codec: it encodes within the header capacity and decodes to itself.\<close>

theorem derived_sidecar_round_trip:
  assumes "derive_f16 tokens channels sink_count bs = Inr s" and "0x7c00 \<notin> set (key_l2_norms s)"
  shows "\<exists>encoded. stats_encode_canonical s = Inr encoded \<and> stats_decode_canonical encoded = Inr s"
  using derive_f16_ok [OF assms] derive_f16_parts(7) [OF assms(1)] stats_object.decode_encode by blast

lemmas encoding_defs = stats_encode_canonical_def enc_versioned_def stats_encode_body_def enc_range_def
  enc_sink_def enc_try_def try_from_usize_def enc_u16_def enc_u32_def enc_new_def enc_seq.simps

lemma derive_one_token:
  assumes "\<forall>c < channels. f16_exp (from_le_bytes [bs ! (c * 2), bs ! (c * 2 + 1)]) \<noteq> 31"
    and "0 < channels" "channels \<le> 2" "length bs = channels * 2"
  shows "\<exists>s. derive_f16 1 channels 1 bs = Inr s
    \<and> key_l2_norms s = [f32_to_f16 (norm_bits (foldl norm_step 0
        (map (\<lambda>c. f16_to_f32 (from_le_bytes [bs ! (c * 2), bs ! (c * 2 + 1)])) [0..<channels])))]"
proof -
  have el: "stats_element bs channels 0 c = Inr (f16_to_f32 (from_le_bytes [bs ! (c * 2), bs ! (c * 2 + 1)]))"
    if "c < channels" for c using assms(1) that by (simp add: stats_element_def Let_def finite_f16)
  have "channels = 1 \<or> channels = 2" using assms(2,3) by auto
  moreover have "[0..<2] = [0, 1 :: nat]" by (simp add: upt_rec)
  ultimately show ?thesis
    using el [of 0] el [of 1] assms(4)
    by (auto simp: derive_f16_def derive_range_def derive_norm_def Let_def wire_consts usize_checked_mul_def
        top_sinks_def encoding_defs)
qed

theorem derived_sidecar_round_trip_witness:
  "\<exists>s encoded. derive_f16 1 1 1 [0, 0] = Inr s
    \<and> stats_encode_canonical s = Inr encoded \<and> stats_decode_canonical encoded = Inr s"
proof -
  have zero: "f32_to_f16 (norm_bits (norm_step 0 (f16_to_f32 (from_le_bytes [0, 0])))) = 0"
  proof -
    have "bit_length 0 = 0" "isqrt 0 = 0" by (simp_all add: bit_length.simps isqrt.simps)
    then have "round_sig p 0 = 0" "f32_of_mag 0 = 0" for p by (simp_all add: round_sig_def f32_of_mag_def)
    moreover have "f16_to_f32 (from_le_bytes [0, 0]) = 0" by (simp add: from_le_bytes_def f16_to_f32_def)
    moreover have "f32_mag 0 = 0" by (simp add: f32_mag_def f32_exp_def f32_man_def)
    moreover have "f32_to_f16 0 = 0" by (simp add: f32_to_f16_def f32_is_nan_def)
    ultimately show ?thesis using \<open>isqrt 0 = 0\<close> by (simp add: norm_step_def norm_bits_def Let_def)
  qed
  obtain s where s: "derive_f16 1 1 1 [0, 0] = Inr s" "key_l2_norms s = [0]"
    using derive_one_token [of 1 "[0, 0]"] zero by (auto simp: from_le_bytes_def f16_exp_def)
  with derived_sidecar_round_trip [OF s(1)] show ?thesis by auto
qed

text \<open>A norm of at least \<open>2 ^ 16\<close> becomes the half-precision infinity.\<close>

lemma norm_overflow:
  assumes "2 ^ 330 \<le> acc"
  shows "f32_to_f16 (norm_bits acc) = 0x7c00"
proof -
  have "(2 :: nat) ^ 165 * 2 ^ 165 \<le> acc" using assms by simp
  then have "2 ^ 165 \<le> isqrt acc" by (rule isqrt_ge)
  then have "2 ^ 166 \<le> 2 * isqrt acc + (if isqrt acc * isqrt acc = acc then 0 else 1)" by simp
  from round_sig_ge [OF this, of 53] have root: "2 ^ 165 \<le> round_sig 53 (2 * isqrt acc
      + (if isqrt acc * isqrt acc = acc then 0 else 1)) div 2" by simp
  have x: "143 \<le> f32_exp (norm_bits acc)" "f32_sign (norm_bits acc) = 0" "\<not> f32_is_nan (norm_bits acc)"
    using f32_of_mag_exp [OF round_sig_ge [OF root, of 24]] f32_of_mag_positive
    by (simp_all add: norm_bits_def Let_def)
  then show ?thesis by (rule f32_to_f16_overflow)
qed

lemma norm_rejected: "f16_exp n = 31 \<Longrightarrow> rejects (enc_u16 n) dec_norm"
proof -
  assume "f16_exp n = 31"
  then have bad: "\<not> f32_is_finite (f16_to_f32 n)" by (simp add: finite_f16)
  have "rejects (enc_seq [enc_u16 n]) dec_norm"
    unfolding dec_norm_def
    by (rule rejects_bind [OF codes_prims(2)]) (simp add: bad rejects_dfail [OF emits_Nil])
  then show ?thesis unfolding rejects_def emits_def enc_seq.simps by (simp add: enc_u16_def enc_seq.simps)
qed

lemma overflow_rejected:
  assumes "channel_ranges s \<noteq> []" "length (channel_ranges s) \<le> MAX_SIDECAR_CHANNELS"
    and "list_all ok_range (channel_ranges s)"
    and "key_l2_norms s \<noteq> []" "length (key_l2_norms s) \<le> MAX_SIDECAR_TOKENS"
    and "\<forall>n \<in> set (key_l2_norms s). n \<noteq> 0x7c00 \<longrightarrow> ok_norm n" and "0x7c00 \<in> set (key_l2_norms s)"
    and "length (sink_scores s) \<le> MAX_SINK_SCORES"
  shows "rejects (stats_encode_body s) stats_decode_body"
proof -
  let ?norms = "key_l2_norms s"
  obtain xs zs where split: "?norms = xs @ 0x7c00 # zs" and xs: "0x7c00 \<notin> set xs"
    using split_list_first [OF assms(7)] by blast
  have "ok_norm x" if "x \<in> set xs" for x
  proof -
    have "x \<in> set ?norms" "x \<noteq> 0x7c00" using that xs split by auto
    then show ?thesis using assms(6) by blast
  qed
  then have "list_all ok_norm xs" by (simp add: list_all_iff)
  moreover have "emits (enc_seq (map enc_u16 zs)) (concat (map to_le_bytes zs))"
    by (induction zs) (simp_all add: emits_Nil emits_Cons)
  moreover have "rejects (enc_u16 0x7c00) dec_norm" by (rule norm_rejected) (simp add: f16_exp_def)
  ultimately have norms: "rejects (enc_seq (map enc_u16 ?norms)) (dec_times (length ?norms) dec_norm)"
    unfolding split by (intro norm_codec.rejects_list)
  obtain cs where sinks: "emits (enc_seq (map enc_sink (sink_scores s))) cs"
    using sink_codec.round_list [of "sink_scores s" "length (sink_scores s)"] by (auto simp: codes_def list_all_iff)
  have "emits (enc_seq [enc_try (try_from_usize (length (sink_scores s)) ''stats sidecar sink count exceeds u16'') enc_u16,
      enc_seq (map enc_sink (sink_scores s))]) (to_le_bytes (of_nat (length (sink_scores s)) :: u16) @ cs @ [])"
    using assms(8) by (intro emits_Cons sinks emits_Nil) (simp add: wire_consts)
  note tail = rejects_head [OF norms this]
  have n: "unat (of_nat (length (channel_ranges s)) :: u32) = length (channel_ranges s)" "length (channel_ranges s) < 2 ^ 32"
    "unat (of_nat (length ?norms) :: u32) = length ?norms" "length ?norms < 2 ^ 32"
    using assms(2,5) by (simp_all add: wire_consts unat_of_nat)
  show ?thesis
    unfolding stats_encode_body_def stats_decode_body_def
    by (rule rejects_bind [OF codes_count32 [OF n(2)]], unfold n(1), subst if_not_P, use assms(1,2) in simp,
        rule rejects_bind [OF range_codec.round_list [OF assms(3) refl]],
        rule rejects_bind [OF codes_count32 [OF n(4)]], unfold n(3), subst if_not_P, use assms(4,5) in simp,
        rule tail)
qed

text \<open>Property C37.  A derived sidecar with an overflowing norm cannot be read back: it encodes within
  the header capacity, but decoding its own encoding fails.\<close>

theorem derived_sidecar_overflow:
  assumes "derive_f16 tokens channels sink_count bs = Inr s" and "0x7c00 \<in> set (key_l2_norms s)"
  shows "\<exists>encoded. stats_encode_canonical s = Inr encoded \<and> length encoded \<le> MAX_STATS_SIDECAR_BYTES
    \<and> (\<exists>err. stats_decode_canonical encoded = Inl err)"
proof -
  note parts = derive_f16_parts [OF assms(1)]
  obtain encoded where e: "stats_encode_canonical s = Inr encoded" "length encoded \<le> MAX_STATS_SIDECAR_BYTES"
    using parts(7) by blast
  have "rejects (stats_encode_body s) stats_decode_body"
    using parts assms(2) by (intro overflow_rejected) (auto simp flip: length_greater_0_conv)
  from decode_object_rejected [OF _ rejects_versioned [OF this], of STATS_SIDECAR_MAGIC encoded
      "''unsupported stats sidecar version''" "''stats sidecar reserved field is nonzero''"] e
  obtain err where "decode_object STATS_SIDECAR_MAGIC
        (dec_versioned ''unsupported stats sidecar version'' ''stats sidecar reserved field is nonzero''
          stats_decode_body) encoded = Inl err"
    by (auto simp: stats_encode_canonical_def wire_consts)
  then have "stats_decode_canonical encoded = Inl err" using e(2) by (simp add: stats_decode_canonical_def)
  with e show ?thesis by blast
qed

theorem derived_sidecar_overflow_witness:
  "\<exists>s encoded err. derive_f16 1 2 1 [0xff, 0x7b, 0xff, 0x7b] = Inr s
    \<and> stats_encode_canonical s = Inr encoded \<and> stats_decode_canonical encoded = Inl err"
proof -
  have le: "from_le_bytes [0xff, 0x7b] = (0x7bff :: u16)" by (simp add: from_le_bytes_def)
  let ?v = "f16_to_f32 0x7bff"
  have "f32_mag ?v = 2047 * 2 ^ 154"
    using f16_to_f32_fields(2) [of "0x7bff"] by (simp add: f16_mag_def f16_exp_def f16_man_def)
  then have "2 ^ 329 \<le> f32_mag ?v * f32_mag ?v" by simp
  then have sq: "2 ^ 329 \<le> round_sig 53 (f32_mag ?v * f32_mag ?v)" by (rule round_sig_ge) simp
  then have "2 ^ 329 \<le> norm_step 0 ?v" unfolding norm_step_def by (intro round_sig_ge) simp_all
  with sq have "2 ^ 330 \<le> norm_step (norm_step 0 ?v) ?v" unfolding norm_step_def [of "norm_step 0 ?v"]
    by (intro round_sig_ge) simp_all
  then have inf: "f32_to_f16 (norm_bits (norm_step (norm_step 0 ?v) ?v)) = 0x7c00" by (rule norm_overflow)
  have two: "[0..<2] = [0, 1 :: nat]" by (simp add: upt_rec)
  have "\<forall>c < 2. f16_exp (from_le_bytes [[0xff, 0x7b, 0xff, 0x7b] ! (c * 2), [0xff, 0x7b, 0xff, 0x7b] ! (c * 2 + 1)]) \<noteq> 31"
    by (auto simp: less_2_cases_iff le f16_exp_def)
  from derive_one_token [OF this] obtain s where
    s: "derive_f16 1 2 1 [0xff, 0x7b, 0xff, 0x7b] = Inr s" "key_l2_norms s = [0x7c00]"
    by (auto simp: two le inf)
  with derived_sidecar_overflow [OF s(1)] show ?thesis by auto
qed

end
