(* ===== verification/Chunk_Object.thy ===== *)
theory Chunk_Object
  imports Codec_Frame Ids Stats
begin

text \<open>
  Chunk objects (\<^verbatim>\<open>kvpack-core/src/chunk.rs\<close>): a 4096-byte header, the codec frame, encrypted or
  not, and zero padding to the alignment.  Randomness is an argument (the salt and the nonce the
  system generator returned, or its failure).  The lemmas show that decoding inverts encoding,
  what an accepted object establishes, and that a stale content identity is never readable.
\<close>

definition HEADER_DIGEST_OFFSET :: nat where [wire_consts]: "HEADER_DIGEST_OFFSET = 204"

record chunk_encoding =
  ce_tenant_namespace :: id32
  ce_family :: representation_family_id
  ce_state_key :: state_key
  ce_span :: chunk_span
  ce_key_epoch :: u64
  ce_encrypt :: bool
  ce_stats_sidecar :: "stats_sidecar option"

record chunk_object =
  co_chunk_id :: id32
  co_object_key :: id32
  co_object_digest :: id32
  co_plaintext_bytes :: u32
  co_bytes :: bytes

text \<open>Adding \<open>ALIGNMENT - 1\<close> and clearing the low bits.\<close>

definition align :: "nat \<Rightarrow> nat result" where
  "align v = rbind (ok_or (usize_checked_add v (ALIGNMENT - 1)) (Bounds ''chunk object length overflow''))
     (\<lambda>rounded. Inr (rounded - rounded mod ALIGNMENT))"

text \<open>\<^verbatim>\<open>slice::binary_search_by\<close> on the state keys.\<close>

function search_base :: "family_state list \<Rightarrow> state_key \<Rightarrow> nat \<Rightarrow> nat \<Rightarrow> nat" where
  "search_base states key base count =
     (if count > 1 then
        let half = count div 2; mid = base + half in
        search_base states key (if fs_key (states ! mid) > key then base else mid) (count - half)
      else base)"
  by auto
termination by (relation "measure (\<lambda>(_, _, _, count). count)") auto

declare search_base.simps [simp del]

definition lookup_family_state :: "representation_family_id \<Rightarrow> state_key \<Rightarrow> family_state result" where
  "lookup_family_state family key =
     (let states = rf_states family; base = search_base states key 0 (length states) in
      if states \<noteq> [] \<and> fs_key (states ! base) = key then Inr (states ! base)
      else Inl (Semantics ''chunk state is absent from representation family''))"

record object_identity =
  oi_tenant :: id32
  oi_family :: id32
  oi_content :: id32
  oi_key_epoch :: u64
  oi_codec :: codec
  oi_codec_version :: u16
  oi_encrypted :: bool
  oi_salt :: bytes
  oi_nonce :: bytes
  oi_stats_digest :: "id32 option"

definition derive_object_key :: "crypto \<Rightarrow> key_schedule \<Rightarrow> object_identity \<Rightarrow> id32" where
  "derive_object_key C keys i = hmac C (ks_object_identity keys)
     ([label ''kvpack/v1/chunk-object'', oi_tenant i, oi_family i, oi_content i,
       to_le_bytes (oi_key_epoch i), to_le_bytes (codec_wire (oi_codec i)),
       to_le_bytes (oi_codec_version i), [if oi_encrypted i then 1 else 0], oi_salt i, oi_nonce i]
      @ (case oi_stats_digest i of None \<Rightarrow> []
         | Some d \<Rightarrow> [label ''kvpack/v1/chunk-object-stats'', d]))"

definition derive_encryption_key :: "crypto \<Rightarrow> key_schedule \<Rightarrow> id32 \<Rightarrow> id32 \<Rightarrow> bytes \<Rightarrow> bytes result" where
  "derive_encryption_key C keys content object_key salt =
     ok_or (cr_hkdf C salt (ks_chunk_encryption keys) (label ''kvpack/v1/chunk-aead'' @ content @ object_key))
       (Authentication ''chunk key derivation failed'')"

text \<open>The header with its digest field, before the reserved tail is filled with zeros.\<close>

definition identity_digest :: "crypto \<Rightarrow> stats_sidecar \<Rightarrow> id32 result" where
  "identity_digest C sidecar = rbind (stats_encode_canonical sidecar) (\<lambda>encoded. Inr (sha256 C [encoded]))"

definition chunk_header :: "u32 \<Rightarrow> codec \<Rightarrow> u16 \<Rightarrow> nat \<Rightarrow> nat \<Rightarrow> nat \<Rightarrow> nat \<Rightarrow> u64 \<Rightarrow> id32 \<Rightarrow> id32 \<Rightarrow> id32
    \<Rightarrow> id32 \<Rightarrow> bytes \<Rightarrow> bytes \<Rightarrow> bytes \<Rightarrow> bytes option \<Rightarrow> bytes" where
  "chunk_header flags codec codec_version plaintext_len encoded_len payload_bytes object_bytes key_epoch
     tenant family content object_key salt nonce digest sidecar =
     CHUNK_MAGIC @ to_le_bytes WIRE_VERSION @ to_le_bytes (of_nat CHUNK_HEADER_BYTES :: u16)
     @ to_le_bytes (of_nat ALIGNMENT :: u32) @ to_le_bytes flags @ to_le_bytes (codec_wire codec)
     @ to_le_bytes codec_version @ to_le_bytes (of_nat plaintext_len :: u32)
     @ to_le_bytes (of_nat encoded_len :: u32) @ to_le_bytes (of_nat payload_bytes :: u32)
     @ to_le_bytes (of_nat object_bytes :: u32) @ to_le_bytes key_epoch @ tenant @ family @ content
     @ object_key @ salt @ nonce @ digest
     @ (case sidecar of None \<Rightarrow> [] | Some s \<Rightarrow> to_le_bytes (of_nat (length s) :: u16) @ s)"

text \<open>What the generator returned for the salt and the nonce.\<close>

type_synonym entropy = "bytes option \<times> bytes option"

definition assemble_chunk :: "crypto \<Rightarrow> key_schedule \<Rightarrow> bytes \<Rightarrow> chunk_encoding \<Rightarrow> codec \<Rightarrow> u16 \<Rightarrow> bytes \<Rightarrow> id32
    \<Rightarrow> id32 \<Rightarrow> id32 \<Rightarrow> bytes \<Rightarrow> bytes \<Rightarrow> bytes option \<Rightarrow> nat \<Rightarrow> nat \<Rightarrow> chunk_object result" where
  "assemble_chunk C keys plaintext encoding codec codec_version encoded family content object_key salt nonce
     sidecar_bytes payload_bytes object_bytes =
     (let flags = (if ce_encrypt encoding then FLAG_ENCRYPTED else 0);
          blank = resize (chunk_header flags codec codec_version (length plaintext) (length encoded)
            payload_bytes object_bytes (ce_key_epoch encoding) (ce_tenant_namespace encoding) family
            content object_key salt nonce (replicate 32 0) sidecar_bytes) CHUNK_HEADER_BYTES;
          header = patch blank HEADER_DIGEST_OFFSET (sha256 C [blank]) in
      rbind (if ce_encrypt encoding
         then rbind (derive_encryption_key C keys content object_key salt) (\<lambda>key.
           ok_or (cr_seal C key nonce header encoded) (Authentication ''chunk encryption failed''))
         else Inr encoded) (\<lambda>payload.
      let bytes = resize (header @ payload) object_bytes in
      Inr \<lparr>co_chunk_id = content, co_object_key = object_key, co_object_digest = sha256 C [bytes],
           co_plaintext_bytes = of_nat (length plaintext), co_bytes = bytes\<rparr>))"

definition encode_chunk_with_content_id ::
  "crypto \<Rightarrow> entropy \<Rightarrow> bytes \<Rightarrow> chunk_encoding \<Rightarrow> key_schedule \<Rightarrow> id32 option \<Rightarrow> chunk_object result" where
  "encode_chunk_with_content_id C rng plaintext encoding keys content_id =
     (if ce_key_epoch encoding = 0 then Inl (Semantics ''chunk key epoch must be nonzero'')
      else if unat (cs_plaintext_bytes (ce_span encoding)) \<noteq> length plaintext \<or> cs_token_count (ce_span encoding) = 0
      then Inl (Semantics ''chunk plaintext does not match its declared span'')
      else rbind (lookup_family_state (ce_family encoding) (ce_state_key encoding)) (\<lambda>family_state.
      let codec = fs_codec family_state; codec_version = fs_codec_version family_state in
      if codec_version \<noteq> 1 then Inl (Codec ''unsupported chunk codec version'')
      else rbind (encode_codec_frame codec plaintext) (\<lambda>encoded.
      rbind (family_digest C (ce_family encoding)) (\<lambda>family.
      rbind (case content_id of Some content \<Rightarrow> Inr content
         | None \<Rightarrow> chunk_id C (ks_chunk_identity keys) (ce_tenant_namespace encoding) (ce_family encoding)
             (ce_state_key encoding) (ce_span encoding) plaintext) (\<lambda>content.
      rbind (if ce_encrypt encoding
         then ok_or (fst rng) (Authentication ''chunk salt generation failed'')
         else Inr (replicate 16 0)) (\<lambda>salt.
      rbind (if ce_encrypt encoding
         then ok_or (snd rng) (Authentication ''chunk nonce generation failed'')
         else Inr (replicate 12 0)) (\<lambda>nonce.
      rbind (case ce_stats_sidecar encoding of None \<Rightarrow> Inr None
         | Some sidecar \<Rightarrow> rbind (stats_encode_canonical sidecar) (\<lambda>encoded.
             if encoded = [] \<or> length encoded > MAX_STATS_SIDECAR_BYTES
             then Inl (Bounds ''stats sidecar exceeds the chunk header capacity'')
             else Inr (Some encoded))) (\<lambda>sidecar_bytes.
      let stats_digest = map_option (\<lambda>s. sha256 C [s]) sidecar_bytes;
          object_key = derive_object_key C keys
            \<lparr>oi_tenant = ce_tenant_namespace encoding, oi_family = family, oi_content = content,
             oi_key_epoch = ce_key_epoch encoding, oi_codec = codec, oi_codec_version = codec_version,
             oi_encrypted = ce_encrypt encoding, oi_salt = salt, oi_nonce = nonce,
             oi_stats_digest = stats_digest\<rparr> in
      rbind (ok_or (usize_checked_add (length encoded) (if ce_encrypt encoding then 16 else 0))
        (Bounds ''chunk payload length overflow'')) (\<lambda>payload_bytes.
      rbind (ok_or (usize_checked_add CHUNK_HEADER_BYTES payload_bytes) (Bounds ''chunk object length overflow''))
        (\<lambda>unaligned.
      rbind (align unaligned) (\<lambda>object_bytes.
      if object_bytes > MAX_CHUNK_OBJECT_BYTES then Inl (Bounds ''encoded chunk object exceeds bound'')
      else assemble_chunk C keys plaintext encoding codec codec_version encoded family content object_key
        salt nonce sidecar_bytes payload_bytes object_bytes)))))))))))"

definition encode_chunk :: "crypto \<Rightarrow> entropy \<Rightarrow> bytes \<Rightarrow> chunk_encoding \<Rightarrow> key_schedule \<Rightarrow> chunk_object result" where
  "encode_chunk C rng plaintext encoding keys = encode_chunk_with_content_id C rng plaintext encoding keys None"

text \<open>The sidecar in the header tail, with its digest.\<close>

definition decode_sidecar :: "crypto \<Rightarrow> bytes \<Rightarrow> (stats_sidecar \<times> id32) option result" where
  "decode_sidecar C bytes =
     (let sidecar_len = unat (get_u16 bytes CHUNK_HEADER_SIDECAR_OFFSET) in
      if sidecar_len \<noteq> 0 then
        if sidecar_len > MAX_STATS_SIDECAR_BYTES
        then Inl (Bounds ''chunk stats sidecar length is outside bounds'')
        else let sidecar_start = CHUNK_HEADER_SIDECAR_OFFSET + 2;
                 sidecar_end = sidecar_start + sidecar_len in
        rbind (stats_decode_canonical (subslice bytes sidecar_start sidecar_end)) (\<lambda>sidecar.
        if any_nonzero (subslice bytes sidecar_end CHUNK_HEADER_BYTES)
        then Inl (Reserved ''chunk header sidecar padding is nonzero'')
        else Inr (Some (sidecar, sha256 C [subslice bytes sidecar_start sidecar_end])))
      else if any_nonzero (subslice bytes CHUNK_HEADER_SIDECAR_OFFSET CHUNK_HEADER_BYTES)
      then Inl (Reserved ''chunk header reserved bytes are nonzero'')
      else Inr None)"

text \<open>The framing and reserved-field checks that precede authentication.\<close>

record chunk_framing =
  cf_codec :: codec
  cf_codec_version :: u16
  cf_plaintext_bytes :: nat
  cf_encoded_bytes :: nat
  cf_encrypted :: bool
  cf_payload_end :: nat
  cf_stats_sidecar :: "(stats_sidecar \<times> id32) option"

definition parse_chunk_framing :: "crypto \<Rightarrow> bytes \<Rightarrow> chunk_ref \<Rightarrow> chunk_span \<Rightarrow> chunk_framing result" where
  "parse_chunk_framing C bytes expected expected_span =
     (if length bytes < CHUNK_HEADER_BYTES \<or> length bytes > MAX_CHUNK_OBJECT_BYTES \<or> length bytes mod ALIGNMENT \<noteq> 0
      then Inl (Bounds ''invalid chunk object length'')
      else if take 8 bytes \<noteq> CHUNK_MAGIC then Inl (BadMagic ''invalid production chunk magic'')
      else if get_u16 bytes 8 \<noteq> WIRE_VERSION \<or> unat (get_u16 bytes 10) \<noteq> CHUNK_HEADER_BYTES
         \<or> unat (get_u32 bytes 12) \<noteq> ALIGNMENT
      then Inl (BadMagic ''invalid chunk header contract'')
      else let flags = get_u32 bytes 16 in
      if flags AND NOT KNOWN_FLAGS \<noteq> 0 then Inl (Reserved ''unknown chunk flags'')
      else rbind (codec_from_wire (get_u16 bytes 20)) (\<lambda>codec.
      let codec_version = get_u16 bytes 22 in
      if codec_version \<noteq> 1 then Inl (Codec ''unsupported chunk codec version'')
      else let plaintext_bytes = unat (get_u32 bytes 24);
               encoded_bytes = unat (get_u32 bytes 28);
               payload_bytes = unat (get_u32 bytes 32) in
      if plaintext_bytes = 0 \<or> plaintext_bytes > MAX_CHUNK_PLAINTEXT
         \<or> \<not> (CODEC_FRAME_HEADER_BYTES \<le> encoded_bytes \<and> encoded_bytes \<le> MAX_CHUNK_PLAINTEXT + MAX_CODEC_OVERHEAD)
         \<or> unat (get_u32 bytes 36) \<noteq> length bytes
      then Inl (Bounds ''invalid chunk size fields'')
      else let encrypted = (flags AND FLAG_ENCRYPTED \<noteq> 0) in
      if payload_bytes \<noteq> encoded_bytes + (if encrypted then 16 else 0)
      then Inl (Bounds ''chunk payload length does not match encryption mode'')
      else rbind (ok_or (usize_checked_add CHUNK_HEADER_BYTES payload_bytes) (Bounds ''chunk payload offset overflow''))
        (\<lambda>payload_end.
      if payload_end > length bytes then Inl (Truncated ''truncated chunk payload'')
      else if any_nonzero (drop payload_end bytes) then Inl (Reserved ''chunk padding is nonzero'')
      else rbind (decode_sidecar C bytes) (\<lambda>stats_sidecar.
      if \<not> encrypted \<and> any_nonzero (subslice bytes 176 204)
      then Inl (Reserved ''unencrypted chunk salt or nonce is nonzero'')
      else if length bytes \<noteq> unat (cr_object_bytes expected) \<or> plaintext_bytes \<noteq> unat (cr_plaintext_bytes expected)
         \<or> plaintext_bytes \<noteq> unat (cs_plaintext_bytes expected_span)
      then Inl (Bounds ''chunk reference size mismatch'')
      else Inr \<lparr>cf_codec = codec, cf_codec_version = codec_version, cf_plaintext_bytes = plaintext_bytes,
                cf_encoded_bytes = encoded_bytes, cf_encrypted = encrypted, cf_payload_end = payload_end,
                cf_stats_sidecar = stats_sidecar\<rparr>))))"

text \<open>The envelope: object and header digests, family, namespace, epoch, identity and object key.\<close>

definition authenticate_chunk :: "crypto \<Rightarrow> bytes \<Rightarrow> chunk_framing \<Rightarrow> chunk_ref \<Rightarrow> id32
    \<Rightarrow> representation_family_id \<Rightarrow> state_key \<Rightarrow> key_schedule \<Rightarrow> unit result" where
  "authenticate_chunk C bytes fr expected expected_tenant expected_family expected_state_key keys =
     (if sha256 C [bytes] \<noteq> cr_object_digest expected
      then Inl (Authentication ''chunk object digest mismatch'')
      else let header = take CHUNK_HEADER_BYTES bytes;
               expected_header = subslice header HEADER_DIGEST_OFFSET (HEADER_DIGEST_OFFSET + 32) in
      if sha256 C [patch header HEADER_DIGEST_OFFSET (replicate 32 0)] \<noteq> expected_header
      then Inl (Authentication ''chunk header digest mismatch'')
      else rbind (lookup_family_state expected_family expected_state_key) (\<lambda>family_state.
      if cf_codec fr \<noteq> fs_codec family_state \<or> cf_codec_version fr \<noteq> fs_codec_version family_state
      then Inl (Semantics ''chunk codec does not match representation family'')
      else let tenant = subslice bytes 48 80; family = subslice bytes 80 112 in
      rbind (family_digest C expected_family) (\<lambda>expected_family_id.
      if tenant \<noteq> expected_tenant \<or> family \<noteq> expected_family_id \<or> get_u64 bytes 40 \<noteq> cr_key_epoch expected
      then Inl (Authentication ''chunk namespace, family, or epoch mismatch'')
      else let content = subslice bytes 112 144; object_key = subslice bytes 144 176;
               derived_object_key = derive_object_key C keys
                 \<lparr>oi_tenant = tenant, oi_family = family, oi_content = content,
                  oi_key_epoch = cr_key_epoch expected, oi_codec = cf_codec fr, oi_codec_version = cf_codec_version fr,
                  oi_encrypted = cf_encrypted fr, oi_salt = subslice bytes 176 192, oi_nonce = subslice bytes 192 204,
                  oi_stats_digest = map_option snd (cf_stats_sidecar fr)\<rparr> in
      if content \<noteq> cr_chunk_id expected \<or> object_key \<noteq> cr_object_key expected \<or> object_key \<noteq> derived_object_key
      then Inl (Authentication ''chunk identity or object key mismatch'')
      else Inr ())))"

definition decode_chunk_with_stats :: "crypto \<Rightarrow> bytes \<Rightarrow> chunk_ref \<Rightarrow> chunk_span \<Rightarrow> id32
    \<Rightarrow> representation_family_id \<Rightarrow> state_key \<Rightarrow> key_schedule \<Rightarrow> (bytes \<times> stats_sidecar option) result" where
  "decode_chunk_with_stats C bytes expected expected_span expected_tenant expected_family expected_state_key keys =
     rbind (parse_chunk_framing C bytes expected expected_span) (\<lambda>fr.
     rbind (authenticate_chunk C bytes fr expected expected_tenant expected_family expected_state_key keys) (\<lambda>_.
     let tenant = subslice bytes 48 80; content = subslice bytes 112 144; object_key = subslice bytes 144 176;
         salt = subslice bytes 176 192; nonce = subslice bytes 192 204;
         payload = subslice bytes CHUNK_HEADER_BYTES (cf_payload_end fr) in
     rbind (if cf_encrypted fr
       then rbind (derive_encryption_key C keys content object_key salt) (\<lambda>key.
         ok_or (cr_open C key nonce (take CHUNK_HEADER_BYTES bytes) payload)
           (Authentication ''chunk AEAD authentication failed''))
       else Inr payload) (\<lambda>encoded.
     if length encoded \<noteq> cf_encoded_bytes fr then Inl (Bounds ''chunk encoded length mismatch'')
     else rbind (decode_codec_frame (cf_codec fr) encoded (cf_plaintext_bytes fr)) (\<lambda>plaintext.
     rbind (chunk_id C (ks_chunk_identity keys) tenant expected_family expected_state_key expected_span plaintext)
       (\<lambda>derived_content.
     if derived_content \<noteq> content then Inl (Authentication ''chunk plaintext identity mismatch'')
     else Inr (plaintext, map_option fst (cf_stats_sidecar fr)))))))"

definition decode_chunk :: "crypto \<Rightarrow> bytes \<Rightarrow> chunk_ref \<Rightarrow> chunk_span \<Rightarrow> id32
    \<Rightarrow> representation_family_id \<Rightarrow> state_key \<Rightarrow> key_schedule \<Rightarrow> bytes result" where
  "decode_chunk C bytes expected expected_span expected_tenant expected_family expected_state_key keys =
     rbind (decode_chunk_with_stats C bytes expected expected_span expected_tenant expected_family
       expected_state_key keys) (\<lambda>decoded. Inr (fst decoded))"

section \<open>Layout\<close>

definition aead_ok :: "crypto \<Rightarrow> bool" where
  "aead_ok C \<longleftrightarrow> (\<forall>key nonce aad msg sealed. cr_seal C key nonce aad msg = Some sealed \<longrightarrow>
     cr_open C key nonce aad sealed = Some msg \<and> length sealed = length msg + 16)"

definition entropy_ok :: "entropy \<Rightarrow> bool" where
  "entropy_ok rng \<longleftrightarrow> (\<forall>salt. fst rng = Some salt \<longrightarrow> length salt = 16) \<and> (\<forall>nonce. snd rng = Some nonce \<longrightarrow> length nonce = 12)"

lemma align_ok:
  "align v = Inr w \<Longrightarrow> v \<le> w \<and> w < v + ALIGNMENT \<and> w mod ALIGNMENT = 0"
proof -
  assume "align v = Inr w"
  then have w: "w = (v + 4095) - (v + 4095) mod 4096"
    by (auto simp: align_def ok_iff wire_consts)
  have "(v + 4095) mod 4096 < 4096" by simp
  moreover have "w = (v + 4095) div 4096 * 4096" unfolding w by (rule minus_mod_eq_div_mult)
  ultimately show ?thesis using w by (auto simp: wire_consts)
qed

lemma align_total: "v < 2 ^ 63 \<Longrightarrow> \<exists>w. align v = Inr w"
  by (simp add: align_def usize_checked_add_def wire_consts)

lemma any_nonzero_zeros [simp]: "\<not> any_nonzero (replicate n 0)" "\<not> any_nonzero []"
  by (auto simp: any_nonzero_def list_ex_iff)

lemma zeros_iff: "\<not> any_nonzero bs \<longleftrightarrow> bs = replicate (length bs) 0"
  by (auto simp: any_nonzero_def list_ex_iff intro: replicate_eqI) (metis in_set_replicate)

lemma resize_grow: "length bs \<le> n \<Longrightarrow> resize bs n = bs @ replicate (n - length bs) 0"
  by (simp add: resize_def)

definition sidecar_area :: "bytes option \<Rightarrow> bytes" where
  "sidecar_area sidecar = (case sidecar of None \<Rightarrow> [] | Some s \<Rightarrow> to_le_bytes (of_nat (length s) :: u16) @ s)"

text \<open>A header is 204 bytes of fields, the digest, and the sidecar area filled up with zeros.\<close>

definition header_fields :: "u32 \<Rightarrow> codec \<Rightarrow> u16 \<Rightarrow> nat \<Rightarrow> nat \<Rightarrow> nat \<Rightarrow> nat \<Rightarrow> u64 \<Rightarrow> id32 \<Rightarrow> id32 \<Rightarrow> id32
    \<Rightarrow> id32 \<Rightarrow> bytes \<Rightarrow> bytes \<Rightarrow> bytes" where
  "header_fields flags codec codec_version plaintext_len encoded_len payload_bytes object_bytes key_epoch
     tenant family content object_key salt nonce =
     CHUNK_MAGIC @ to_le_bytes WIRE_VERSION @ to_le_bytes (of_nat CHUNK_HEADER_BYTES :: u16)
     @ to_le_bytes (of_nat ALIGNMENT :: u32) @ to_le_bytes flags @ to_le_bytes (codec_wire codec)
     @ to_le_bytes codec_version @ to_le_bytes (of_nat plaintext_len :: u32)
     @ to_le_bytes (of_nat encoded_len :: u32) @ to_le_bytes (of_nat payload_bytes :: u32)
     @ to_le_bytes (of_nat object_bytes :: u32) @ to_le_bytes key_epoch @ tenant @ family @ content
     @ object_key @ salt @ nonce"

lemma chunk_header_split:
  "chunk_header flags codec version pl el pb ob epoch tenant family content okey salt nonce digest sidecar
   = header_fields flags codec version pl el pb ob epoch tenant family content okey salt nonce
     @ digest @ sidecar_area sidecar"
  by (simp add: chunk_header_def header_fields_def sidecar_area_def)

lemma length_header_fields:
  "length tenant = 32 \<Longrightarrow> length family = 32 \<Longrightarrow> length content = 32 \<Longrightarrow> length okey = 32 \<Longrightarrow> length salt = 16 \<Longrightarrow>
   length nonce = 12 \<Longrightarrow>
   length (header_fields flags codec version pl el pb ob epoch tenant family content okey salt nonce) = 204"
  by (simp add: header_fields_def)

lemma header_fields_read:
  assumes "length tenant = 32" "length family = 32" "length content = 32" "length okey = 32"
    "length salt = 16" "length nonce = 12"
    and "pl < 2 ^ 32" "el < 2 ^ 32" "pb < 2 ^ 32" "ob < 2 ^ 32"
    and "h = header_fields flags codec version pl el pb ob epoch tenant family content okey salt nonce @ rest"
  shows "take 8 h = CHUNK_MAGIC" "get_u16 h 8 = WIRE_VERSION" "unat (get_u16 h 10) = CHUNK_HEADER_BYTES"
    "unat (get_u32 h 12) = ALIGNMENT" "get_u32 h 16 = flags" "get_u16 h 20 = codec_wire codec"
    "get_u16 h 22 = version" "unat (get_u32 h 24) = pl" "unat (get_u32 h 28) = el" "unat (get_u32 h 32) = pb"
    "unat (get_u32 h 36) = ob" "get_u64 h 40 = epoch" "subslice h 48 80 = tenant" "subslice h 80 112 = family"
    "subslice h 112 144 = content" "subslice h 144 176 = okey" "subslice h 176 192 = salt" "subslice h 192 204 = nonce"
    "subslice h 176 204 = salt @ nonce"
proof -
  have b: "unat (of_nat n :: u32) = n" if "n < 2 ^ 32" for n using that by (simp add: unat_of_nat)
  have c: "unat (of_nat CHUNK_HEADER_BYTES :: u16) = CHUNK_HEADER_BYTES" "unat (of_nat ALIGNMENT :: u32) = ALIGNMENT"
    by (simp_all add: wire_consts)
  have sn: "subslice (salt @ nonce @ rest) 0 28 = salt @ nonce"
    using assms(5,6) slice_fields(2) [of "salt @ nonce" 28 rest] by simp
  show "take 8 h = CHUNK_MAGIC" "get_u16 h 8 = WIRE_VERSION" "unat (get_u16 h 10) = CHUNK_HEADER_BYTES"
    "unat (get_u32 h 12) = ALIGNMENT" "get_u32 h 16 = flags" "get_u16 h 20 = codec_wire codec"
    "get_u16 h 22 = version" "unat (get_u32 h 24) = pl" "unat (get_u32 h 28) = el" "unat (get_u32 h 32) = pb"
    "unat (get_u32 h 36) = ob" "get_u64 h 40 = epoch" "subslice h 48 80 = tenant" "subslice h 80 112 = family"
    "subslice h 112 144 = content" "subslice h 144 176 = okey" "subslice h 176 192 = salt" "subslice h 192 204 = nonce"
    "subslice h 176 204 = salt @ nonce"
    unfolding assms(11) header_fields_def append_assoc
    using assms(1-6) by (simp_all add: slice_fields c b [OF assms(7), simplified] b [OF assms(8)] b [OF assms(9)] b [OF assms(10)] sn del: unsigned_of_nat)
qed

text \<open>Filling in the digest, and blanking it again, changes nothing else.\<close>

lemma patch_digest:
  "length hf = 204 \<Longrightarrow> length d = 32 \<Longrightarrow> length d' = 32 \<Longrightarrow>
   patch (hf @ d @ rest) HEADER_DIGEST_OFFSET d' = hf @ d' @ rest"
  by (simp add: patch_def wire_consts)

definition sidecar_source :: "stats_sidecar option \<Rightarrow> bytes option \<Rightarrow> bool" where
  "sidecar_source side sc \<longleftrightarrow> (case side of None \<Rightarrow> sc = None
     | Some s \<Rightarrow> \<exists>bs. sc = Some bs \<and> stats_encode_canonical s = Inr bs \<and> bs \<noteq> [] \<and> length bs \<le> MAX_STATS_SIDECAR_BYTES)"

lemma length_sidecar_area: "sidecar_source side sc \<Longrightarrow> length (sidecar_area sc) \<le> 3860"
  by (auto simp: sidecar_source_def sidecar_area_def wire_consts split: option.splits)

text \<open>What a successful encoding determined.\<close>

lemma encode_chunk_layout:
  assumes "encode_chunk_with_content_id C rng p e keys cid = Inr obj"
    and "digests_32 C" "aead_ok C" "entropy_ok rng" "length (ce_tenant_namespace e) = 32"
    and "\<forall>c. cid = Some c \<longrightarrow> length c = 32"
  obtains fs encoded family salt nonce sc payload ob hf header where
    "ce_key_epoch e \<noteq> 0" "unat (cs_plaintext_bytes (ce_span e)) = length p" "cs_token_count (ce_span e) \<noteq> 0"
    "lookup_family_state (ce_family e) (ce_state_key e) = Inr fs" "fs_codec_version fs = 1"
    "encode_codec_frame (fs_codec fs) p = Inr encoded" "family_digest C (ce_family e) = Inr family" "length family = 32"
    "cid = None \<Longrightarrow> chunk_id C (ks_chunk_identity keys) (ce_tenant_namespace e) (ce_family e) (ce_state_key e)
       (ce_span e) p = Inr (co_chunk_id obj)" "\<And>c. cid = Some c \<Longrightarrow> co_chunk_id obj = c" "length (co_chunk_id obj) = 32"
    "length salt = 16" "length nonce = 12" "\<not> ce_encrypt e \<Longrightarrow> salt = replicate 16 0 \<and> nonce = replicate 12 0"
    "sidecar_source (ce_stats_sidecar e) sc"
    "co_object_key obj = derive_object_key C keys
       \<lparr>oi_tenant = ce_tenant_namespace e, oi_family = family, oi_content = co_chunk_id obj,
        oi_key_epoch = ce_key_epoch e, oi_codec = fs_codec fs, oi_codec_version = 1,
        oi_encrypted = ce_encrypt e, oi_salt = salt, oi_nonce = nonce,
        oi_stats_digest = map_option (\<lambda>s. sha256 C [s]) sc\<rparr>"
    "length payload = length encoded + (if ce_encrypt e then 16 else 0)"
    "CHUNK_HEADER_BYTES + length payload \<le> ob" "ob \<le> MAX_CHUNK_OBJECT_BYTES" "ob mod ALIGNMENT = 0"
    "hf = header_fields (if ce_encrypt e then FLAG_ENCRYPTED else 0) (fs_codec fs) 1 (length p) (length encoded)
       (length payload) ob (ce_key_epoch e) (ce_tenant_namespace e) family (co_chunk_id obj) (co_object_key obj) salt nonce"
    "header = hf @ sha256 C [hf @ replicate 32 0 @ sidecar_area sc @ replicate (3860 - length (sidecar_area sc)) 0]
       @ sidecar_area sc @ replicate (3860 - length (sidecar_area sc)) 0"
    "if ce_encrypt e then \<exists>key. derive_encryption_key C keys (co_chunk_id obj) (co_object_key obj) salt = Inr key
       \<and> cr_seal C key nonce header encoded = Some payload else payload = encoded"
    "co_bytes obj = header @ payload @ replicate (ob - CHUNK_HEADER_BYTES - length payload) 0"
    "co_object_digest obj = sha256 C [co_bytes obj]" "co_plaintext_bytes obj = of_nat (length p)"
proof -
  have dig: "length (hmac C k ps) = 32" "length (sha256 C ps) = 32" for k ps
    using assms(2) by (simp_all add: hmac_def sha256_def digests_32_def)
  let ?enc = "ce_encrypt e" and ?tenant = "ce_tenant_namespace e"
  obtain fs encoded family content salt nonce sc pb unaligned ob where
    pre: "ce_key_epoch e \<noteq> 0" "unat (cs_plaintext_bytes (ce_span e)) = length p" "cs_token_count (ce_span e) \<noteq> 0"
    "lookup_family_state (ce_family e) (ce_state_key e) = Inr fs" "fs_codec_version fs = 1"
    and encoded: "encode_codec_frame (fs_codec fs) p = Inr encoded"
    and family: "family_digest C (ce_family e) = Inr family"
    and content: "(case cid of Some content \<Rightarrow> Inr content
         | None \<Rightarrow> chunk_id C (ks_chunk_identity keys) ?tenant (ce_family e) (ce_state_key e) (ce_span e) p) = Inr content"
    and salt: "(if ?enc then ok_or (fst rng) (Authentication ''chunk salt generation failed'') else Inr (replicate 16 0)) = Inr salt"
    and nonce: "(if ?enc then ok_or (snd rng) (Authentication ''chunk nonce generation failed'') else Inr (replicate 12 0)) = Inr nonce"
    and sc: "(case ce_stats_sidecar e of None \<Rightarrow> Inr None
         | Some sidecar \<Rightarrow> rbind (stats_encode_canonical sidecar) (\<lambda>encoded.
             if encoded = [] \<or> length encoded > MAX_STATS_SIDECAR_BYTES
             then Inl (Bounds ''stats sidecar exceeds the chunk header capacity'')
             else Inr (Some encoded))) = Inr sc"
    and pb: "usize_checked_add (length encoded) (if ?enc then 16 else 0) = Some pb"
    and ua: "usize_checked_add CHUNK_HEADER_BYTES pb = Some unaligned"
    and ob: "align unaligned = Inr ob" "ob \<le> MAX_CHUNK_OBJECT_BYTES"
    and asm: "assemble_chunk C keys p e (fs_codec fs) (fs_codec_version fs) encoded family content
        (derive_object_key C keys
         \<lparr>oi_tenant = ?tenant, oi_family = family, oi_content = content, oi_key_epoch = ce_key_epoch e,
          oi_codec = fs_codec fs, oi_codec_version = fs_codec_version fs, oi_encrypted = ?enc, oi_salt = salt,
          oi_nonce = nonce, oi_stats_digest = map_option (\<lambda>s. sha256 C [s]) sc\<rparr>) salt nonce sc pb ob = Inr obj"
    using assms(1) unfolding encode_chunk_with_content_id_def Let_def
    by (auto simp: rbind_eq_Inr if_Inl_eq_Inr ok_or_eq_Inr not_less simp del: Inl_Inr_False)
  define okey where "okey = derive_object_key C keys
         \<lparr>oi_tenant = ?tenant, oi_family = family, oi_content = content, oi_key_epoch = ce_key_epoch e,
          oi_codec = fs_codec fs, oi_codec_version = 1, oi_encrypted = ?enc, oi_salt = salt,
          oi_nonce = nonce, oi_stats_digest = map_option (\<lambda>s. sha256 C [s]) sc\<rparr>"
  define blank where "blank = resize (chunk_header (if ?enc then FLAG_ENCRYPTED else 0) (fs_codec fs) 1 (length p)
    (length encoded) pb ob (ce_key_epoch e) ?tenant family content okey salt nonce (replicate 32 0) sc) CHUNK_HEADER_BYTES"
  define hd where "hd = patch blank HEADER_DIGEST_OFFSET (sha256 C [blank])"
  note asm = asm [unfolded pre(5), folded okey_def, unfolded assemble_chunk_def Let_def, folded blank_def, folded hd_def]
  obtain payload where payload: "(if ?enc then rbind (derive_encryption_key C keys content okey salt) (\<lambda>key.
             ok_or (cr_seal C key nonce hd encoded) (Authentication ''chunk encryption failed''))
         else Inr encoded) = Inr payload"
    and obj_eq: "\<lparr>co_chunk_id = content, co_object_key = okey, co_object_digest = sha256 C [resize (hd @ payload) ob],
           co_plaintext_bytes = of_nat (length p), co_bytes = resize (hd @ payload) ob\<rparr> = obj"
    using asm unfolding rbind_eq_Inr sum.inject by blast
  have obj: "co_chunk_id obj = content" "co_object_digest obj = sha256 C [co_bytes obj]"
      "co_plaintext_bytes obj = of_nat (length p)" "co_object_key obj = okey" "co_bytes obj = resize (hd @ payload) ob"
    by (simp_all flip: obj_eq)
  let ?hf = "header_fields (if ?enc then FLAG_ENCRYPTED else 0) (fs_codec fs) 1 (length p) (length encoded)
       pb ob (ce_key_epoch e) ?tenant family content okey salt nonce"
  let ?tail = "sidecar_area sc @ replicate (3860 - length (sidecar_area sc)) 0"
  let ?header = "?hf @ sha256 C [?hf @ replicate 32 0 @ ?tail] @ ?tail"
  have lens: "length family = 32" "length content = 32" "length salt = 16" "length nonce = 12" "length okey = 32"
  proof -
    show "length family = 32" using family dig by (auto simp: family_digest_def rbind_eq_Inr)
    show "length content = 32"
      using content assms(6) dig by (auto simp: chunk_id_def rbind_eq_Inr if_Inl_eq_Inr split: option.splits)
    show "length salt = 16" "length nonce = 12"
      using salt nonce assms(4) by (auto simp: entropy_ok_def ok_or_eq_Inr split: if_splits)
    show "length okey = 32" unfolding okey_def derive_object_key_def by (rule dig)
  qed
  have hf: "length ?hf = 204" by (rule length_header_fields) (use assms(5) lens in simp_all)
  have side: "sidecar_source (ce_stats_sidecar e) sc"
    using sc by (auto simp: sidecar_source_def rbind_eq_Inr split: option.splits if_splits)
  note area = length_sidecar_area [OF side]
  have pbv: "pb = length encoded + (if ?enc then 16 else 0)" using pb by (simp add: usize_checked_add_Some)
  have blank: "blank = ?hf @ replicate 32 0 @ ?tail"
    unfolding blank_def chunk_header_split using hf area by (subst resize_grow) (simp_all add: wire_consts)
  have header: "hd = ?header" unfolding hd_def blank by (rule patch_digest [OF hf]) (simp_all add: dig)
  have hlen: "length ?header = CHUNK_HEADER_BYTES" using hf area dig by (simp add: wire_consts)
  note payload = payload [unfolded header]
  have plen: "length payload = pb"
    using payload assms(3) pbv by (auto simp: aead_ok_def rbind_eq_Inr ok_or_eq_Inr split: if_splits)
  have obs: "CHUNK_HEADER_BYTES + length payload \<le> ob" "ob mod ALIGNMENT = 0"
    using align_ok [OF ob(1)] ua plen by (simp_all add: usize_checked_add_Some)
  have bytes: "co_bytes obj = ?header @ payload @ replicate (ob - CHUNK_HEADER_BYTES - length payload) 0"
    unfolding obj(5) header using hlen obs(1) by (subst resize_grow) simp_all
  show ?thesis
  proof (rule that [of fs encoded family salt nonce sc payload ob ?hf ?header])
    show "cid = None \<Longrightarrow> chunk_id C (ks_chunk_identity keys) ?tenant (ce_family e) (ce_state_key e)
       (ce_span e) p = Inr (co_chunk_id obj)" using content obj by simp
    show "co_chunk_id obj = c" if "cid = Some c" for c using content obj that by simp
    show "\<not> ?enc \<Longrightarrow> salt = replicate 16 0 \<and> nonce = replicate 12 0" using salt nonce by auto
    show "if ?enc then \<exists>key. derive_encryption_key C keys (co_chunk_id obj) (co_object_key obj) salt = Inr key
       \<and> cr_seal C key nonce ?header encoded = Some payload else payload = encoded"
      using payload obj(1,4) by (auto simp: rbind_eq_Inr ok_or_eq_Inr)
  qed (use pre encoded family lens okey_def obj ob obs plen pbv side bytes in simp_all)
qed

section \<open>Decoding an encoded object\<close>

lemma encoded_frame_bounds:
  assumes "encode_codec_frame c p = Inr enc"
  shows "p \<noteq> []" "length p \<le> MAX_CHUNK_PLAINTEXT" "CODEC_FRAME_HEADER_BYTES \<le> length enc"
    "length enc \<le> MAX_CHUNK_PLAINTEXT + MAX_CODEC_OVERHEAD"
proof -
  show p: "p \<noteq> []" "length p \<le> MAX_CHUNK_PLAINTEXT" using assms by (auto simp: encode_codec_frame_eq split: if_splits)
  have "length (codec_magic c) = 8" by (cases c) (simp_all add: codec_magic_def)
  with assms show "CODEC_FRAME_HEADER_BYTES \<le> length enc"
    by (auto simp: encode_codec_frame_eq wire_consts split: if_splits)
  have "div_ceil (length p) 128 \<le> div_ceil MAX_CHUNK_PLAINTEXT 128"
    using p by (auto simp: div_ceil_def intro: div_le_mono)
  with \<open>length (codec_magic c) = 8\<close> assms p codec_payload_size [OF p(1), of c]
  show "length enc \<le> MAX_CHUNK_PLAINTEXT + MAX_CODEC_OVERHEAD"
    by (auto simp: encode_codec_frame_eq MAX_CODEC_OVERHEAD_def CODEC_FRAME_HEADER_BYTES_def)
qed

lemma decode_sidecar_area:
  assumes "sidecar_source side sc" and "\<forall>s. side = Some s \<longrightarrow> ok_stats s"
    and "length hf = 204" "length d = 32"
    and "bytes = hf @ d @ sidecar_area sc @ replicate (3860 - length (sidecar_area sc)) 0 @ rest"
  shows "decode_sidecar C bytes = Inr (case side of None \<Rightarrow> None
    | Some s \<Rightarrow> Some (s, sha256 C [the sc]))"
proof (cases side)
  case None
  then have sc: "sc = None" using assms(1) by (simp add: sidecar_source_def)
  have bytes: "bytes = (hf @ d) @ replicate 3860 0 @ rest" using assms(5) by (simp add: sc sidecar_area_def)
  have z: "subslice (replicate 3860 (0 :: byte) @ rest) 0 n = replicate n 0" if "n \<le> 3860" for n
    using that by (simp add: subslice_def take_replicate min_absorb2)
  have "get_u16 (replicate 3860 0 @ rest) 0 = 0"
    using z [of 2] by (simp add: get_u16_def from_le_bytes_def numeral_2_eq_2)
  then have "get_u16 bytes CHUNK_HEADER_SIDECAR_OFFSET = 0"
    unfolding bytes using assms(3,4) by (subst slice_fields(3)) (simp_all add: wire_consts)
  moreover have "subslice bytes CHUNK_HEADER_SIDECAR_OFFSET CHUNK_HEADER_BYTES = replicate 3860 0"
    unfolding bytes using assms(3,4) z [of 3860] by (subst slice_fields(1)) (simp_all add: wire_consts)
  ultimately show ?thesis using None by (simp add: decode_sidecar_def)
next
  case (Some s)
  then obtain bs where sc: "sc = Some bs" "stats_encode_canonical s = Inr bs" "bs \<noteq> []" "length bs \<le> MAX_STATS_SIDECAR_BYTES"
    using assms(1) by (auto simp: sidecar_source_def)
  have len: "unat (of_nat (length bs) :: u16) = length bs" using sc(4) by (simp add: wire_consts unat_of_nat)
  let ?pad = "replicate (3858 - length bs) 0"
  have pad: "3860 - length (sidecar_area sc) = 3858 - length bs" by (simp add: sc sidecar_area_def)
  have bytes: "bytes = (hf @ d) @ to_le_bytes (of_nat (length bs) :: u16) @ bs @ ?pad @ rest"
    using assms(5) unfolding pad by (simp add: sc sidecar_area_def)
  have "get_u16 bytes CHUNK_HEADER_SIDECAR_OFFSET = of_nat (length bs)"
    unfolding bytes by (rule get_at(1)) (simp add: wire_consts assms)
  moreover have area: "subslice bytes (CHUNK_HEADER_SIDECAR_OFFSET + 2) (CHUNK_HEADER_SIDECAR_OFFSET + 2 + length bs) = bs"
    unfolding bytes using subslice_append_middle [of "(hf @ d) @ to_le_bytes (of_nat (length bs) :: u16)" bs "?pad @ rest"]
      assms(3,4) by (simp add: wire_consts)
  moreover have "subslice bytes (CHUNK_HEADER_SIDECAR_OFFSET + 2 + length bs) CHUNK_HEADER_BYTES = ?pad"
    unfolding bytes using subslice_append_middle [of "(hf @ d) @ to_le_bytes (of_nat (length bs) :: u16) @ bs" ?pad rest]
      assms(3,4) sc(4) by (simp add: wire_consts)
  moreover have "stats_decode_canonical bs = Inr s" using stats_object.decode_encode [OF _ sc(2,4)] assms(2) Some by simp
  ultimately show ?thesis using Some sc by (simp add: decode_sidecar_def Let_def len)
qed

definition object_ref :: "chunk_object \<Rightarrow> u64 \<Rightarrow> chunk_ref" where
  "object_ref obj epoch = \<lparr>cr_chunk_id = co_chunk_id obj, cr_object_key = co_object_key obj,
     cr_object_digest = co_object_digest obj, cr_key_epoch = epoch,
     cr_plaintext_bytes = co_plaintext_bytes obj, cr_object_bytes = of_nat (length (co_bytes obj))\<rparr>"

lemma flag_tests: "(if c then FLAG_ENCRYPTED else 0) AND NOT KNOWN_FLAGS = 0"
  "(if c then FLAG_ENCRYPTED else 0) AND FLAG_ENCRYPTED \<noteq> 0 \<longleftrightarrow> c"
  by (simp_all add: FLAG_ENCRYPTED_def KNOWN_FLAGS_def)

lemma decode_encoded_chunk:
  assumes "encode_chunk_with_content_id C rng p e keys cid = Inr obj"
    and "digests_32 C" "aead_ok C" "entropy_ok rng" "length (ce_tenant_namespace e) = 32"
    and "\<forall>c. cid = Some c \<longrightarrow> length c = 32"
    and "\<forall>s. ce_stats_sidecar e = Some s \<longrightarrow> ok_stats s"
  shows "decode_chunk_with_stats C (co_bytes obj) (object_ref obj (ce_key_epoch e)) (ce_span e)
      (ce_tenant_namespace e) (ce_family e) (ce_state_key e) keys =
    rbind (chunk_id C (ks_chunk_identity keys) (ce_tenant_namespace e) (ce_family e) (ce_state_key e) (ce_span e) p)
      (\<lambda>derived. if derived \<noteq> co_chunk_id obj then Inl (Authentication ''chunk plaintext identity mismatch'')
        else Inr (p, ce_stats_sidecar e))"
  using assms(1-6)
proof (rule encode_chunk_layout)
  fix fs encoded family salt nonce sc payload ob hf header
  assume pre: "unat (cs_plaintext_bytes (ce_span e)) = length p"
    and fs: "lookup_family_state (ce_family e) (ce_state_key e) = Inr fs" "fs_codec_version fs = 1"
    and enc: "encode_codec_frame (fs_codec fs) p = Inr encoded"
    and fam: "family_digest C (ce_family e) = Inr family" "length family = 32"
    and cont: "length (co_chunk_id obj) = 32"
    and sn: "length salt = 16" "length nonce = 12" "\<not> ce_encrypt e \<Longrightarrow> salt = replicate 16 0 \<and> nonce = replicate 12 0"
    and side: "sidecar_source (ce_stats_sidecar e) sc"
    and okey: "co_object_key obj = derive_object_key C keys
       \<lparr>oi_tenant = ce_tenant_namespace e, oi_family = family, oi_content = co_chunk_id obj,
        oi_key_epoch = ce_key_epoch e, oi_codec = fs_codec fs, oi_codec_version = 1,
        oi_encrypted = ce_encrypt e, oi_salt = salt, oi_nonce = nonce,
        oi_stats_digest = map_option (\<lambda>s. sha256 C [s]) sc\<rparr>"
    and plen: "length payload = length encoded + (if ce_encrypt e then 16 else 0)"
    and ob: "CHUNK_HEADER_BYTES + length payload \<le> ob" "ob \<le> MAX_CHUNK_OBJECT_BYTES" "ob mod ALIGNMENT = 0"
    and hf: "hf = header_fields (if ce_encrypt e then FLAG_ENCRYPTED else 0) (fs_codec fs) 1 (length p) (length encoded)
       (length payload) ob (ce_key_epoch e) (ce_tenant_namespace e) family (co_chunk_id obj) (co_object_key obj) salt nonce"
    and hd: "header = hf @ sha256 C [hf @ replicate 32 0 @ sidecar_area sc @ replicate (3860 - length (sidecar_area sc)) 0]
       @ sidecar_area sc @ replicate (3860 - length (sidecar_area sc)) 0"
    and pay: "if ce_encrypt e then \<exists>key. derive_encryption_key C keys (co_chunk_id obj) (co_object_key obj) salt = Inr key
       \<and> cr_seal C key nonce header encoded = Some payload else payload = encoded"
    and bytes: "co_bytes obj = header @ payload @ replicate (ob - CHUNK_HEADER_BYTES - length payload) 0"
    and digest: "co_object_digest obj = sha256 C [co_bytes obj]" and pl: "co_plaintext_bytes obj = of_nat (length p)"
  let ?B = "co_bytes obj"
  have dig: "length (hmac C k ps) = 32" "length (sha256 C ps) = 32" for k ps
    using assms(2) by (simp_all add: hmac_def sha256_def digests_32_def)
  have ok32: "length (co_object_key obj) = 32" unfolding okey derive_object_key_def by (rule dig)
  note fb = encoded_frame_bounds [OF enc]
  note area = length_sidecar_area [OF side]
  have hf204: "length hf = 204" unfolding hf by (rule length_header_fields) (use assms(5) fam cont ok32 sn in simp_all)
  have hlen: "length header = CHUNK_HEADER_BYTES" unfolding hd using hf204 area dig by (simp add: wire_consts)
  have blen: "length ?B = ob" unfolding bytes using hlen ob(1) by simp
  have small: "length p < 2 ^ 32" "length encoded < 2 ^ 32" "length payload < 2 ^ 32" "ob < 2 ^ 32"
    using fb ob plen by (auto simp: wire_consts div_ceil_def)
  define rest where "rest = sha256 C [hf @ replicate 32 0 @ sidecar_area sc @ replicate (3860 - length (sidecar_area sc)) 0]
       @ sidecar_area sc @ replicate (3860 - length (sidecar_area sc)) 0
       @ payload @ replicate (ob - CHUNK_HEADER_BYTES - length payload) 0"
  have B: "?B = hf @ rest" unfolding bytes hd rest_def by simp
  note rd = header_fields_read [OF assms(5) fam(2) cont ok32 sn(1,2) small B [unfolded hf]]
  have tk: "take CHUNK_HEADER_BYTES ?B = header" unfolding bytes using hlen by simp
  have sl: "subslice ?B CHUNK_HEADER_BYTES (CHUNK_HEADER_BYTES + length payload) = payload"
    unfolding bytes using subslice_append_middle [of header payload] hlen by simp
  have dr: "drop (CHUNK_HEADER_BYTES + length payload) ?B = replicate (ob - CHUNK_HEADER_BYTES - length payload) 0"
    unfolding bytes using hlen by simp
  have sd: "decode_sidecar C ?B = Inr (case ce_stats_sidecar e of None \<Rightarrow> None | Some s \<Rightarrow> Some (s, sha256 C [the sc]))"
    by (rule decode_sidecar_area [OF side assms(7) hf204 dig(2)]) (simp add: B rest_def)
  have stats: "map_option snd (case ce_stats_sidecar e of None \<Rightarrow> None | Some s \<Rightarrow> Some (s, sha256 C [the sc]))
      = map_option (\<lambda>s. sha256 C [s]) sc"
    "map_option fst (case ce_stats_sidecar e of None \<Rightarrow> None | Some s \<Rightarrow> Some (s, sha256 C [the sc])) = ce_stats_sidecar e"
    using side by (auto simp: sidecar_source_def split: option.splits)
  have hdig: "subslice header HEADER_DIGEST_OFFSET (HEADER_DIGEST_OFFSET + 32)
      = sha256 C [patch header HEADER_DIGEST_OFFSET (replicate 32 0)]"
  proof -
    have "patch header HEADER_DIGEST_OFFSET (replicate 32 0)
      = hf @ replicate 32 0 @ sidecar_area sc @ replicate (3860 - length (sidecar_area sc)) 0"
      unfolding hd by (rule patch_digest [OF hf204]) (simp_all add: dig)
    then show ?thesis unfolding hd using hf204 dig(2)
      by (simp only:) (simp add: slice_fields wire_consts)
  qed
  have opened: "(if ce_encrypt e then rbind (derive_encryption_key C keys (co_chunk_id obj) (co_object_key obj) salt) (\<lambda>key.
           ok_or (cr_open C key nonce header payload) (Authentication ''chunk AEAD authentication failed''))
         else Inr payload) = Inr encoded"
    using pay assms(3) by (auto simp: aead_ok_def)
  have zeros: "(\<not> ce_encrypt e \<and> any_nonzero (salt @ nonce)) = False" using sn(3) by (auto simp flip: replicate_add)
  have dec: "decode_codec_frame (fs_codec fs) encoded (length p) = Inr p" using decode_codec_frame_ok enc by blast
  have un: "unat (of_nat (length p) :: u32) = length p" "unat (of_nat ob :: u32) = ob" using small by (simp_all add: unat_of_nat)
  have ub: "usize_checked_add CHUNK_HEADER_BYTES (length payload) = Some (CHUNK_HEADER_BYTES + length payload)"
    using small(3) by (simp add: usize_checked_add_def wire_consts)
  have sizes: "\<not> length ?B < CHUNK_HEADER_BYTES" "\<not> MAX_CHUNK_OBJECT_BYTES < length ?B" "length ?B mod ALIGNMENT = 0"
    "length p \<noteq> 0" "\<not> MAX_CHUNK_PLAINTEXT < length p" "\<not> ob < CHUNK_HEADER_BYTES + length payload"
    using ob fb by (simp_all add: blen)
  have ref: "cr_object_bytes (object_ref obj (ce_key_epoch e)) = of_nat ob"
    "cr_plaintext_bytes (object_ref obj (ce_key_epoch e)) = of_nat (length p)"
    "cr_object_digest (object_ref obj (ce_key_epoch e)) = sha256 C [?B]"
    "cr_key_epoch (object_ref obj (ce_key_epoch e)) = ce_key_epoch e"
    "cr_chunk_id (object_ref obj (ce_key_epoch e)) = co_chunk_id obj"
    "cr_object_key (object_ref obj (ce_key_epoch e)) = co_object_key obj"
    using digest pl by (simp_all add: object_ref_def blen)
  define fr where "fr = \<lparr>cf_codec = fs_codec fs, cf_codec_version = 1, cf_plaintext_bytes = length p,
    cf_encoded_bytes = length encoded, cf_encrypted = ce_encrypt e, cf_payload_end = CHUNK_HEADER_BYTES + length payload,
    cf_stats_sidecar = (case ce_stats_sidecar e of None \<Rightarrow> None | Some s \<Rightarrow> Some (s, sha256 C [the sc]))\<rparr>"
  have framing: "parse_chunk_framing C ?B (object_ref obj (ce_key_epoch e)) (ce_span e) = Inr fr"
    unfolding parse_chunk_framing_def Let_def rd flag_tests blen codec_enum.from_wire_wire rbind_simps sd
      ref un pre plen [symmetric] ub ok_or_simps dr
    using sizes fb(3,4) by (simp add: blen zeros fr_def)
  have auth: "authenticate_chunk C ?B fr (object_ref obj (ce_key_epoch e)) (ce_tenant_namespace e) (ce_family e)
      (ce_state_key e) keys = Inr ()"
    unfolding authenticate_chunk_def Let_def rd tk ref fs fam(1) rbind_simps hdig fr_def chunk_framing.simps stats
      okey [symmetric] by simp
  show ?thesis
    unfolding decode_chunk_with_stats_def Let_def framing auth rbind_simps rd tk
    unfolding fr_def chunk_framing.simps sl opened rbind_simps dec stats by simp
qed

section \<open>Lookup\<close>

lemma search_base_bound:
  "base + count \<le> n \<Longrightarrow> 0 < count \<Longrightarrow> search_base states key base count < n"
proof (induction states key base count rule: search_base.induct)
  case (1 states key base count)
  show ?case
  proof (cases "count > 1")
    case False
    with 1(2,3) show ?thesis by (subst search_base.simps) simp
  next
    case True
    let ?half = "count div 2"
    have "search_base states key (if fs_key (states ! (base + ?half)) > key then base else base + ?half) (count - ?half) < n"
      using 1(2) True by (intro 1(1) [OF True refl refl]) (auto split: if_splits)
    with True show ?thesis by (subst search_base.simps) (simp add: Let_def)
  qed
qed

lemma search_base_finds:
  assumes "sorted_wrt (<) (map fs_key states)" and "fs_key (states ! i) = key"
    and "base \<le> i" "i < base + count" "base + count \<le> length states"
  shows "search_base states key base count = i"
  using assms
proof (induction states key base count rule: search_base.induct)
  case (1 states key base count)
  show ?case
  proof (cases "count > 1")
    case False
    with 1(4,5) show ?thesis by (subst search_base.simps) simp
  next
    case True
    let ?half = "count div 2"
    let ?mid = "base + ?half"
    have half: "0 < ?half" "?half \<le> count - ?half" using True by simp_all
    have mid: "?mid < length states" using True 1(6) by simp
    have order: "fs_key (states ! ?mid) > key \<longleftrightarrow> i < ?mid"
    proof -
      have "i < ?mid \<Longrightarrow> fs_key (states ! i) < fs_key (states ! ?mid)"
        using 1(2) mid by (simp add: sorted_wrt_iff_nth_less)
      moreover have "?mid < i \<Longrightarrow> fs_key (states ! ?mid) < fs_key (states ! i)"
        using 1(2,5,6) by (simp add: sorted_wrt_iff_nth_less)
      ultimately show ?thesis using 1(3) by (cases i ?mid rule: linorder_cases) auto
    qed
    have "search_base states key (if fs_key (states ! ?mid) > key then base else ?mid) (count - ?half) = i"
      using 1(4-6) half order by (intro 1(1) [OF True refl refl 1(2,3)]) (auto split: if_splits)
    with True show ?thesis by (subst search_base.simps) (simp add: Let_def)
  qed
qed

text \<open>Looking up a state of a sorted family finds it, and nothing else is ever found.\<close>

lemma lookup_family_state_iff:
  assumes "sorted_wrt (<) (map fs_key (rf_states f))"
  shows "lookup_family_state f key = Inr s \<longleftrightarrow> s \<in> set (rf_states f) \<and> fs_key s = key"
proof
  assume l: "lookup_family_state f key = Inr s"
  let ?base = "search_base (rf_states f) key 0 (length (rf_states f))"
  from l have ne: "rf_states f \<noteq> []" and s: "rf_states f ! ?base = s" "fs_key s = key"
    by (auto simp: lookup_family_state_def Let_def split: if_splits)
  have "?base < length (rf_states f)" using search_base_bound [of 0 "length (rf_states f)" "length (rf_states f)"] ne by simp
  from nth_mem [OF this] s show "s \<in> set (rf_states f) \<and> fs_key s = key" by simp
next
  assume s: "s \<in> set (rf_states f) \<and> fs_key s = key"
  then obtain i where "i < length (rf_states f)" "rf_states f ! i = s" by (auto simp: in_set_conv_nth)
  with search_base_finds [OF assms, of i key 0 "length (rf_states f)"] s
  show "lookup_family_state f key = Inr s" by (auto simp: lookup_family_state_def Let_def)
qed

section \<open>Encoding succeeds\<close>

definition services_total :: "crypto \<Rightarrow> bool" where
  "services_total C \<longleftrightarrow> (\<forall>salt key info. cr_hkdf C salt key info \<noteq> None)
     \<and> (\<forall>key nonce aad msg. cr_seal C key nonce aad msg \<noteq> None)"

lemma encode_chunk_succeeds:
  assumes "services_total C" and "fst rng \<noteq> None" "snd rng \<noteq> None"
    and "ce_key_epoch e \<noteq> 0" "unat (cs_plaintext_bytes (ce_span e)) = length p" "cs_token_count (ce_span e) \<noteq> 0"
    and "lookup_family_state (ce_family e) (ce_state_key e) = Inr fs" "fs_codec_version fs = 1"
    and "p \<noteq> []" "length p \<le> MAX_CHUNK_PLAINTEXT" "ok_family (ce_family e)" "length (sk_name (ce_state_key e)) < 2 ^ 16"
    and "\<forall>s. ce_stats_sidecar e = Some s \<longrightarrow>
      (\<exists>bs. stats_encode_canonical s = Inr bs \<and> bs \<noteq> [] \<and> length bs \<le> MAX_STATS_SIDECAR_BYTES)"
  shows "\<exists>obj. encode_chunk_with_content_id C rng p e keys cid = Inr obj"
proof -
  obtain encoded where enc: "encode_codec_frame (fs_codec fs) p = Inr encoded"
    using assms(9,10) by (simp add: encode_codec_frame_eq)
  note fb = encoded_frame_bounds [OF enc]
  obtain family where fam: "family_digest C (ce_family e) = Inr family" using family_digest_total [OF assms(11)] by blast
  obtain content where cont: "(case cid of Some content \<Rightarrow> Inr content
         | None \<Rightarrow> chunk_id C (ks_chunk_identity keys) (ce_tenant_namespace e) (ce_family e)
             (ce_state_key e) (ce_span e) p) = Inr content"
  proof (cases cid)
    case None
    have "length p < 2 ^ 32" using assms(10) by (simp add: wire_consts)
    from chunk_id_total [OF assms(11,12) this assms(6,5)] show ?thesis using None that by fastforce
  qed (use that in auto)
  obtain salt nonce where rng: "fst rng = Some salt" "snd rng = Some nonce" using assms(2,3) by blast
  obtain sc where sc: "(case ce_stats_sidecar e of None \<Rightarrow> Inr None
         | Some sidecar \<Rightarrow> rbind (stats_encode_canonical sidecar) (\<lambda>encoded.
             if encoded = [] \<or> length encoded > MAX_STATS_SIDECAR_BYTES
             then Inl (Bounds ''stats sidecar exceeds the chunk header capacity'')
             else Inr (Some encoded))) = Inr sc"
    using assms(13) by (cases "ce_stats_sidecar e") auto
  let ?pb = "length encoded + (if ce_encrypt e then 16 else 0)"
  have pb: "?pb \<le> MAX_CHUNK_PLAINTEXT + MAX_CODEC_OVERHEAD + 16" using fb(4) by simp
  then have adds: "usize_checked_add (length encoded) (if ce_encrypt e then 16 else 0) = Some ?pb"
    "usize_checked_add CHUNK_HEADER_BYTES ?pb = Some (CHUNK_HEADER_BYTES + ?pb)"
    by (simp_all add: usize_checked_add_def wire_consts div_ceil_def)
  have "CHUNK_HEADER_BYTES + ?pb < 2 ^ 63" using pb by (simp add: wire_consts div_ceil_def)
  then obtain ob where ob: "align (CHUNK_HEADER_BYTES + ?pb) = Inr ob" using align_total by blast
  have "ob \<le> MAX_CHUNK_OBJECT_BYTES"
    using align_ok [OF ob] pb unfolding MAX_CHUNK_OBJECT_BYTES_def by linarith
  then have le: "\<not> MAX_CHUNK_OBJECT_BYTES < ob" by simp
  have "\<exists>obj. assemble_chunk C keys p e (fs_codec fs) (fs_codec_version fs) encoded family content okey s n sc pb ob
      = Inr obj" for okey s n pb
    using assms(1)
    by (auto simp: assemble_chunk_def Let_def services_total_def derive_encryption_key_def rbind_eq_Inr ok_or_eq_Inr)
      blast
  then show ?thesis
    unfolding encode_chunk_with_content_id_def Let_def assms(7) rbind_simps fam enc cont sc adds ok_or_simps ob rng
    using assms(4-6,8) le by simp
qed

lemma sample_aead: "aead_ok sample_crypto" "services_total sample_crypto"
  by (simp_all add: aead_ok_def services_total_def sample_crypto_def)

definition sample_encoding :: "bool \<Rightarrow> chunk_encoding" where
  "sample_encoding encrypt = \<lparr>ce_tenant_namespace = sample_id 4, ce_family = sample_family,
     ce_state_key = StateKey 0 [118], ce_span = rs_chunk_spans (sample_realized [118]) ! 0,
     ce_key_epoch = 1, ce_encrypt = encrypt, ce_stats_sidecar = None\<rparr>"

definition sample_keys :: key_schedule where
  "sample_keys = \<lparr>ks_namespace = [], ks_prefix = [], ks_manifest_auth = [], ks_manifest_encryption = [],
     ks_chunk_identity = [], ks_object_identity = [], ks_chunk_encryption = []\<rparr>"

definition sample_entropy :: entropy where
  "sample_entropy = (Some (replicate 16 5), Some (replicate 12 6))"

lemma sample_entropy_ok: "entropy_ok sample_entropy" "fst sample_entropy \<noteq> None" "snd sample_entropy \<noteq> None"
  by (simp_all add: entropy_ok_def sample_entropy_def)

lemma sample_encodes:
  "\<exists>obj. encode_chunk_with_content_id sample_crypto sample_entropy (replicate 8 9) (sample_encoding encrypt) keys cid = Inr obj"
proof (rule encode_chunk_succeeds [where fs = "sample_state [118] [StateKey 0 [107]]"])
  have "sorted_wrt (<) (map fs_key (rf_states sample_family))"
    by (simp add: sample_family_def sample_state_def less_state_key_def)
  then show "lookup_family_state (ce_family (sample_encoding encrypt)) (ce_state_key (sample_encoding encrypt))
      = Inr (sample_state [118] [StateKey 0 [107]])"
    unfolding sample_encoding_def by (simp add: lookup_family_state_iff) (simp add: sample_family_def sample_state_def)
qed (use sample_aead sample_entropy_ok sample_family_ok in
    \<open>simp_all add: sample_encoding_def sample_realized_def sample_state_def wire_consts\<close>)

section \<open>Properties\<close>

lemma encoded_chunk_decodes:
  assumes "encode_chunk C rng p e keys = Inr obj"
    and "digests_32 C" "aead_ok C" "entropy_ok rng" "length (ce_tenant_namespace e) = 32"
    and "\<forall>s. ce_stats_sidecar e = Some s \<longrightarrow> ok_stats s"
  shows "decode_chunk_with_stats C (co_bytes obj) (object_ref obj (ce_key_epoch e)) (ce_span e)
      (ce_tenant_namespace e) (ce_family e) (ce_state_key e) keys = Inr (p, ce_stats_sidecar e)"
proof -
  note enc = assms(1) [unfolded encode_chunk_def]
  have "chunk_id C (ks_chunk_identity keys) (ce_tenant_namespace e) (ce_family e) (ce_state_key e) (ce_span e) p
      = Inr (co_chunk_id obj)"
    using enc assms(2-5) by (rule encode_chunk_layout) auto
  with decode_encoded_chunk [OF enc assms(2-5) _ assms(6)] show ?thesis by simp
qed



text \<open>A stale content identity cannot produce a readable object: encoding with a
  precomputed identity that is not the identity of the plaintext gives an object that decoding refuses.\<close>

theorem stale_content_id_unreadable:
  assumes "encode_chunk_with_content_id C rng p e keys (Some stale) = Inr obj"
    and "digests_32 C" "aead_ok C" "entropy_ok rng" "length (ce_tenant_namespace e) = 32" "length stale = 32"
    and "\<forall>s. ce_stats_sidecar e = Some s \<longrightarrow> ok_stats s"
    and "chunk_id C (ks_chunk_identity keys) (ce_tenant_namespace e) (ce_family e) (ce_state_key e) (ce_span e) p
      \<noteq> Inr stale"
  shows "\<exists>err. decode_chunk C (co_bytes obj) (object_ref obj (ce_key_epoch e)) (ce_span e)
      (ce_tenant_namespace e) (ce_family e) (ce_state_key e) keys = Inl err"
proof -
  have "co_chunk_id obj = stale"
    using assms(1-5) by (rule encode_chunk_layout) (use assms(6) in auto)
  then show ?thesis
    using decode_encoded_chunk [OF assms(1-5) _ assms(7)] assms(6,8)
    by (cases "chunk_id C (ks_chunk_identity keys) (ce_tenant_namespace e) (ce_family e) (ce_state_key e) (ce_span e) p")
      (auto simp: decode_chunk_def)
qed

theorem stale_content_id_unreadable_witness:
  "\<exists>obj err. encode_chunk_with_content_id sample_crypto sample_entropy (replicate 8 9) (sample_encoding False) sample_keys
      (Some (sample_id 77)) = Inr obj
    \<and> decode_chunk sample_crypto (co_bytes obj) (object_ref obj 1)
      (rs_chunk_spans (sample_realized [118]) ! 0) (sample_id 4) sample_family (StateKey 0 [118]) sample_keys = Inl err"
proof -
  obtain obj where obj: "encode_chunk_with_content_id sample_crypto sample_entropy (replicate 8 9) (sample_encoding False)
      sample_keys (Some (sample_id 77)) = Inr obj" using sample_encodes by blast
  have "chunk_id sample_crypto (ks_chunk_identity sample_keys) (ce_tenant_namespace (sample_encoding False))
      (ce_family (sample_encoding False)) (ce_state_key (sample_encoding False)) (ce_span (sample_encoding False))
      (replicate 8 9) \<noteq> Inr (sample_id 77)"
    by (auto simp: chunk_id_def rbind_eq_Inr if_Inl_eq_Inr hmac_def sample_crypto_def sample_id_def)
  from stale_content_id_unreadable [OF obj sample_digests sample_aead(1) sample_entropy_ok(1) _ _ _ this] obj
  show ?thesis by (simp add: sample_encoding_def)
qed

lemma decode_chunk_ok:
  assumes "decode_chunk_with_stats C bytes r sp t f k keys = Inr (p, sc)"
  shows "cr_sha256 C bytes = cr_object_digest r" "length bytes mod ALIGNMENT = 0"
    "length bytes = unat (cr_object_bytes r)"
    "chunk_id C (ks_chunk_identity keys) t f k sp p = Inr (cr_chunk_id r)"
    "length p = unat (cr_plaintext_bytes r)"
proof -
  obtain fr where fr: "parse_chunk_framing C bytes r sp = Inr fr"
    and auth: "authenticate_chunk C bytes fr r t f k keys = Inr ()"
    and rest: "\<exists>encoded. decode_codec_frame (cf_codec fr) encoded (cf_plaintext_bytes fr) = Inr p"
      "chunk_id C (ks_chunk_identity keys) (subslice bytes 48 80) f k sp p = Inr (subslice bytes 112 144)"
    using assms by (auto simp: decode_chunk_with_stats_def Let_def rbind_eq_Inr if_Inl_eq_Inr)
  have facts: "length bytes mod ALIGNMENT = 0" "length bytes = unat (cr_object_bytes r)"
      "cf_plaintext_bytes fr = unat (cr_plaintext_bytes r)"
    using fr unfolding parse_chunk_framing_def Let_def rbind_eq_Inr if_Inl_eq_Inr by auto
  have ids: "sha256 C [bytes] = cr_object_digest r" "subslice bytes 48 80 = t" "subslice bytes 112 144 = cr_chunk_id r"
    using auth unfolding authenticate_chunk_def Let_def rbind_eq_Inr if_Inl_eq_Inr by auto
  have "length p = cf_plaintext_bytes fr" using rest(1) by (auto simp: decode_codec_frame_ok)
  with facts ids rest show "cr_sha256 C bytes = cr_object_digest r" "length bytes mod ALIGNMENT = 0"
    "length bytes = unat (cr_object_bytes r)"
    "chunk_id C (ks_chunk_identity keys) t f k sp p = Inr (cr_chunk_id r)"
    "length p = unat (cr_plaintext_bytes r)"
    by (simp_all add: sha256_def)
qed


text \<open>Encoding succeeds for every plaintext of 1 to 4 MiB that matches its span and names a
  state of its sorted family with codec version 1, if the generator and the cipher do: the object always
  fits its size bound.\<close>

theorem encode_chunk_total:
  assumes "services_total C" and "fst rng \<noteq> None" "snd rng \<noteq> None"
    and "ce_key_epoch e \<noteq> 0" "unat (cs_plaintext_bytes (ce_span e)) = length p" "cs_token_count (ce_span e) \<noteq> 0"
    and "sorted_wrt (<) (map fs_key (rf_states (ce_family e)))" "fs \<in> set (rf_states (ce_family e))"
    and "fs_key fs = ce_state_key e" "fs_codec_version fs = 1"
    and "p \<noteq> []" "length p \<le> MAX_CHUNK_PLAINTEXT" "ok_family (ce_family e)" "ce_stats_sidecar e = None"
  shows "\<exists>obj. encode_chunk C rng p e keys = Inr obj"
proof -
  have "lookup_family_state (ce_family e) (ce_state_key e) = Inr fs"
    using lookup_family_state_iff [OF assms(7)] assms(8,9) by simp
  moreover have "length (sk_name (ce_state_key e)) < 2 ^ 16"
    using assms(8,9,13)
    by (auto simp: ok_family_def ok_family_state_def ok_state_key_def ok_string_def list_all_iff)
  ultimately show ?thesis
    unfolding encode_chunk_def using assms by (intro encode_chunk_succeeds) simp_all
qed

theorem encode_chunk_total_witness:
  "\<exists>obj. encode_chunk sample_crypto sample_entropy (replicate 8 9) (sample_encoding True) sample_keys = Inr obj"
  by (rule encode_chunk_total [where fs = "sample_state [118] [StateKey 0 [107]]"])
    (use sample_aead sample_entropy_ok sample_family_ok in
      \<open>simp_all add: sample_encoding_def sample_realized_def sample_family_def sample_state_def wire_consts less_state_key_def\<close>)

end
