(* ===== verification/Pack.thy ===== *)
theory Pack
  imports Validated_Wire Chunk_Object
begin

text \<open>
  Authenticated packs (\<^verbatim>\<open>kvpack-core/src/pack.rs\<close>): header, manifest body, encrypted or not, and a
  commit footer with a keyed tag over all of it.  Headers and footers are zero-filled buffers that
  the code overwrites at fixed offsets, and so are they here.
\<close>

definition PACK_DIGEST_OFFSET :: nat where [wire_consts]: "PACK_DIGEST_OFFSET = 148"
definition FOOTER_HMAC_OFFSET :: nat where [wire_consts]: "FOOTER_HMAC_OFFSET = 80"

record pack_header =
  ph_tenant_namespace :: id32
  ph_manifest_id :: id32
  ph_key_epoch :: u64
  ph_manifest_bytes :: u64
  ph_plaintext_manifest_bytes :: u64
  ph_encrypted :: bool

record encoded_pack =
  ep_bytes :: bytes
  ep_manifest_id :: id32

definition put_u16 :: "nat \<Rightarrow> u16 \<Rightarrow> bytes \<Rightarrow> bytes" where
  "put_u16 off v dst = patch dst off (to_le_bytes v)"

definition put_u32 :: "nat \<Rightarrow> u32 \<Rightarrow> bytes \<Rightarrow> bytes" where
  "put_u32 off v dst = patch dst off (to_le_bytes v)"

definition put_u64 :: "nat \<Rightarrow> u64 \<Rightarrow> bytes \<Rightarrow> bytes" where
  "put_u64 off v dst = patch dst off (to_le_bytes v)"

definition put_slice :: "nat \<Rightarrow> bytes \<Rightarrow> bytes \<Rightarrow> bytes" where
  "put_slice off v dst = patch dst off v"

definition manifest_encryption_key :: "crypto \<Rightarrow> key_schedule \<Rightarrow> id32 \<Rightarrow> bytes \<Rightarrow> bytes result" where
  "manifest_encryption_key C keys ident salt =
     ok_or (cr_hkdf C salt (ks_manifest_encryption keys) (label ''kvpack/v1/manifest-aead'' @ ident))
       (Authentication ''manifest key derivation failed'')"

definition authenticate :: "crypto \<Rightarrow> key_schedule \<Rightarrow> bytes \<Rightarrow> bytes \<Rightarrow> u64 \<Rightarrow> u64 \<Rightarrow> u64 \<Rightarrow> id32" where
  "authenticate C keys header manifest manifest_len key_epoch file_len =
     hmac C (ks_manifest_auth keys) [label ''kvpack/v1/manifest-auth'', header, manifest,
       to_le_bytes manifest_len, to_le_bytes key_epoch, to_le_bytes file_len]"

definition blank_header :: "bool \<Rightarrow> nat \<Rightarrow> nat \<Rightarrow> u64 \<Rightarrow> id32 \<Rightarrow> id32 \<Rightarrow> bytes" where
  "blank_header encrypt stored_len canonical_len key_epoch tenant ident =
     put_slice 88 ident (put_slice 56 tenant (put_u64 40 key_epoch
       (put_u64 32 (of_nat canonical_len) (put_u64 24 (of_nat stored_len)
       (put_u32 16 (if encrypt then FLAG_ENCRYPTED else 0) (put_u32 12 (of_nat ALIGNMENT)
       (put_u16 10 (of_nat PACK_HEADER_BYTES) (put_u16 8 WIRE_VERSION
       (put_slice 0 PACK_MAGIC (replicate PACK_HEADER_BYTES 0))))))))))"

definition commit_footer :: "crypto \<Rightarrow> key_schedule \<Rightarrow> bytes \<Rightarrow> bytes \<Rightarrow> u64 \<Rightarrow> nat \<Rightarrow> id32 \<Rightarrow> bytes" where
  "commit_footer C keys header body key_epoch file_len ident =
     (let footer = put_slice 48 ident (put_u64 40 (of_nat file_len) (put_u64 24 key_epoch
            (put_u64 16 (of_nat (length body)) (put_u16 10 (of_nat PACK_FOOTER_BYTES) (put_u16 8 WIRE_VERSION
            (put_slice 0 FOOTER_MAGIC (replicate PACK_FOOTER_BYTES 0)))))));
          tag = authenticate C keys header body (of_nat (length body)) key_epoch (of_nat file_len) in
      put_slice FOOTER_HMAC_OFFSET tag footer)"

definition seal_pack :: "crypto \<Rightarrow> key_schedule \<Rightarrow> bool \<Rightarrow> bytes \<Rightarrow> u64 \<Rightarrow> nat \<Rightarrow> id32 \<Rightarrow> bytes \<Rightarrow> bytes \<Rightarrow> bytes
    \<Rightarrow> encoded_pack result" where
  "seal_pack C keys encrypt canonical key_epoch file_len ident salt nonce blank =
     (let header = put_slice PACK_DIGEST_OFFSET (sha256 C [blank]) blank in
      rbind (if encrypt
        then rbind (manifest_encryption_key C keys ident salt) (\<lambda>key.
          ok_or (cr_seal C key nonce header canonical) (Authentication ''manifest encryption failed''))
        else Inr canonical) (\<lambda>body.
      Inr \<lparr>ep_bytes = header @ body @ commit_footer C keys header body key_epoch file_len ident,
           ep_manifest_id = ident\<rparr>))"

definition encode_authenticated_pack :: "crypto \<Rightarrow> entropy \<Rightarrow> cut_manifest \<Rightarrow> key_schedule \<Rightarrow> bool
    \<Rightarrow> manifest_bounds \<Rightarrow> encoded_pack result" where
  "encode_authenticated_pack C rng manifest keys encrypt bounds =
     rbind (validate_manifest manifest bounds) (\<lambda>_.
     rbind (manifest_encode_canonical manifest) (\<lambda>canonical.
     if length canonical > MAX_MANIFEST_BYTES then Inl (Bounds ''manifest exceeds production bound'')
     else let ident = manifest_id C canonical in
     rbind (ok_or (usize_checked_add (length canonical) (if encrypt then 16 else 0))
       (Bounds ''manifest length overflow'')) (\<lambda>stored_len.
     rbind (ok_or (Option.bind (usize_checked_add PACK_HEADER_BYTES stored_len)
         (\<lambda>v. usize_checked_add v PACK_FOOTER_BYTES)) (Bounds ''pack file length overflow'')) (\<lambda>file_len.
     let blank = blank_header encrypt stored_len (length canonical) (cm_key_epoch manifest)
           (cm_tenant_namespace manifest) ident in
     rbind (if encrypt then ok_or (fst rng) (Authentication ''manifest salt generation failed'')
       else Inr (replicate 16 0)) (\<lambda>salt.
     rbind (if encrypt then ok_or (snd rng) (Authentication ''manifest nonce generation failed'')
       else Inr (replicate 12 0)) (\<lambda>nonce.
     seal_pack C keys encrypt canonical (cm_key_epoch manifest) file_len ident salt nonce
       (if encrypt then put_slice 136 nonce (put_slice 120 salt blank) else blank)))))))"

definition parse_pack_header_framing :: "bytes \<Rightarrow> pack_header result" where
  "parse_pack_header_framing bytes =
     (if length bytes < PACK_HEADER_BYTES then Inl (Truncated ''truncated production pack header'')
      else let header = take PACK_HEADER_BYTES bytes in
      if take 8 header \<noteq> PACK_MAGIC then Inl (BadMagic ''invalid production pack magic'')
      else if get_u16 header 8 \<noteq> WIRE_VERSION \<or> unat (get_u16 header 10) \<noteq> PACK_HEADER_BYTES
         \<or> unat (get_u32 header 12) \<noteq> ALIGNMENT
      then Inl (BadMagic ''invalid production pack header contract'')
      else let flags = get_u32 header 16 in
      if flags AND NOT KNOWN_FLAGS \<noteq> 0 then Inl (Reserved ''unknown pack flags'')
      else if get_u32 header 20 \<noteq> 0 \<or> get_u64 header 48 \<noteq> 0 \<or> any_nonzero (drop 180 header)
      then Inl (Reserved ''pack header reserved bytes are nonzero'')
      else let encrypted = (flags AND FLAG_ENCRYPTED \<noteq> 0) in
      if \<not> encrypted \<and> any_nonzero (subslice header 120 148)
      then Inl (Reserved ''unencrypted manifest salt or nonce is nonzero'')
      else Inr \<lparr>ph_tenant_namespace = subslice header 56 88, ph_manifest_id = subslice header 88 120,
                ph_key_epoch = get_u64 header 40, ph_manifest_bytes = get_u64 header 24,
                ph_plaintext_manifest_bytes = get_u64 header 32, ph_encrypted = encrypted\<rparr>)"

definition verify_pack_header_digest :: "crypto \<Rightarrow> bytes \<Rightarrow> unit result" where
  "verify_pack_header_digest C header =
     (if sha256 C [patch header PACK_DIGEST_OFFSET (replicate 32 0)]
         \<noteq> subslice header PACK_DIGEST_OFFSET (PACK_DIGEST_OFFSET + 32)
      then Inl (Checksum ''pack header digest mismatch'') else Inr ())"

definition inspect_pack_header :: "crypto \<Rightarrow> bytes \<Rightarrow> pack_header result" where
  "inspect_pack_header C bytes =
     rbind (parse_pack_header_framing bytes) (\<lambda>parsed.
     rbind (verify_pack_header_digest C (take PACK_HEADER_BYTES bytes)) (\<lambda>_. Inr parsed))"

definition verify_authenticated_pack :: "crypto \<Rightarrow> bytes \<Rightarrow> key_schedule \<Rightarrow> pack_header result" where
  "verify_authenticated_pack C bytes keys =
     (if length bytes < PACK_HEADER_BYTES + PACK_FOOTER_BYTES then Inl (Truncated ''truncated production pack'')
      else rbind (parse_pack_header_framing bytes) (\<lambda>parsed.
      if unat (ph_manifest_bytes parsed) > MAX_MANIFEST_BYTES + 16
         \<or> unat (ph_plaintext_manifest_bytes parsed) > MAX_MANIFEST_BYTES
      then Inl (Bounds ''manifest exceeds production bound'')
      else let footer_offset = length bytes - PACK_FOOTER_BYTES; footer = drop footer_offset bytes in
      if take 8 footer \<noteq> FOOTER_MAGIC then Inl (BadMagic ''invalid production commit footer magic'')
      else if get_u16 footer 8 \<noteq> WIRE_VERSION \<or> unat (get_u16 footer 10) \<noteq> PACK_FOOTER_BYTES
         \<or> get_u32 footer 12 \<noteq> 0 \<or> get_u64 footer 32 \<noteq> 0 \<or> any_nonzero (drop 112 footer)
      then Inl (Reserved ''invalid production commit footer'')
      else let body = subslice bytes PACK_HEADER_BYTES footer_offset in
      if of_nat (length body) \<noteq> ph_manifest_bytes parsed \<or> get_u64 footer 16 \<noteq> ph_manifest_bytes parsed
         \<or> get_u64 footer 24 \<noteq> ph_key_epoch parsed \<or> get_u64 footer 40 \<noteq> of_nat (length bytes)
         \<or> subslice footer 48 80 \<noteq> ph_manifest_id parsed
      then Inl (Bounds ''pack footer binding mismatch'')
      else rbind (verify_pack_header_digest C (take PACK_HEADER_BYTES bytes)) (\<lambda>_.
      if authenticate C keys (take PACK_HEADER_BYTES bytes) body (of_nat (length body)) (ph_key_epoch parsed)
           (of_nat (length bytes))
         \<noteq> subslice footer FOOTER_HMAC_OFFSET (FOOTER_HMAC_OFFSET + 32)
      then Inl (Authentication ''manifest HMAC authentication failed'')
      else Inr parsed)))"

definition decode_authenticated_pack :: "crypto \<Rightarrow> bytes \<Rightarrow> key_schedule \<Rightarrow> manifest_bounds \<Rightarrow> cut_manifest result" where
  "decode_authenticated_pack C bytes keys bounds =
     rbind (verify_authenticated_pack C bytes keys) (\<lambda>parsed.
     let footer_offset = length bytes - PACK_FOOTER_BYTES;
         body = subslice bytes PACK_HEADER_BYTES footer_offset in
     rbind (if ph_encrypted parsed then
         if length body < 16 then Inl (Truncated ''truncated encrypted manifest'')
         else let salt = subslice bytes 120 136; nonce = subslice bytes 136 148 in
         rbind (manifest_encryption_key C keys (ph_manifest_id parsed) salt) (\<lambda>key.
         ok_or (cr_open C key nonce (take PACK_HEADER_BYTES bytes) body)
           (Authentication ''manifest AEAD authentication failed''))
       else Inr body) (\<lambda>canonical.
     if of_nat (length canonical) \<noteq> ph_plaintext_manifest_bytes parsed \<or> manifest_id C canonical \<noteq> ph_manifest_id parsed
     then Inl (Authentication ''manifest content identity mismatch'')
     else rbind (manifest_decode_canonical canonical) (\<lambda>manifest.
     if cm_tenant_namespace manifest \<noteq> ph_tenant_namespace parsed \<or> cm_key_epoch manifest \<noteq> ph_key_epoch parsed
     then Inl (Authentication ''manifest header identity mismatch'')
     else rbind (validate_manifest manifest bounds) (\<lambda>_. Inr manifest))))"

section \<open>Layout\<close>

lemma patch_steps:
  "length xs \<le> off \<Longrightarrow> patch (xs @ ys) off v = xs @ patch ys (off - length xs) v"
  "off + length v \<le> n \<Longrightarrow> patch (replicate n 0) off v = replicate off 0 @ v @ replicate (n - off - length v) 0"
  by (simp_all add: patch_def take_replicate min_absorb2)

lemma zero_bytes: "to_le_bytes (0 :: u32) = replicate 4 0" "to_le_bytes (0 :: u64) = replicate 8 0"
proof -
  have "le_bytes n 0 = replicate n 0" for n by (induction n) simp_all
  then show "to_le_bytes (0 :: u32) = replicate 4 0" "to_le_bytes (0 :: u64) = replicate 8 0"
    by (simp_all add: to_le_bytes_def)
qed

lemmas put_defs = put_u16_def put_u32_def put_u64_def put_slice_def

definition pack_fields :: "bool \<Rightarrow> nat \<Rightarrow> nat \<Rightarrow> u64 \<Rightarrow> id32 \<Rightarrow> id32 \<Rightarrow> bytes \<Rightarrow> bytes \<Rightarrow> bytes" where
  "pack_fields encrypt stored_len canonical_len key_epoch tenant ident salt nonce =
     PACK_MAGIC @ to_le_bytes WIRE_VERSION @ to_le_bytes (of_nat PACK_HEADER_BYTES :: u16)
     @ to_le_bytes (of_nat ALIGNMENT :: u32) @ to_le_bytes (if encrypt then FLAG_ENCRYPTED else 0)
     @ replicate 4 0 @ to_le_bytes (of_nat stored_len :: u64) @ to_le_bytes (of_nat canonical_len :: u64)
     @ to_le_bytes key_epoch @ replicate 8 0 @ tenant @ ident @ salt @ nonce"

lemma pack_header_layout:
  assumes "length tenant = 32" "length ident = 32" "length salt = 16" "length nonce = 12"
    and "\<not> encrypt \<longrightarrow> salt = replicate 16 0 \<and> nonce = replicate 12 0"
  shows "(let blank = blank_header encrypt s c ep tenant ident in
      if encrypt then put_slice 136 nonce (put_slice 120 salt blank) else blank)
    = pack_fields encrypt s c ep tenant ident salt nonce @ replicate 32 0 @ replicate 3916 0"
    "length (pack_fields encrypt s c ep tenant ident salt nonce) = 148"
proof -
  have blank: "blank_header encrypt s c ep tenant ident = PACK_MAGIC @ to_le_bytes WIRE_VERSION
     @ to_le_bytes (of_nat PACK_HEADER_BYTES :: u16)
     @ to_le_bytes (of_nat ALIGNMENT :: u32) @ to_le_bytes (if encrypt then FLAG_ENCRYPTED else 0)
     @ replicate 4 0 @ to_le_bytes (of_nat s :: u64) @ to_le_bytes (of_nat c :: u64)
     @ to_le_bytes ep @ replicate 8 0 @ tenant @ ident @ replicate 3976 0"
    unfolding blank_header_def put_defs using assms(1,2)
    by (simp add: patch_steps PACK_HEADER_BYTES_def ALIGNMENT_def)
  have z: "replicate 3976 (0 :: byte) = replicate 16 0 @ replicate 12 0 @ replicate 32 0 @ replicate 3916 0"
    by (simp flip: replicate_add)
  show "(let blank = blank_header encrypt s c ep tenant ident in
      if encrypt then put_slice 136 nonce (put_slice 120 salt blank) else blank)
    = pack_fields encrypt s c ep tenant ident salt nonce @ replicate 32 0 @ replicate 3916 0"
  proof (cases encrypt)
    case True
    have "replicate 3948 (0 :: byte) = replicate 32 0 @ replicate 3916 0" by (simp flip: replicate_add)
    with True assms(1-4) show ?thesis
      unfolding Let_def blank put_slice_def pack_fields_def by (simp add: patch_steps)
  next
    case False
    with assms(5) show ?thesis unfolding Let_def blank pack_fields_def z by simp
  qed
  show "length (pack_fields encrypt s c ep tenant ident salt nonce) = 148"
    using assms(1-4) by (simp add: pack_fields_def)
qed

lemma pack_fields_read:
  assumes "length tenant = 32" "length ident = 32" "length salt = 16" "length nonce = 12"
    and "h = pack_fields encrypt s c ep tenant ident salt nonce @ rest"
  shows "take 8 h = PACK_MAGIC" "get_u16 h 8 = WIRE_VERSION" "unat (get_u16 h 10) = PACK_HEADER_BYTES"
    "unat (get_u32 h 12) = ALIGNMENT" "get_u32 h 16 = (if encrypt then FLAG_ENCRYPTED else 0)" "get_u32 h 20 = 0"
    "get_u64 h 24 = of_nat s" "get_u64 h 32 = of_nat c" "get_u64 h 40 = ep" "get_u64 h 48 = 0"
    "subslice h 56 88 = tenant" "subslice h 88 120 = ident" "subslice h 120 136 = salt" "subslice h 136 148 = nonce"
    "subslice h 120 148 = salt @ nonce"
proof -
  have c: "unat (of_nat PACK_HEADER_BYTES :: u16) = PACK_HEADER_BYTES" "unat (of_nat ALIGNMENT :: u32) = ALIGNMENT"
    by (simp_all add: wire_consts)
  note z = zero_bytes [symmetric]
  have sn: "subslice (salt @ nonce @ rest) 0 28 = salt @ nonce"
    using assms(3,4) slice_fields(2) [of "salt @ nonce" 28 rest] by simp
  show "take 8 h = PACK_MAGIC" "get_u16 h 8 = WIRE_VERSION" "unat (get_u16 h 10) = PACK_HEADER_BYTES"
    "unat (get_u32 h 12) = ALIGNMENT" "get_u32 h 16 = (if encrypt then FLAG_ENCRYPTED else 0)" "get_u32 h 20 = 0"
    "get_u64 h 24 = of_nat s" "get_u64 h 32 = of_nat c" "get_u64 h 40 = ep" "get_u64 h 48 = 0"
    "subslice h 56 88 = tenant" "subslice h 88 120 = ident" "subslice h 120 136 = salt" "subslice h 136 148 = nonce"
    "subslice h 120 148 = salt @ nonce"
    unfolding assms(5) pack_fields_def append_assoc z
    using assms(1-4) by (simp_all add: slice_fields c sn del: unsigned_of_nat)
qed

lemma commit_footer_layout:
  assumes "length ident = 32" "length tag = 32"
    and "tag = authenticate C keys header body (of_nat (length body)) ep (of_nat fl)"
  shows "commit_footer C keys header body ep fl ident = FOOTER_MAGIC @ to_le_bytes WIRE_VERSION
     @ to_le_bytes (of_nat PACK_FOOTER_BYTES :: u16) @ to_le_bytes (0 :: u32) @ to_le_bytes (of_nat (length body) :: u64)
     @ to_le_bytes ep @ to_le_bytes (0 :: u64) @ to_le_bytes (of_nat fl :: u64) @ ident @ tag @ replicate 3984 0"
proof -
  show ?thesis
    unfolding commit_footer_def Let_def put_defs assms(3) [symmetric] zero_bytes using assms(1,2)
    by (simp add: patch_steps PACK_FOOTER_BYTES_def FOOTER_HMAC_OFFSET_def ALIGNMENT_def)
qed

lemma footer_read:
  assumes "length ident = 32" "length tag = 32"
    and "f = FOOTER_MAGIC @ to_le_bytes WIRE_VERSION
     @ to_le_bytes (of_nat PACK_FOOTER_BYTES :: u16) @ to_le_bytes (0 :: u32) @ to_le_bytes bl
     @ to_le_bytes ep @ to_le_bytes (0 :: u64) @ to_le_bytes fl @ ident @ tag @ replicate 3984 0"
  shows "take 8 f = FOOTER_MAGIC" "get_u16 f 8 = WIRE_VERSION" "unat (get_u16 f 10) = PACK_FOOTER_BYTES"
    "get_u32 f 12 = 0" "get_u64 f 16 = bl" "get_u64 f 24 = ep" "get_u64 f 32 = 0" "get_u64 f 40 = fl"
    "subslice f 48 80 = ident" "subslice f 80 112 = tag" "drop 112 f = replicate 3984 0" "length f = PACK_FOOTER_BYTES"
proof -
  have c: "unat (of_nat PACK_FOOTER_BYTES :: u16) = PACK_FOOTER_BYTES" by (simp add: wire_consts)
  show "take 8 f = FOOTER_MAGIC" "get_u16 f 8 = WIRE_VERSION" "unat (get_u16 f 10) = PACK_FOOTER_BYTES"
    "get_u32 f 12 = 0" "get_u64 f 16 = bl" "get_u64 f 24 = ep" "get_u64 f 32 = 0" "get_u64 f 40 = fl"
    "subslice f 48 80 = ident" "subslice f 80 112 = tag"
    unfolding assms(3) using assms(1,2) by (simp_all add: slice_fields c del: unsigned_of_nat)
  show "drop 112 f = replicate 3984 0" "length f = PACK_FOOTER_BYTES"
    unfolding assms(3) using assms(1,2) by (simp_all add: wire_consts)
qed

section \<open>Decoding an encoded pack\<close>

lemma encode_pack_layout:
  assumes "encode_authenticated_pack C rng m keys encrypt bounds = Inr pk"
    and "digests_32 C" "aead_ok C" "entropy_ok rng" "length (cm_tenant_namespace m) = 32"
  obtains canonical salt nonce hf header body where
    "validate_manifest m bounds = Inr ()" "manifest_encode_canonical m = Inr canonical"
    "length canonical \<le> MAX_MANIFEST_BYTES" "length (manifest_id C canonical) = 32"
    "length salt = 16" "length nonce = 12" "\<not> encrypt \<Longrightarrow> salt = replicate 16 0 \<and> nonce = replicate 12 0"
    "hf = pack_fields encrypt (length body) (length canonical) (cm_key_epoch m) (cm_tenant_namespace m)
       (manifest_id C canonical) salt nonce" "length hf = 148"
    "header = hf @ sha256 C [hf @ replicate 32 0 @ replicate 3916 0] @ replicate 3916 0" "length header = PACK_HEADER_BYTES"
    "length body = length canonical + (if encrypt then 16 else 0)"
    "if encrypt then \<exists>key. manifest_encryption_key C keys (manifest_id C canonical) salt = Inr key
       \<and> cr_seal C key nonce header canonical = Some body else body = canonical"
    "ep_bytes pk = header @ body @ commit_footer C keys header body (cm_key_epoch m)
       (PACK_HEADER_BYTES + length body + PACK_FOOTER_BYTES) (manifest_id C canonical)"
    "ep_manifest_id pk = manifest_id C canonical"
proof -
  have dig: "length (sha256 C ps) = 32" for ps using assms(2) by (simp add: sha256_def digests_32_def)
  obtain canonical stored fl salt nonce where
    val: "validate_manifest m bounds = Inr ()" and can: "manifest_encode_canonical m = Inr canonical"
    and le: "\<not> MAX_MANIFEST_BYTES < length canonical"
    and st: "usize_checked_add (length canonical) (if encrypt then 16 else 0) = Some stored"
    and fl: "Option.bind (usize_checked_add PACK_HEADER_BYTES stored) (\<lambda>v. usize_checked_add v PACK_FOOTER_BYTES) = Some fl"
    and salt: "(if encrypt then ok_or (fst rng) (Authentication ''manifest salt generation failed'')
       else Inr (replicate 16 0)) = Inr salt"
    and nonce: "(if encrypt then ok_or (snd rng) (Authentication ''manifest nonce generation failed'')
       else Inr (replicate 12 0)) = Inr nonce"
    and rest: "seal_pack C keys encrypt canonical (cm_key_epoch m) fl (manifest_id C canonical) salt nonce
       (if encrypt then put_slice 136 nonce (put_slice 120 salt (blank_header encrypt stored (length canonical)
         (cm_key_epoch m) (cm_tenant_namespace m) (manifest_id C canonical)))
        else blank_header encrypt stored (length canonical) (cm_key_epoch m) (cm_tenant_namespace m)
         (manifest_id C canonical)) = Inr pk"
    using assms(1) unfolding encode_authenticated_pack_def Let_def rbind_eq_Inr if_Inl_eq_Inr ok_or_eq_Inr by auto
  let ?id = "manifest_id C canonical"
  have id32: "length ?id = 32" unfolding manifest_id_def by (rule dig)
  have sn: "length salt = 16" "length nonce = 12" "\<not> encrypt \<longrightarrow> salt = replicate 16 0 \<and> nonce = replicate 12 0"
    using salt nonce assms(4) by (auto simp: entropy_ok_def ok_or_eq_Inr split: if_splits)
  define hf where "hf = pack_fields encrypt stored (length canonical) (cm_key_epoch m) (cm_tenant_namespace m) ?id salt nonce"
  note layout = pack_header_layout [where encrypt = encrypt and s = stored and c = "length canonical" and ep = "cm_key_epoch m",
    OF assms(5) id32 sn, folded hf_def]
  define header where "header = hf @ sha256 C [hf @ replicate 32 0 @ replicate 3916 0] @ replicate 3916 0"
  have hd: "put_slice PACK_DIGEST_OFFSET (sha256 C [hf @ replicate 32 0 @ replicate 3916 0]) (hf @ replicate 32 0 @ replicate 3916 0) = header"
    unfolding put_slice_def header_def patch_def using layout(2) dig by (simp add: wire_consts)
  have hlen: "length header = PACK_HEADER_BYTES" unfolding header_def using layout(2) dig by (simp add: wire_consts)
  note rest = rest [unfolded layout(1) [unfolded Let_def]]
  obtain body where body: "(if encrypt
       then rbind (manifest_encryption_key C keys ?id salt) (\<lambda>key.
         ok_or (cr_seal C key nonce header canonical) (Authentication ''manifest encryption failed''))
       else Inr canonical) = Inr body"
    and pk: "\<lparr>ep_bytes = header @ body @ commit_footer C keys header body (cm_key_epoch m) fl ?id, ep_manifest_id = ?id\<rparr> = pk"
    using rest [unfolded seal_pack_def Let_def hd rbind_eq_Inr sum.inject] by blast
  have stv: "stored = length canonical + (if encrypt then 16 else 0)" using st by (simp add: usize_checked_add_Some)
  have blen: "length body = stored"
    using body assms(3) stv by (auto simp: aead_ok_def rbind_eq_Inr ok_or_eq_Inr split: if_splits)
  have flv: "fl = PACK_HEADER_BYTES + length body + PACK_FOOTER_BYTES"
    using fl blen by (auto simp: bind_eq_Some_conv usize_checked_add_Some)
  show ?thesis
  proof (rule that [of canonical salt nonce hf body header])
    show "if encrypt then \<exists>key. manifest_encryption_key C keys ?id salt = Inr key
       \<and> cr_seal C key nonce header canonical = Some body else body = canonical"
      using body by (auto simp: rbind_eq_Inr ok_or_eq_Inr)
    show "hf = pack_fields encrypt (length body) (length canonical) (cm_key_epoch m) (cm_tenant_namespace m) ?id salt nonce"
      by (simp add: hf_def blen)
  qed (use val can le id32 sn layout(2) header_def hlen blen stv flv pk in auto)
qed

lemma decode_encoded_pack:
  assumes "encode_authenticated_pack C rng m keys encrypt bounds = Inr pk"
    and "digests_32 C" "aead_ok C" "entropy_ok rng" "length (cm_tenant_namespace m) = 32"
    and "manifest_encode_canonical m = Inr canonical"
  shows "verify_authenticated_pack C (ep_bytes pk) keys = Inr
      \<lparr>ph_tenant_namespace = cm_tenant_namespace m, ph_manifest_id = ep_manifest_id pk, ph_key_epoch = cm_key_epoch m,
       ph_manifest_bytes = of_nat (length canonical + (if encrypt then 16 else 0)),
       ph_plaintext_manifest_bytes = of_nat (length canonical), ph_encrypted = encrypt\<rparr>"
    "decode_authenticated_pack C (ep_bytes pk) keys bounds' =
      rbind (manifest_decode_canonical canonical) (\<lambda>manifest.
       if cm_tenant_namespace manifest \<noteq> cm_tenant_namespace m \<or> cm_key_epoch manifest \<noteq> cm_key_epoch m
       then Inl (Authentication ''manifest header identity mismatch'')
       else rbind (validate_manifest manifest bounds') (\<lambda>_. Inr manifest))"
proof -
  have "verify_authenticated_pack C (ep_bytes pk) keys = Inr
      \<lparr>ph_tenant_namespace = cm_tenant_namespace m, ph_manifest_id = ep_manifest_id pk, ph_key_epoch = cm_key_epoch m,
       ph_manifest_bytes = of_nat (length canonical + (if encrypt then 16 else 0)),
       ph_plaintext_manifest_bytes = of_nat (length canonical), ph_encrypted = encrypt\<rparr>
    \<and> decode_authenticated_pack C (ep_bytes pk) keys bounds' =
      rbind (manifest_decode_canonical canonical) (\<lambda>manifest.
       if cm_tenant_namespace manifest \<noteq> cm_tenant_namespace m \<or> cm_key_epoch manifest \<noteq> cm_key_epoch m
       then Inl (Authentication ''manifest header identity mismatch'')
       else rbind (validate_manifest manifest bounds') (\<lambda>_. Inr manifest))"
    using assms(1-5)
  proof (rule encode_pack_layout)
    fix canonical' salt nonce hf header body
    assume can: "manifest_encode_canonical m = Inr canonical'" and le: "length canonical' \<le> MAX_MANIFEST_BYTES"
      and id32: "length (manifest_id C canonical') = 32"
      and sn: "length salt = 16" "length nonce = 12" "\<not> encrypt \<Longrightarrow> salt = replicate 16 0 \<and> nonce = replicate 12 0"
      and hf: "hf = pack_fields encrypt (length body) (length canonical') (cm_key_epoch m) (cm_tenant_namespace m)
         (manifest_id C canonical') salt nonce" "length hf = 148"
      and hd: "header = hf @ sha256 C [hf @ replicate 32 0 @ replicate 3916 0] @ replicate 3916 0" "length header = PACK_HEADER_BYTES"
      and blen: "length body = length canonical' + (if encrypt then 16 else 0)"
      and body: "if encrypt then \<exists>key. manifest_encryption_key C keys (manifest_id C canonical') salt = Inr key
         \<and> cr_seal C key nonce header canonical' = Some body else body = canonical'"
      and bytes: "ep_bytes pk = header @ body @ commit_footer C keys header body (cm_key_epoch m)
         (PACK_HEADER_BYTES + length body + PACK_FOOTER_BYTES) (manifest_id C canonical')"
      and pid: "ep_manifest_id pk = manifest_id C canonical'"
    let ?B = "ep_bytes pk" and ?id = "manifest_id C canonical"
    have cc: "canonical' = canonical" using can assms(6) by simp
    note id32 = id32 [unfolded cc] and hf1 = hf(1) [unfolded cc] and body = body [unfolded cc] and blen = blen [unfolded cc]
      and bytes = bytes [unfolded cc] and pid = pid [unfolded cc] and le = le [unfolded cc]
    define fl where "fl = PACK_HEADER_BYTES + length body + PACK_FOOTER_BYTES"
    define tag where "tag = authenticate C keys header body (of_nat (length body)) (cm_key_epoch m) (of_nat fl)"
    define footer where "footer = commit_footer C keys header body (cm_key_epoch m) fl ?id"
    have t32: "length tag = 32" unfolding tag_def authenticate_def hmac_def using assms(2) by (simp add: digests_32_def)
    note fr = footer_read [OF id32 t32 footer_def [unfolded commit_footer_layout [OF id32 t32 tag_def]]]
    have B: "?B = header @ body @ footer" unfolding bytes fl_def footer_def ..
    have len: "length ?B = fl" using fr(12) hd(2) by (simp add: B fl_def)
    have tk: "take PACK_HEADER_BYTES ?B = header" using hd(2) by (simp add: B)
    have ft: "drop (fl - PACK_FOOTER_BYTES) ?B = footer" using hd(2) by (simp add: B fl_def)
    have bd: "subslice ?B PACK_HEADER_BYTES (fl - PACK_FOOTER_BYTES) = body"
      unfolding B using subslice_append_middle [of header body footer] hd(2) by (simp add: fl_def)
    have hB: "?B = pack_fields encrypt (length body) (length canonical) (cm_key_epoch m) (cm_tenant_namespace m) ?id salt nonce
      @ (sha256 C [hf @ replicate 32 0 @ replicate 3916 0] @ replicate 3916 0 @ body @ footer)"
      unfolding B hd(1) by (simp add: hf1)
    have hH: "header = pack_fields encrypt (length body) (length canonical) (cm_key_epoch m) (cm_tenant_namespace m) ?id salt nonce
      @ (sha256 C [hf @ replicate 32 0 @ replicate 3916 0] @ replicate 3916 0)"
      unfolding hd(1) by (simp add: hf1)
    note rB = pack_fields_read [OF assms(5) id32 sn(1,2) hB] and rH = pack_fields_read [OF assms(5) id32 sn(1,2) hH]
    have d32: "length (sha256 C ps) = 32" for ps using assms(2) by (simp add: sha256_def digests_32_def)
    have tail: "drop 180 header = replicate 3916 0" unfolding hd(1) using hf(2) d32 by simp
    have dig: "verify_pack_header_digest C header = Inr ()"
    proof -
      have "patch header PACK_DIGEST_OFFSET (replicate 32 0) = hf @ replicate 32 0 @ replicate 3916 0"
        unfolding hd(1) patch_def using hf(2) d32 by (simp add: wire_consts)
      moreover have "subslice header PACK_DIGEST_OFFSET (PACK_DIGEST_OFFSET + 32)
          = sha256 C [hf @ replicate 32 0 @ replicate 3916 0]"
        unfolding hd(1) using subslice_append_middle [of hf "sha256 C [hf @ replicate 32 0 @ replicate 3916 0]"] hf(2) d32
        by (simp add: wire_consts)
      ultimately show ?thesis by (simp add: verify_pack_header_digest_def)
    qed
    have zeros: "(\<not> encrypt \<and> any_nonzero (salt @ nonce)) = False" using sn(3) by (auto simp flip: replicate_add)
    have small: "length body < 2 ^ 32" "length canonical < 2 ^ 32" using le blen by (simp_all add: wire_consts)
    then have un: "unat (of_nat (length body) :: u64) = length body" "unat (of_nat (length canonical) :: u64) = length canonical"
      by (simp_all add: unat_of_nat)
    define ph where "ph = \<lparr>ph_tenant_namespace = cm_tenant_namespace m, ph_manifest_id = ?id, ph_key_epoch = cm_key_epoch m,
       ph_manifest_bytes = of_nat (length body), ph_plaintext_manifest_bytes = of_nat (length canonical), ph_encrypted = encrypt\<rparr>"
    have parse: "parse_pack_header_framing ?B = Inr ph"
      unfolding parse_pack_header_framing_def Let_def tk rH flag_tests tail zeros ph_def
      using len by (simp add: fl_def)
    have bounds: "\<not> MAX_MANIFEST_BYTES + 16 < length body" "\<not> MAX_MANIFEST_BYTES < length canonical"
      using le blen by simp_all
    have tagsl: "subslice footer FOOTER_HMAC_OFFSET (FOOTER_HMAC_OFFSET + 32) = tag" using fr(10) by (simp add: wire_consts)
    have ver: "verify_authenticated_pack C ?B keys = Inr ph"
      unfolding verify_authenticated_pack_def Let_def parse rbind_simps len tk ft bd fr dig tagsl
      unfolding ph_def pack_header.simps un tag_def
      using bounds by (simp add: fl_def)
    have opened: "(if encrypt then
         if length body < 16 then Inl (Truncated ''truncated encrypted manifest'')
         else rbind (manifest_encryption_key C keys ?id salt) (\<lambda>key.
         ok_or (cr_open C key nonce header body) (Authentication ''manifest AEAD authentication failed''))
       else Inr body) = Inr canonical"
      using body assms(3) blen by (auto simp: aead_ok_def)
    have "decode_authenticated_pack C ?B keys bounds' =
      rbind (manifest_decode_canonical canonical) (\<lambda>manifest.
       if cm_tenant_namespace manifest \<noteq> cm_tenant_namespace m \<or> cm_key_epoch manifest \<noteq> cm_key_epoch m
       then Inl (Authentication ''manifest header identity mismatch'')
       else rbind (validate_manifest manifest bounds') (\<lambda>_. Inr manifest))"
      unfolding decode_authenticated_pack_def Let_def ver rbind_simps len bd rB tk
      unfolding ph_def pack_header.simps opened rbind_simps by simp
    with ver show ?thesis unfolding ph_def pid blen by simp
  qed
  then show "verify_authenticated_pack C (ep_bytes pk) keys = Inr
      \<lparr>ph_tenant_namespace = cm_tenant_namespace m, ph_manifest_id = ep_manifest_id pk, ph_key_epoch = cm_key_epoch m,
       ph_manifest_bytes = of_nat (length canonical + (if encrypt then 16 else 0)),
       ph_plaintext_manifest_bytes = of_nat (length canonical), ph_encrypted = encrypt\<rparr>"
    "decode_authenticated_pack C (ep_bytes pk) keys bounds' =
      rbind (manifest_decode_canonical canonical) (\<lambda>manifest.
       if cm_tenant_namespace manifest \<noteq> cm_tenant_namespace m \<or> cm_key_epoch manifest \<noteq> cm_key_epoch m
       then Inl (Authentication ''manifest header identity mismatch'')
       else rbind (validate_manifest manifest bounds') (\<lambda>_. Inr manifest))"
    by blast+
qed

section \<open>Properties\<close>

lemma encoded_pack_decodes:
  assumes "encode_authenticated_pack C rng m keys encrypt bounds = Inr pk"
    and "digests_32 C" "aead_ok C" "entropy_ok rng" "typed_manifest m"
    and "mb_max_chunks_per_state bounds \<le> MAX_CHUNKS_PER_STATE"
    and "groups_inhabited m" "dependencies_bounded m"
  shows "decode_authenticated_pack C (ep_bytes pk) keys bounds = Inr m"
proof -
  have tenant: "length (cm_tenant_namespace m) = 32" using assms(5) by (simp add: typed_manifest_def)
  obtain canonical where val: "validate_manifest m bounds = Inr ()" and can: "manifest_encode_canonical m = Inr canonical"
    and le: "length canonical \<le> MAX_MANIFEST_BYTES"
    using assms(1-4) tenant by (rule encode_pack_layout)
  have "manifest_decode_canonical canonical = Inr m"
    using manifest_object.decode_encode [OF validated_ok_manifest [OF val assms(5-8)] can le] .
  then show ?thesis using decode_encoded_pack(2) [OF assms(1-4) tenant can] val by simp
qed

lemmas encoder_steps = manifest_encode_canonical_def enc_versioned_def manifest_encode_body_def encode_semantic_def
  encode_input_cut_def family_encode_body_def enc_family_state_def schema_encode_body_def enc_realized_def enc_group_def
  enc_span_def enc_ref_def enc_state_manifest_def enc_shape_def enc_state_key_def enc_seq.simps enc_id_def enc_bytes_def
  enc_enum_def enc_try_def try_from_usize_def enc_string_def enc_dimension_def enc_u8_def enc_u16_def enc_u32_def
  enc_u64_def enc_new_def shape_dims_def shape_rank_def

lemma sample_manifest_bytes:
  "\<exists>bs. manifest_encode_canonical (sample_manifest sample_groups) = Inr bs \<and> length bs \<le> MAX_MANIFEST_BYTES"
  by (simp add: encoder_steps sample_defs wire_consts del: One_nat_def)

lemma sample_empty_group_bytes:
  "\<exists>bs. manifest_encode_canonical sample_empty_group = Inr bs \<and> length bs \<le> MAX_MANIFEST_BYTES"
  by (simp add: sample_empty_group_def encoder_steps sample_defs wire_consts del: One_nat_def)

lemma encode_pack_succeeds:
  assumes "services_total C" "fst rng \<noteq> None" "snd rng \<noteq> None" "validate_manifest m bounds = Inr ()"
    and "\<exists>bs. manifest_encode_canonical m = Inr bs \<and> length bs \<le> MAX_MANIFEST_BYTES"
  shows "\<exists>pk. encode_authenticated_pack C rng m keys encrypt bounds = Inr pk"
proof -
  obtain bs where bs: "manifest_encode_canonical m = Inr bs" "length bs \<le> MAX_MANIFEST_BYTES" using assms(5) by blast
  have sum: "usize_checked_add (length bs) (if encrypt then 16 else 0) = Some (length bs + (if encrypt then 16 else 0))"
    "Option.bind (usize_checked_add PACK_HEADER_BYTES (length bs + (if encrypt then 16 else 0)))
       (\<lambda>v. usize_checked_add v PACK_FOOTER_BYTES) = Some (PACK_HEADER_BYTES + (length bs + (if encrypt then 16 else 0)) + PACK_FOOTER_BYTES)"
    using bs(2) by (simp_all add: usize_checked_add_def wire_consts)
  have seal: "\<exists>pk. seal_pack C keys encrypt bs ep fl ident salt nonce blank = Inr pk" for ep fl ident salt nonce blank
    using assms(1) unfolding services_total_def
    by (auto simp: seal_pack_def Let_def manifest_encryption_key_def ok_or_def simp del: not_None_eq split: option.splits)
  show ?thesis
    using assms(2-4) bs seal unfolding encode_authenticated_pack_def Let_def
    by (auto simp: sum ok_or_def not_less)
qed

lemma sample_packs:
  "\<exists>pk. encode_authenticated_pack sample_crypto sample_entropy (sample_manifest sample_groups) sample_keys encrypt default_bounds = Inr pk"
  "\<exists>pk. encode_authenticated_pack sample_crypto sample_entropy sample_empty_group sample_keys encrypt default_bounds = Inr pk"
  by (rule encode_pack_succeeds [OF sample_aead(2) sample_entropy_ok(2,3) sample_manifest_valid sample_manifest_bytes])
    (rule encode_pack_succeeds [OF sample_aead(2) sample_entropy_ok(2,3) sample_empty_group_valid sample_empty_group_bytes])



text \<open>Property C36.  Without the condition on groups the promise fails: if a manifest with an empty
  atomic group is accepted for encoding, the finished pack verifies but can never be decoded.\<close>

theorem pack_empty_group_unreadable:
  assumes "encode_authenticated_pack C rng m keys encrypt bounds = Inr pk"
    and "digests_32 C" "aead_ok C" "entropy_ok rng" "typed_manifest m"
    and "mb_max_chunks_per_state bounds \<le> MAX_CHUNKS_PER_STATE"
    and "\<not> groups_inhabited m" "dependencies_bounded m"
    and "length (rc_atomic_groups (cm_realized_schema m)) < 2 ^ 32"
  shows "(\<exists>parsed. verify_authenticated_pack C (ep_bytes pk) keys = Inr parsed)
    \<and> (\<exists>err. decode_authenticated_pack C (ep_bytes pk) keys bounds' = Inl err)"
proof -
  have tenant: "length (cm_tenant_namespace m) = 32" using assms(5) by (simp add: typed_manifest_def)
  obtain canonical where val: "validate_manifest m bounds = Inr ()" and can: "manifest_encode_canonical m = Inr canonical"
    using assms(1-4) tenant by (rule encode_pack_layout)
  obtain err where "manifest_decode_canonical canonical = Inl err"
    using empty_group_undecodable [OF val assms(5-9)] can by auto
  then show ?thesis using decode_encoded_pack(1) [OF assms(1-4) tenant can]
      decode_encoded_pack(2) [OF assms(1-4) tenant can, of bounds'] by simp
qed

theorem pack_empty_group_unreadable_witness:
  "\<exists>pk parsed err. encode_authenticated_pack sample_crypto sample_entropy sample_empty_group sample_keys False default_bounds = Inr pk
    \<and> verify_authenticated_pack sample_crypto (ep_bytes pk) sample_keys = Inr parsed
    \<and> decode_authenticated_pack sample_crypto (ep_bytes pk) sample_keys default_bounds = Inl err"
proof -
  obtain pk where pk: "encode_authenticated_pack sample_crypto sample_entropy sample_empty_group sample_keys False
      default_bounds = Inr pk" using sample_packs(2) by blast
  have typed: "typed_manifest sample_empty_group" unfolding sample_empty_group_def by (rule sample_typed)
  have "mb_max_chunks_per_state default_bounds \<le> MAX_CHUNKS_PER_STATE" "\<not> groups_inhabited sample_empty_group"
    "dependencies_bounded sample_empty_group" "length (rc_atomic_groups (cm_realized_schema sample_empty_group)) < 2 ^ 32"
    by (simp_all add: sample_empty_group_def default_bounds_def groups_inhabited_def dependencies_bounded_def
        sample_defs wire_consts)
  from pack_empty_group_unreadable [OF pk sample_digests sample_aead(1) sample_entropy_ok(1) typed this, of default_bounds] pk
  show ?thesis by (elim conjE exE) (intro exI conjI)
qed

lemma decode_pack_ok:
  assumes "decode_authenticated_pack C bytes keys bounds = Inr m"
  obtains parsed canonical where "verify_authenticated_pack C bytes keys = Inr parsed"
    "manifest_decode_canonical canonical = Inr m" "manifest_id C canonical = ph_manifest_id parsed"
    "cm_tenant_namespace m = ph_tenant_namespace parsed" "cm_key_epoch m = ph_key_epoch parsed"
    "validate_manifest m bounds = Inr ()"
  using assms unfolding decode_authenticated_pack_def Let_def by (auto simp: rbind_eq_Inr if_Inl_eq_Inr)

lemma verify_pack_ok:
  assumes "verify_authenticated_pack C bytes keys = Inr parsed"
  shows "PACK_HEADER_BYTES + PACK_FOOTER_BYTES \<le> length bytes"
    "parse_pack_header_framing bytes = Inr parsed"
    "verify_pack_header_digest C (take PACK_HEADER_BYTES bytes) = Inr ()"
    "let footer = drop (length bytes - PACK_FOOTER_BYTES) bytes;
         body = subslice bytes PACK_HEADER_BYTES (length bytes - PACK_FOOTER_BYTES) in
     take 8 footer = FOOTER_MAGIC \<and> get_u16 footer 8 = WIRE_VERSION \<and> unat (get_u16 footer 10) = PACK_FOOTER_BYTES
     \<and> get_u32 footer 12 = 0 \<and> get_u64 footer 32 = 0 \<and> \<not> any_nonzero (drop 112 footer)
     \<and> get_u64 footer 16 = ph_manifest_bytes parsed \<and> get_u64 footer 24 = ph_key_epoch parsed
     \<and> get_u64 footer 40 = of_nat (length bytes) \<and> subslice footer 48 80 = ph_manifest_id parsed
     \<and> authenticate C keys (take PACK_HEADER_BYTES bytes) body (of_nat (length body)) (ph_key_epoch parsed)
           (of_nat (length bytes)) = subslice footer FOOTER_HMAC_OFFSET (FOOTER_HMAC_OFFSET + 32)"
  using assms unfolding verify_authenticated_pack_def Let_def by (auto simp: rbind_eq_Inr if_Inl_eq_Inr)

text \<open>Property C21.  What decoding establishes: an accepted manifest passed the keyed tag and the header
  digest, is valid under the given bounds, carries the tenant and epoch of the header, and its canonical
  encoding has the manifest identity of the header, the same header that inspection reports.\<close>

theorem decoded_pack_authentic:
  assumes "decode_authenticated_pack C bytes keys bounds = Inr m"
  shows "\<exists>parsed canonical. verify_authenticated_pack C bytes keys = Inr parsed
    \<and> inspect_pack_header C bytes = Inr parsed
    \<and> validate_manifest m bounds = Inr () \<and> manifest_encode_canonical m = Inr canonical
    \<and> manifest_id C canonical = ph_manifest_id parsed
    \<and> cm_tenant_namespace m = ph_tenant_namespace parsed \<and> cm_key_epoch m = ph_key_epoch parsed"
proof -
  obtain parsed canonical where ok: "verify_authenticated_pack C bytes keys = Inr parsed"
    "manifest_decode_canonical canonical = Inr m" "manifest_id C canonical = ph_manifest_id parsed"
    "cm_tenant_namespace m = ph_tenant_namespace parsed" "cm_key_epoch m = ph_key_epoch parsed"
    "validate_manifest m bounds = Inr ()" using decode_pack_ok [OF assms] .
  have "inspect_pack_header C bytes = Inr parsed"
    using verify_pack_ok(2,3) [OF ok(1)] by (simp add: inspect_pack_header_def)
  moreover have "manifest_encode_canonical m = Inr canonical" using manifest_object.decode_canon [OF ok(2)] by simp
  ultimately show ?thesis using ok by (intro exI conjI)
qed

theorem decoded_pack_authentic_witness:
  "\<exists>bytes parsed canonical. decode_authenticated_pack sample_crypto bytes sample_keys default_bounds = Inr (sample_manifest sample_groups)
    \<and> verify_authenticated_pack sample_crypto bytes sample_keys = Inr parsed
    \<and> manifest_encode_canonical (sample_manifest sample_groups) = Inr canonical
    \<and> manifest_id sample_crypto canonical = ph_manifest_id parsed"
proof -
  obtain pk where pk: "encode_authenticated_pack sample_crypto sample_entropy (sample_manifest sample_groups) sample_keys True
      default_bounds = Inr pk" using sample_packs(1) by blast
  have "mb_max_chunks_per_state default_bounds \<le> MAX_CHUNKS_PER_STATE" "groups_inhabited (sample_manifest sample_groups)"
    "dependencies_bounded (sample_manifest sample_groups)"
    by (simp_all add: default_bounds_def groups_inhabited_def dependencies_bounded_def sample_defs wire_consts)
  note dec = encoded_pack_decodes [OF pk sample_digests sample_aead(1) sample_entropy_ok(1) sample_typed this]
  from decoded_pack_authentic [OF dec] dec show ?thesis by (elim conjE exE) (intro exI conjI)
qed

definition pack_tag :: "bytes \<Rightarrow> bytes" where
  "pack_tag bytes = (let footer = drop (length bytes - PACK_FOOTER_BYTES) bytes in
     subslice footer FOOTER_HMAC_OFFSET (FOOTER_HMAC_OFFSET + 32))"

definition pack_message :: "bytes \<Rightarrow> u64 \<Rightarrow> bytes" where
  "pack_message bytes key_epoch = (let body = subslice bytes PACK_HEADER_BYTES (length bytes - PACK_FOOTER_BYTES) in
     label ''kvpack/v1/manifest-auth'' @ take PACK_HEADER_BYTES bytes @ body @ to_le_bytes (of_nat (length body) :: u64)
     @ to_le_bytes key_epoch @ to_le_bytes (of_nat (length bytes) :: u64))"

lemma footer_determined:
  assumes "length f = PACK_FOOTER_BYTES" "length f' = PACK_FOOTER_BYTES" and "take 8 f = take 8 f'"
    "get_u16 f 8 = get_u16 f' 8" "get_u16 f 10 = get_u16 f' 10" "get_u32 f 12 = get_u32 f' 12" "get_u64 f 16 = get_u64 f' 16"
    "get_u64 f 24 = get_u64 f' 24" "get_u64 f 32 = get_u64 f' 32" "get_u64 f 40 = get_u64 f' 40"
    "subslice f 48 80 = subslice f' 48 80" "subslice f 80 112 = subslice f' 80 112" "drop 112 f = drop 112 f'"
  shows "f = f'"
proof -
  have len: "length f = 4096" "length f' = 4096" using assms(1,2) by (simp_all add: wire_consts)
  have step: "take j f = take j f'" if "take i f = take i f'" "subslice f i j = subslice f' i j" "i \<le> j" for i j
    using that take_subslice [OF that(3), of f] take_subslice [OF that(3), of f'] by simp
  have "take 10 f = take 10 f'"
    using step [OF assms(3), of 10] slice_of_get(1) [of 8 f] slice_of_get(1) [of 8 f'] assms(4) len by simp
  from step [OF this, of 12] have "take 12 f = take 12 f'"
    using slice_of_get(1) [of 10 f] slice_of_get(1) [of 10 f'] assms(5) len by simp
  from step [OF this, of 16] have "take 16 f = take 16 f'"
    using slice_of_get(2) [of 12 f] slice_of_get(2) [of 12 f'] assms(6) len by simp
  from step [OF this, of 24] have "take 24 f = take 24 f'"
    using slice_of_get(3) [of 16 f] slice_of_get(3) [of 16 f'] assms(7) len by simp
  from step [OF this, of 32] have "take 32 f = take 32 f'"
    using slice_of_get(3) [of 24 f] slice_of_get(3) [of 24 f'] assms(8) len by simp
  from step [OF this, of 40] have "take 40 f = take 40 f'"
    using slice_of_get(3) [of 32 f] slice_of_get(3) [of 32 f'] assms(9) len by simp
  from step [OF this, of 48] have "take 48 f = take 48 f'"
    using slice_of_get(3) [of 40 f] slice_of_get(3) [of 40 f'] assms(10) len by simp
  from step [OF this assms(11)] have "take 80 f = take 80 f'" by simp
  from step [OF this assms(12)] have "take 112 f = take 112 f'" by simp
  with assms(13) show ?thesis by (metis append_take_drop_id)
qed

lemma pack_message_inj:
  assumes "pack_message b e = pack_message b' e'" and "PACK_HEADER_BYTES + PACK_FOOTER_BYTES \<le> length b"
    "PACK_HEADER_BYTES + PACK_FOOTER_BYTES \<le> length b'"
  shows "take PACK_HEADER_BYTES b = take PACK_HEADER_BYTES b'"
    "subslice b PACK_HEADER_BYTES (length b - PACK_FOOTER_BYTES) = subslice b' PACK_HEADER_BYTES (length b' - PACK_FOOTER_BYTES)"
proof -
  let ?h = "take PACK_HEADER_BYTES b" and ?h' = "take PACK_HEADER_BYTES b'"
  let ?c = "subslice b PACK_HEADER_BYTES (length b - PACK_FOOTER_BYTES)" and ?c' = "subslice b' PACK_HEADER_BYTES (length b' - PACK_FOOTER_BYTES)"
  have lens: "length ?h = length ?h'" using assms(2,3) by simp
  have "?h @ ?c @ to_le_bytes (of_nat (length ?c) :: u64) @ to_le_bytes e @ to_le_bytes (of_nat (length b) :: u64)
    = ?h' @ ?c' @ to_le_bytes (of_nat (length ?c') :: u64) @ to_le_bytes e' @ to_le_bytes (of_nat (length b') :: u64)"
    using assms(1) by (simp add: pack_message_def Let_def)
  then have both: "?h = ?h' \<and> ?c @ to_le_bytes (of_nat (length ?c) :: u64) @ to_le_bytes e @ to_le_bytes (of_nat (length b) :: u64)
    = ?c' @ to_le_bytes (of_nat (length ?c') :: u64) @ to_le_bytes e' @ to_le_bytes (of_nat (length b') :: u64)"
    using append_eq_append_conv [of ?h ?h'] lens by blast
  have suffix: "x = y" if "x @ u = y @ v" "length u = length v" for x y u v :: bytes
    using that by simp
  show "?h = ?h'" using both by (rule conjunct1)
  show "?c = ?c'" using both by (intro suffix [OF conjunct2]) simp_all
qed

text \<open>Property C22.  The tag binds every byte of the file: two packs that verify under one key and carry
  the same tag are identical, or their authenticated messages are two different messages with that tag.\<close>

theorem pack_tag_binds_bytes:
  assumes "verify_authenticated_pack C b keys = Inr parsed" and "verify_authenticated_pack C b' keys = Inr parsed'"
    and "pack_tag b = pack_tag b'"
  shows "b = b' \<or> pack_message b (ph_key_epoch parsed) \<noteq> pack_message b' (ph_key_epoch parsed')
    \<and> cr_hmac C (ks_manifest_auth keys) (pack_message b (ph_key_epoch parsed))
      = cr_hmac C (ks_manifest_auth keys) (pack_message b' (ph_key_epoch parsed'))"
proof (cases "pack_message b (ph_key_epoch parsed) = pack_message b' (ph_key_epoch parsed')")
  case False
  have "cr_hmac C (ks_manifest_auth keys) (pack_message c (ph_key_epoch pc)) = pack_tag c"
    if "verify_authenticated_pack C c keys = Inr pc" for c pc
    using verify_pack_ok(4) [OF that] by (simp add: pack_message_def pack_tag_def Let_def authenticate_def hmac_def)
  with False assms show ?thesis by simp
next
  case True
  note v = verify_pack_ok [OF assms(1)] and v' = verify_pack_ok [OF assms(2)]
  note eq = pack_message_inj [OF True v(1) v'(1)]
  have "parse_pack_header_framing b = parse_pack_header_framing b'"
    using v(1) v'(1) eq(1) by (simp add: parse_pack_header_framing_def Let_def)
  then have ph: "parsed = parsed'" using v(2) v'(2) by simp
  have "length (subslice b PACK_HEADER_BYTES (length b - PACK_FOOTER_BYTES))
      = length (subslice b' PACK_HEADER_BYTES (length b' - PACK_FOOTER_BYTES))" using eq(2) by simp
  then have len: "length b = length b'" using v(1) v'(1) by simp
  let ?f = "drop (length b - PACK_FOOTER_BYTES) b" and ?f' = "drop (length b' - PACK_FOOTER_BYTES) b'"
  have fl: "length ?f = PACK_FOOTER_BYTES" "length ?f' = PACK_FOOTER_BYTES" using v(1) v'(1) by simp_all
  have "?f = ?f'"
  proof (rule footer_determined [OF fl])
    show "drop 112 ?f = drop 112 ?f'"
      using v(4) v'(4) fl unfolding Let_def zeros_iff by (metis length_drop)
    show "subslice ?f 80 112 = subslice ?f' 80 112" using assms(3) by (simp add: pack_tag_def Let_def wire_consts)
    show "get_u16 ?f 10 = get_u16 ?f' 10" using v(4) v'(4) unfolding Let_def word_unat_eq_iff by simp
  qed (use v(4) v'(4) ph len in \<open>simp_all add: Let_def\<close>)
  moreover have "c = take PACK_HEADER_BYTES c @ subslice c PACK_HEADER_BYTES (length c - PACK_FOOTER_BYTES)
      @ drop (length c - PACK_FOOTER_BYTES) c" if "PACK_HEADER_BYTES + PACK_FOOTER_BYTES \<le> length c" for c :: bytes
    using take_subslice [of PACK_HEADER_BYTES "length c - PACK_FOOTER_BYTES" c] that
    by (metis append_assoc append_take_drop_id le_diff_conv2 add_leD2)
  ultimately show ?thesis using v(1) v'(1) eq by metis
qed

theorem pack_tag_binds_bytes_witness:
  "\<exists>bytes parsed. verify_authenticated_pack sample_crypto bytes sample_keys = Inr parsed
    \<and> (bytes = bytes \<or> pack_message bytes (ph_key_epoch parsed) \<noteq> pack_message bytes (ph_key_epoch parsed)
       \<and> cr_hmac sample_crypto (ks_manifest_auth sample_keys) (pack_message bytes (ph_key_epoch parsed))
         = cr_hmac sample_crypto (ks_manifest_auth sample_keys) (pack_message bytes (ph_key_epoch parsed)))"
proof -
  obtain pk where pk: "encode_authenticated_pack sample_crypto sample_entropy (sample_manifest sample_groups) sample_keys True
      default_bounds = Inr pk" using sample_packs(1) by blast
  obtain bs where bs: "manifest_encode_canonical (sample_manifest sample_groups) = Inr bs" using sample_manifest_bytes by blast
  have tenant: "length (cm_tenant_namespace (sample_manifest sample_groups)) = 32" by (simp add: sample_defs)
  note v = decode_encoded_pack(1) [OF pk sample_digests sample_aead(1) sample_entropy_ok(1) tenant bs]
  show ?thesis by (intro exI conjI, rule v, rule pack_tag_binds_bytes [OF v v refl])
qed

end
