(* ===== verification/Transform.thy ===== *)
theory Transform
  imports Ids
begin

text \<open>
  Engine-layout translation (\<^verbatim>\<open>kvpack-core/src/transform.rs\<close>, \<^verbatim>\<open>transform/exec.rs\<close>): descriptors of
  ordered repack operations, their canonical bytes and identity, and the executors over one KV
  plane.  Labels are byte strings.  The executors copy equal blocks between two buffers; the lemmas
  on \<open>tiling\<close>s show that every copy stays in range, every output block is written once, and the
  inverse operation copies every block back.
\<close>

section \<open>Descriptors\<close>

definition TRANSFORM_MAGIC :: bytes where "TRANSFORM_MAGIC = ascii ''KVXFM1'' @ [0, 0]"
definition TRANSFORM_VERSION :: u16 where "TRANSFORM_VERSION = 1"
definition MAX_TRANSFORM_OPS :: nat where [wire_consts]: "MAX_TRANSFORM_OPS = 64"
definition MAX_TRANSFORM_LABEL_BYTES :: nat where [wire_consts]: "MAX_TRANSFORM_LABEL_BYTES = 128"
definition MAX_PERMUTATION_WIDTH :: nat where [wire_consts]: "MAX_PERMUTATION_WIDTH = 16384"
definition MAX_PAD_TARGET_BYTES :: nat where [wire_consts]: "MAX_PAD_TARGET_BYTES = 1073741824"
definition MAX_ROPE_HEAD_DIM :: nat where [wire_consts]: "MAX_ROPE_HEAD_DIM = 4096"

datatype cast_dtype = Cast_Fp16 | Cast_Bf16 | Cast_Fp8E4m3

definition cast_from_wire :: "u16 \<Rightarrow> cast_dtype result" where
  "cast_from_wire v =
     (if v = 1 then Inr Cast_Fp16 else if v = 2 then Inr Cast_Bf16 else if v = 3 then Inr Cast_Fp8E4m3
      else Inl (UnknownEnum ''cast dtype'' (ucast v)))"

primrec cast_wire :: "cast_dtype \<Rightarrow> u16" where
  "cast_wire Cast_Fp16 = 1"
| "cast_wire Cast_Bf16 = 2"
| "cast_wire Cast_Fp8E4m3 = 3"

datatype rope_direction = NeoxToInterleaved | InterleavedToNeox

definition rope_from_wire :: "u16 \<Rightarrow> rope_direction result" where
  "rope_from_wire v =
     (if v = 1 then Inr NeoxToInterleaved else if v = 2 then Inr InterleavedToNeox
      else Inl (UnknownEnum ''rope direction'' (ucast v)))"

primrec rope_wire :: "rope_direction \<Rightarrow> u16" where
  "rope_wire NeoxToInterleaved = 1"
| "rope_wire InterleavedToNeox = 2"

datatype repack_op =
    PermuteHeadPairs "u32 list"
  | ReorderPlanes "u32 list"
  | RegroupLayers "u32 list"
  | PadOrTrim u64
  | DtypeCast cast_dtype cast_dtype "id32 option"
  | RopePermute rope_direction u32

definition encode_permutation :: "u16 \<Rightarrow> u32 list \<Rightarrow> put" where
  "encode_permutation tag order = enc_seq
     [enc_u16 tag, enc_u16 (of_nat (length order)), enc_seq (map enc_u32 order)]"

definition decode_permutation :: "u32 list get" where
  "decode_permutation = dbind dec_u16 (\<lambda>width. dec_times (unat width) dec_u32)"

fun op_encode :: "repack_op \<Rightarrow> put" where
  "op_encode (PermuteHeadPairs order) = encode_permutation 1 order"
| "op_encode (ReorderPlanes order) = encode_permutation 2 order"
| "op_encode (RegroupLayers order) = encode_permutation 3 order"
| "op_encode (PadOrTrim target_bytes) = enc_seq [enc_u16 4, enc_u64 target_bytes]"
| "op_encode (DtypeCast from_dtype to_dtype scale_id) = enc_seq
     ([enc_u16 5, enc_enum cast_wire from_dtype, enc_enum cast_wire to_dtype]
      @ (case scale_id of Some ident \<Rightarrow> [enc_u8 1, enc_id ident] | None \<Rightarrow> [enc_u8 0, enc_id ZERO_ID]))"
| "op_encode (RopePermute direction head_dim) = enc_seq
     [enc_u16 6, enc_enum rope_wire direction, enc_u32 head_dim]"

definition op_decode :: "repack_op get" where
  "op_decode =
     dbind dec_u16 (\<lambda>tag.
     if tag = 1 then dbind decode_permutation (\<lambda>order. dret (PermuteHeadPairs order))
     else if tag = 2 then dbind decode_permutation (\<lambda>order. dret (ReorderPlanes order))
     else if tag = 3 then dbind decode_permutation (\<lambda>order. dret (RegroupLayers order))
     else if tag = 4 then dbind dec_u64 (\<lambda>target_bytes. dret (PadOrTrim target_bytes))
     else if tag = 5 then
       dbind (dec_enum cast_from_wire) (\<lambda>from_dtype.
       dbind (dec_enum cast_from_wire) (\<lambda>to_dtype.
       dbind dec_u8 (\<lambda>present.
       dbind dec_id (\<lambda>ident.
       if present = 0 \<and> ident = ZERO_ID then dret (DtypeCast from_dtype to_dtype None)
       else if present = 1 then dret (DtypeCast from_dtype to_dtype (Some ident))
       else dfail (Semantics ''transform dtype-cast scale-id marker is outside the v1 bounds'')))))
     else if tag = 6 then
       dbind (dec_enum rope_from_wire) (\<lambda>direction.
       dbind dec_u32 (\<lambda>head_dim. dret (RopePermute direction head_dim)))
     else dfail (UnknownEnum ''transform op'' (ucast tag)))"

definition permutation_step :: "nat \<Rightarrow> bool list \<Rightarrow> u32 \<Rightarrow> bool list result" where
  "permutation_step width seen index =
     (if \<not> unat index < width
      then Inl (Semantics ''transform permutation index is outside the permutation width'')
      else if seen ! unat index then Inl (Semantics ''transform permutation repeats a source index'')
      else Inr (seen[unat index := True]))"

definition validate_permutation :: "u32 list \<Rightarrow> unit result" where
  "validate_permutation order =
     (if order = [] \<or> length order > MAX_PERMUTATION_WIDTH
      then Inl (Bounds ''transform permutation width is outside the v1 bounds'')
      else rbind (try_fold (permutation_step (length order)) (replicate (length order) False) order) (\<lambda>_. Inr ()))"

fun op_validate :: "repack_op \<Rightarrow> unit result" where
  "op_validate (PermuteHeadPairs order) = validate_permutation order"
| "op_validate (ReorderPlanes order) = validate_permutation order"
| "op_validate (RegroupLayers order) = validate_permutation order"
| "op_validate (PadOrTrim target_bytes) =
     (if target_bytes = 0 \<or> unat target_bytes > MAX_PAD_TARGET_BYTES
      then Inl (Bounds ''transform pad-or-trim target is outside the v1 bounds'') else Inr ())"
| "op_validate (DtypeCast from_dtype to_dtype scale_id) =
     (if from_dtype = to_dtype then Inl (Semantics ''transform dtype-cast endpoints must differ'')
      else let needs_scale = (from_dtype = Cast_Fp8E4m3 \<or> to_dtype = Cast_Fp8E4m3) in
      if needs_scale \<noteq> (scale_id \<noteq> None)
      then Inl (Semantics ''transform dtype-cast scale-id presence must match fp8e4m3 endpoints'') else Inr ())"
| "op_validate (RopePermute direction head_dim) =
     (if unat head_dim < 2 \<or> unat head_dim > MAX_ROPE_HEAD_DIM \<or> unat head_dim mod 2 \<noteq> 0
      then Inl (Bounds ''transform rope-permute head dim is outside the v1 bounds'') else Inr ())"

definition is_ascii :: "bytes \<Rightarrow> bool" where
  "is_ascii bs \<longleftrightarrow> list_all (\<lambda>b. b < 0x80) bs"

definition validate_label :: "bytes \<Rightarrow> string \<Rightarrow> unit result" where
  "validate_label value what =
     (if value = [] \<or> length value > MAX_TRANSFORM_LABEL_BYTES \<or> \<not> is_ascii value then Inl (Bounds what) else Inr ())"

record transform_descriptor =
  td_schema_version :: u32
  td_name :: bytes
  td_source_layout :: bytes
  td_ops :: "repack_op list"

definition transform_validate :: "transform_descriptor \<Rightarrow> unit result" where
  "transform_validate d =
     (if td_schema_version d \<noteq> ucast TRANSFORM_VERSION
      then Inl (BadMagic ''transform descriptor schema version is outside the v1 bounds'')
      else rbind (validate_label (td_name d) ''transform name is outside the v1 bounds'') (\<lambda>_.
      rbind (validate_label (td_source_layout d) ''transform source layout is outside the v1 bounds'') (\<lambda>_.
      if length (td_ops d) > MAX_TRANSFORM_OPS then Inl (Bounds ''transform op count is outside the v1 bounds'')
      else for_each op_validate (td_ops d))))"

definition transform_encode_body :: "transform_descriptor \<Rightarrow> put" where
  "transform_encode_body d = enc_seq
     [enc_u16 TRANSFORM_VERSION, enc_string (td_name d), enc_string (td_source_layout d),
      enc_u16 (of_nat (length (td_ops d))), enc_seq (map op_encode (td_ops d))]"

definition transform_encode :: "transform_descriptor \<Rightarrow> bytes result" where
  "transform_encode d =
     rbind (transform_validate d) (\<lambda>_. transform_encode_body d (enc_new TRANSFORM_MAGIC))"

definition transform_decode_body :: "transform_descriptor get" where
  "transform_decode_body =
     dbind dec_u16 (\<lambda>version.
     if version \<noteq> TRANSFORM_VERSION then dfail (BadMagic ''invalid transform descriptor version'')
     else dbind dec_string (\<lambda>name.
     dbind dec_string (\<lambda>source_layout.
     dbind dec_u16 (\<lambda>count.
     dbind (dec_times (unat count) op_decode) (\<lambda>ops.
     dret \<lparr>td_schema_version = ucast TRANSFORM_VERSION, td_name = name, td_source_layout = source_layout,
           td_ops = ops\<rparr>)))))"

definition transform_decode :: "bytes \<Rightarrow> transform_descriptor result" where
  "transform_decode bs =
     rbind (decode_object TRANSFORM_MAGIC transform_decode_body bs) (\<lambda>descriptor.
     rbind (transform_validate descriptor) (\<lambda>_. Inr descriptor))"

definition transform_id :: "crypto \<Rightarrow> transform_descriptor \<Rightarrow> id32 result" where
  "transform_id C d = rbind (transform_encode d) (\<lambda>bs. Inr (sha256 C [bs]))"

section \<open>Executors\<close>

record kv_plane_shape =
  kp_tokens :: u32
  kp_kv_heads :: u32
  kp_head_dim :: u32
  kp_element_bytes :: u32

definition plane_bytes :: "kv_plane_shape \<Rightarrow> nat result" where
  "plane_bytes s =
     (if kp_tokens s = 0 then Inl (Bounds ''transform plane has zero tokens'')
      else if kp_kv_heads s = 0 then Inl (Bounds ''transform plane has zero kv heads'')
      else if kp_head_dim s = 0 then Inl (Bounds ''transform plane has zero head dim'')
      else if kp_element_bytes s = 0 then Inl (Bounds ''transform plane has zero element bytes'')
      else ok_or (Option.bind (usize_checked_mul (unat (kp_tokens s)) (unat (kp_kv_heads s))) (\<lambda>v.
          Option.bind (usize_checked_mul v (unat (kp_head_dim s))) (\<lambda>v.
          usize_checked_mul v (unat (kp_element_bytes s)))))
        (Bounds ''transform plane byte count overflows''))"

definition checked_plane :: "kv_plane_shape \<Rightarrow> bytes \<Rightarrow> nat result" where
  "checked_plane shape plane =
     rbind (plane_bytes shape) (\<lambda>expected.
     if length plane \<noteq> expected then Inl (Bounds ''transform plane bytes do not match the declared shape'')
     else Inr expected)"

text \<open>\<^verbatim>\<open>output[target..target + w].copy_from_slice(&plane[source..source + w])\<close>.\<close>

definition copy_slice :: "bytes \<Rightarrow> nat \<Rightarrow> nat \<Rightarrow> nat \<Rightarrow> bytes \<Rightarrow> bytes" where
  "copy_slice plane w source target output = patch output target (subslice plane source (source + w))"

definition permute_slabs :: "u32 list \<Rightarrow> bytes \<Rightarrow> bytes result" where
  "permute_slabs order plane =
     (if length order > MAX_PERMUTATION_WIDTH \<or> length plane mod length order \<noteq> 0
      then Inl (Bounds ''transform slab count does not divide the plane bytes'')
      else rbind (validate_permutation order) (\<lambda>_.
      let slab = length plane div length order in
      Inr (fold (\<lambda>(slot, source). copy_slice plane slab (unat source * slab) (slot * slab))
        (enumerate 0 order) (replicate (length plane) 0))))"

definition permute_head_pairs :: "u32 list \<Rightarrow> kv_plane_shape \<Rightarrow> bytes \<Rightarrow> bytes result" where
  "permute_head_pairs order shape plane =
     (if unat (kp_kv_heads shape) mod 2 \<noteq> 0 \<or> length order \<noteq> unat (kp_kv_heads shape) div 2
      then Inl (Bounds ''transform head-pair order does not match the declared kv heads'')
      else rbind (validate_permutation order) (\<lambda>_.
      rbind (ok_or (Option.bind (usize_checked_mul (unat (kp_kv_heads shape)) (unat (kp_head_dim shape)))
          (\<lambda>row. usize_checked_mul row (unat (kp_element_bytes shape))))
        (Bounds ''transform row byte count overflows'')) (\<lambda>row_bytes.
      let pair_bytes = 2 * unat (kp_head_dim shape) * unat (kp_element_bytes shape) in
      Inr (fold (\<lambda>row. let row_start = row * row_bytes in
          fold (\<lambda>(slot, source). copy_slice plane pair_bytes (row_start + unat source * pair_bytes)
            (row_start + slot * pair_bytes)) (enumerate 0 order))
        [0..<unat (kp_tokens shape)] (replicate (length plane) 0)))))"

definition rope_moves :: "rope_direction \<Rightarrow> nat \<Rightarrow> nat \<Rightarrow> (nat \<times> nat) list" where
  "rope_moves direction half index =
     (case direction of
        NeoxToInterleaved \<Rightarrow> [(index, 2 * index), (index + half, 2 * index + 1)]
      | InterleavedToNeox \<Rightarrow> [(2 * index, index), (2 * index + 1, index + half)])"

definition rope_permute :: "rope_direction \<Rightarrow> u32 \<Rightarrow> kv_plane_shape \<Rightarrow> bytes \<Rightarrow> bytes result" where
  "rope_permute direction head_dim shape plane =
     (if head_dim \<noteq> kp_head_dim shape \<or> unat head_dim < 2 \<or> unat head_dim mod 2 \<noteq> 0
      then Inl (Bounds ''transform rope head dim does not match the declared plane shape'')
      else let element_bytes = unat (kp_element_bytes shape);
               head_bytes = unat head_dim * element_bytes;
               half = unat head_dim div 2 in
      Inr (fold (\<lambda>head. let base = head * head_bytes in
          fold (\<lambda>index. fold (\<lambda>(source, target).
              copy_slice plane element_bytes (base + source * element_bytes) (base + target * element_bytes))
            (rope_moves direction half index)) [0..<half])
        [0..<length plane div head_bytes] (replicate (length plane) 0)))"

fun apply_repack_op :: "repack_op \<Rightarrow> kv_plane_shape \<Rightarrow> bytes \<Rightarrow> bytes result" where
  "apply_repack_op op shape plane =
     rbind (op_validate op) (\<lambda>_.
     rbind (checked_plane shape plane) (\<lambda>_.
     case op of
       PermuteHeadPairs order \<Rightarrow> permute_head_pairs order shape plane
     | ReorderPlanes order \<Rightarrow> permute_slabs order plane
     | RegroupLayers order \<Rightarrow> permute_slabs order plane
     | PadOrTrim target_bytes \<Rightarrow>
         let target = unat target_bytes; kept = min (length plane) target in
         Inr (patch (replicate target 0) 0 (take kept plane))
     | DtypeCast _ _ _ \<Rightarrow>
         Inl (Semantics ''transform dtype-cast is not bit-exact; the executor rejects lossy casts'')
     | RopePermute direction head_dim \<Rightarrow> rope_permute direction head_dim shape plane))"

declare apply_repack_op.simps [simp del]

definition apply_transform :: "transform_descriptor \<Rightarrow> kv_plane_shape \<Rightarrow> bytes \<Rightarrow> bytes result" where
  "apply_transform descriptor shape plane =
     rbind (transform_validate descriptor) (\<lambda>_.
     try_fold (\<lambda>current op. apply_repack_op op shape current) plane (td_ops descriptor))"

definition invert :: "u32 list \<Rightarrow> u32 list" where
  "invert order = fold (\<lambda>(slot, source) inverse. inverse[unat source := of_nat slot])
     (enumerate 0 order) (replicate (length order) 0)"

fun inverse_repack_op :: "repack_op \<Rightarrow> repack_op option" where
  "inverse_repack_op (PermuteHeadPairs order) = Some (PermuteHeadPairs (invert order))"
| "inverse_repack_op (ReorderPlanes order) = Some (ReorderPlanes (invert order))"
| "inverse_repack_op (RegroupLayers order) = Some (RegroupLayers (invert order))"
| "inverse_repack_op (RopePermute direction head_dim) =
     Some (RopePermute (case direction of NeoxToInterleaved \<Rightarrow> InterleavedToNeox | InterleavedToNeox \<Rightarrow> NeoxToInterleaved)
       head_dim)"
| "inverse_repack_op (PadOrTrim target_bytes) = None"
| "inverse_repack_op (DtypeCast from_dtype to_dtype scale_id) = None"

section \<open>The codec\<close>

interpretation cast_enum: wire_enum cast_wire cast_from_wire
proof
  show "cast_from_wire (cast_wire e) = Inr e" for e
    by (cases e) (simp_all add: cast_from_wire_def)
qed (auto simp: cast_from_wire_def split: if_splits)

interpretation rope_enum: wire_enum rope_wire rope_from_wire
proof
  show "rope_from_wire (rope_wire e) = Inr e" for e
    by (cases e) (simp_all add: rope_from_wire_def)
qed (auto simp: rope_from_wire_def split: if_splits)

fun ok_op :: "repack_op \<Rightarrow> bool" where
  "ok_op (PermuteHeadPairs order) \<longleftrightarrow> length order < 2 ^ 16"
| "ok_op (ReorderPlanes order) \<longleftrightarrow> length order < 2 ^ 16"
| "ok_op (RegroupLayers order) \<longleftrightarrow> length order < 2 ^ 16"
| "ok_op (DtypeCast from_dtype to_dtype scale_id) \<longleftrightarrow> (\<forall>ident \<in> set_option scale_id. length ident = 32)"
| "ok_op _ \<longleftrightarrow> True"

lemma codes_permutation:
  assumes "length order < 2 ^ 16"
  shows "codes (enc_seq [enc_u16 (of_nat (length order)), enc_seq (map enc_u32 order)])
    (dbind decode_permutation (\<lambda>order. dret (f order))) (f order)"
proof -
  have n: "unat (of_nat (length order) :: u16) = length order" using assms by (simp add: unat_of_nat)
  have assoc: "dbind decode_permutation (\<lambda>order. dret (f order))
    = dbind dec_u16 (\<lambda>width. dbind (dec_times (unat width) dec_u32) (\<lambda>order. dret (f order)))"
    by (auto simp: decode_permutation_def dbind_def fun_eq_iff rbind_assoc split: prod.splits intro!: arg_cong2 [where f = rbind])
  show ?thesis
    unfolding assoc by (intro codes_then u32_codec.round_list_then) (simp_all add: n list_all_iff)
qed

lemma spec_permutation:
  "(\<And>order bs. length order < 2 ^ 16 \<Longrightarrow>
      emits (enc_seq [enc_u16 (of_nat (length order)), enc_seq (map enc_u32 order)]) bs \<Longrightarrow> R (f order) bs)
   \<Longrightarrow> get_spec (dbind decode_permutation (\<lambda>order. dret (f order))) R"
proof (rule get_spec_bind [where P = "\<lambda>order bs. length order < 2 ^ 16 \<and>
      emits (enc_seq [enc_u16 (of_nat (length order)), enc_seq (map enc_u32 order)]) bs"])
  have "length order < 2 ^ 16 \<and> emits (enc_seq [enc_u16 (of_nat (length order)), enc_seq (map enc_u32 order)]) (to_le_bytes width @ bs)"
    if "length order = unat width \<and> list_all (\<lambda>_. True) order \<and> emits (enc_seq (map enc_u32 order)) bs" for order bs and width :: u16
    using that unat_bound [of width] emits_Cons [OF _ emits_Cons [OF _ emits_Nil], of "enc_u16 width" "to_le_bytes width" "enc_seq (map enc_u32 order)" bs]
    by simp
  then show "get_spec decode_permutation (\<lambda>order bs. length order < 2 ^ 16 \<and>
      emits (enc_seq [enc_u16 (of_nat (length order)), enc_seq (map enc_u32 order)]) bs)"
    unfolding decode_permutation_def by (intro get_spec_prims_then get_spec_mono [OF u32_codec.canon_list]) blast
qed (auto intro!: get_spec_dret)

interpretation op_codec: wire_codec op_encode op_decode ok_op
proof
  fix op
  assume ok: "ok_op op"
  note steps = codes_prims_then codes_id_then cast_enum.round_then rope_enum.round_then codes_permutation codes_dret
  show "codes (op_encode op) op_decode op"
  proof (cases op)
    case (DtypeCast a b s)
    then show ?thesis
      using ok unfolding op_decode_def
      by (cases s; simp; intro steps; simp; intro steps; simp add: steps)
  qed (use ok in \<open>simp add: op_decode_def encode_permutation_def; intro steps; simp add: steps\<close>)+
next
  show "get_spec op_decode (\<lambda>op bs. ok_op op \<and> emits (op_encode op) bs)"
    unfolding op_decode_def
    by (intro spec_then spec_permutation cast_enum.canon_then rope_enum.canon_then)
      (auto simp: encode_permutation_def intro!: emits_steps simp del: append_Nil2)
qed

definition typed_transform :: "transform_descriptor \<Rightarrow> bool" where
  "typed_transform d \<longleftrightarrow> list_all (\<lambda>op. \<forall>a b ident. op = DtypeCast a b (Some ident) \<longrightarrow> length ident = 32) (td_ops d)"

definition ok_transform :: "transform_descriptor \<Rightarrow> bool" where
  "ok_transform d \<longleftrightarrow> transform_validate d = Inr () \<and> typed_transform d"

definition ok_body :: "transform_descriptor \<Rightarrow> bool" where
  "ok_body d \<longleftrightarrow> td_schema_version d = ucast TRANSFORM_VERSION \<and> ok_string (td_name d) \<and> ok_string (td_source_layout d)
     \<and> length (td_ops d) < 2 ^ 16 \<and> list_all ok_op (td_ops d)"

interpretation transform_codec: wire_codec transform_encode_body transform_decode_body ok_body
proof
  fix d
  assume ok: "ok_body d"
  have n: "unat (of_nat (length (td_ops d)) :: u16) = length (td_ops d)" using ok by (simp add: ok_body_def unat_of_nat)
  show "codes (transform_encode_body d) transform_decode_body d"
    unfolding transform_encode_body_def transform_decode_body_def
    by (intro codes_then string_codec.round_then op_codec.round_list_then) (use ok in \<open>simp_all add: ok_body_def n\<close>)
next
  show "get_spec transform_decode_body (\<lambda>d bs. ok_body d \<and> emits (transform_encode_body d) bs)"
    unfolding transform_decode_body_def
  proof (intro spec_then string_codec.canon_then op_codec.canon_list_then)
    fix version count :: u16 and name layout nb lb ops ob
    assume "\<not> version \<noteq> TRANSFORM_VERSION" "ok_string name" "emits (enc_string name) nb" "ok_string layout"
      "emits (enc_string layout) lb" "length ops = unat count" "list_all ok_op ops" "emits (enc_seq (map op_encode ops)) ob"
    then show "ok_body \<lparr>td_schema_version = ucast TRANSFORM_VERSION, td_name = name, td_source_layout = layout, td_ops = ops\<rparr>
      \<and> emits (transform_encode_body \<lparr>td_schema_version = ucast TRANSFORM_VERSION, td_name = name,
            td_source_layout = layout, td_ops = ops\<rparr>)
          (to_le_bytes version @ nb @ lb @ to_le_bytes count @ ob @ [])"
      using unat_bound [of count]
      by (auto simp: ok_body_def transform_encode_body_def intro!: emits_steps simp del: append_Nil2)
  qed
qed

lemma ascii_utf8: "is_ascii bs \<Longrightarrow> valid_utf8 bs"
  by (induction bs) (simp_all add: is_ascii_def)

lemma validate_permutation_length:
  "validate_permutation order = Inr () \<Longrightarrow> 0 < length order \<and> length order \<le> MAX_PERMUTATION_WIDTH"
  by (auto simp: validate_permutation_def if_Inl_eq_Inr)

lemma transform_validate_ok:
  assumes "transform_validate d = Inr ()"
  shows "td_schema_version d = ucast TRANSFORM_VERSION" "is_ascii (td_name d)" "length (td_name d) \<le> MAX_TRANSFORM_LABEL_BYTES"
    "is_ascii (td_source_layout d)" "length (td_source_layout d) \<le> MAX_TRANSFORM_LABEL_BYTES"
    "length (td_ops d) \<le> MAX_TRANSFORM_OPS" "\<forall>op \<in> set (td_ops d). op_validate op = Inr ()"
  using assms by (auto simp: transform_validate_def validate_label_def ok_iff)

lemma ok_transform_body: "ok_transform d \<Longrightarrow> ok_body d"
proof -
  assume ok: "ok_transform d"
  note v = transform_validate_ok [OF ok [unfolded ok_transform_def, THEN conjunct1]]
  have "ok_op op" if "op \<in> set (td_ops d)" for op
    using v(7) ok that validate_permutation_length
    by (cases op) (fastforce simp: ok_transform_def typed_transform_def list_all_iff wire_consts)+
  then show ?thesis
    using v ascii_utf8 by (auto simp: ok_body_def ok_string_def wire_consts list_all_iff)
qed

interpretation transform_object: canonical_object transform_encode transform_decode ok_transform "\<lambda>bs. length bs < 2 ^ 64"
proof
  have magic: "length TRANSFORM_MAGIC = 8" by (simp add: TRANSFORM_MAGIC_def)
  note object = transform_codec.object_decode_iff [OF magic]
  show "\<exists>bs. transform_encode d = Inr bs" if "ok_transform d" for d
    using transform_codec.object_encode_total [OF ok_transform_body [OF that]] that
    by (simp add: transform_encode_def ok_transform_def)
  show "transform_decode bs = Inr d" if "ok_transform d" "transform_encode d = Inr bs" "length bs < 2 ^ 64" for d bs
    using that object [of bs d] ok_transform_body by (simp add: transform_decode_def transform_encode_def ok_transform_def)
  show "ok_transform d \<and> transform_encode d = Inr bs \<and> length bs < 2 ^ 64" if "transform_decode bs = Inr d" for bs d
    using that object [of bs d]
    by (auto simp: transform_decode_def transform_encode_def ok_transform_def ok_iff ok_body_def typed_transform_def
        list_all_iff)
qed

section \<open>Permutations\<close>

definition is_permutation :: "u32 list \<Rightarrow> bool" where
  "is_permutation order \<longleftrightarrow> distinct order \<and> (\<forall>index \<in> set order. unat index < length order)"

lemma unat_same: "unat a = unat b \<longleftrightarrow> a = b"
  by (simp add: word_unat_eq_iff)

lemma permutation_fold:
  assumes "length seen = width"
  shows "(\<exists>seen'. try_fold (permutation_step width) seen order = Inr seen') \<longleftrightarrow>
    distinct order \<and> (\<forall>index \<in> set order. unat index < width \<and> \<not> seen ! unat index)"
  using assms
proof (induction order arbitrary: seen)
  case (Cons i order)
  have "(\<exists>seen'. try_fold (permutation_step width) seen (i # order) = Inr seen') \<longleftrightarrow>
    unat i < width \<and> \<not> seen ! unat i \<and> (\<exists>seen'. try_fold (permutation_step width) (seen[unat i := True]) order = Inr seen')"
    by (simp add: permutation_step_def)
  also have "\<dots> \<longleftrightarrow> unat i < width \<and> \<not> seen ! unat i \<and> distinct order
      \<and> (\<forall>j \<in> set order. unat j < width \<and> \<not> seen[unat i := True] ! unat j)"
    using Cons by simp
  also have "\<dots> \<longleftrightarrow> distinct (i # order) \<and> (\<forall>j \<in> set (i # order). unat j < width \<and> \<not> seen ! unat j)"
    using Cons.prems by (auto simp: nth_list_update unat_same split: if_splits)
  finally show ?case .
qed simp

lemma validate_permutation_iff:
  "validate_permutation order = Inr () \<longleftrightarrow> 0 < length order \<and> length order \<le> MAX_PERMUTATION_WIDTH \<and> is_permutation order"
proof -
  have "validate_permutation order = Inr () \<longleftrightarrow> 0 < length order \<and> length order \<le> MAX_PERMUTATION_WIDTH
    \<and> (\<exists>seen'. try_fold (permutation_step (length order)) (replicate (length order) False) order = Inr seen')"
    by (auto simp: validate_permutation_def ok_iff)
  then show ?thesis by (auto simp: permutation_fold is_permutation_def)
qed

lemma permutation_onto:
  assumes "is_permutation order"
  shows "(\<lambda>i. unat (order ! i)) ` {..<length order} = {..<length order}"
proof (rule card_subset_eq)
  have "inj_on (\<lambda>i. unat (order ! i)) {..<length order}"
    using assms by (auto simp: inj_on_def is_permutation_def nth_eq_iff_index_eq unat_same)
  then show "card ((\<lambda>i. unat (order ! i)) ` {..<length order}) = card {..<length order}" by (simp add: card_image)
qed (use assms in \<open>auto simp: is_permutation_def\<close>)

lemma invert_fold:
  fixes order acc :: "u32 list"
  assumes "distinct order" "\<forall>index \<in> set order. unat index < length acc"
  shows "let r = fold (\<lambda>(slot, source) inverse. inverse[unat source := of_nat slot]) (enumerate k order) acc in
    length r = length acc \<and> (\<forall>i < length order. r ! unat (order ! i) = of_nat (k + i))
    \<and> (\<forall>j. (\<forall>source \<in> set order. j \<noteq> unat source) \<longrightarrow> r ! j = acc ! j)"
  using assms
proof (induction order arbitrary: k acc)
  case (Cons x order)
  define r where "r = fold (\<lambda>(slot, source) inverse. inverse[unat source := of_nat slot]) (enumerate (Suc k) order) (acc[unat x := of_nat k])"
  from Cons.IH [of "acc[unat x := of_nat k]" "Suc k"] Cons.prems
  have r: "length r = length acc" "\<forall>i < length order. r ! unat (order ! i) = of_nat (Suc k + i)"
    "\<forall>j. (\<forall>source \<in> set order. j \<noteq> unat source) \<longrightarrow> r ! j = acc[unat x := of_nat k] ! j"
    by (simp_all add: Let_def r_def)
  have "\<forall>source \<in> set order. unat x \<noteq> unat source" using Cons.prems by (auto simp: unat_same)
  then have "r ! unat x = of_nat k" using r(3) Cons.prems by simp
  then have "\<forall>i < length (x # order). r ! unat ((x # order) ! i) = of_nat (k + i)"
    using r(2) by (auto simp: nth_Cons split: nat.split)
  then show ?case using r(1,3) by (simp add: Let_def flip: r_def)
qed simp

lemma invert_nth:
  assumes "is_permutation order"
  shows "length (invert order) = length order" "i < length order \<Longrightarrow> invert order ! unat (order ! i) = of_nat i"
  using assms invert_fold [of order "replicate (length order) 0" 0]
  by (simp_all add: is_permutation_def invert_def Let_def)

lemma invert_source:
  assumes "is_permutation order" "j < length order"
  obtains i where "i < length order" "j = unat (order ! i)" "invert order ! j = of_nat i"
proof -
  have "j \<in> (\<lambda>i. unat (order ! i)) ` {..<length order}" using permutation_onto [OF assms(1)] assms(2) by simp
  then obtain i where "i < length order" "j = unat (order ! i)" by auto
  then show ?thesis using that invert_nth(2) [OF assms(1)] by simp
qed

lemma invert_permutation:
  assumes "is_permutation order" "length order \<le> MAX_PERMUTATION_WIDTH"
  shows "is_permutation (invert order)" "i < length order \<Longrightarrow> unat (invert order ! unat (order ! i)) = i"
    "i < length order \<Longrightarrow> order ! unat (invert order ! i) = of_nat i"
proof -
  have small: "unat (of_nat i :: u32) = i" if "i < length order" for i
    using that assms(2) by (simp add: unat_of_nat wire_consts)
  show "unat (invert order ! unat (order ! i)) = i" if "i < length order" for i
    using invert_nth(2) [OF assms(1) that] small [OF that] by simp
  show "order ! unat (invert order ! i) = of_nat i" if "i < length order" for i
    using assms(1) that by (rule invert_source) (simp add: small)
  have "i = j" if i: "i < length order" and j: "j < length order" and eq: "invert order ! i = invert order ! j" for i j
  proof -
    obtain k where k: "k < length order" "i = unat (order ! k)" "invert order ! i = of_nat k"
      using assms(1) i by (rule invert_source)
    obtain l where l: "l < length order" "j = unat (order ! l)" "invert order ! j = of_nat l"
      using assms(1) j by (rule invert_source)
    have "k = l" using k(3) l(3) eq small [OF k(1)] small [OF l(1)] by metis
    then show ?thesis using k(2) l(2) by simp
  qed
  then have "distinct (invert order)"
    unfolding distinct_conv_nth invert_nth(1) [OF assms(1)] by blast
  moreover have "unat x < length order" if "x \<in> set (invert order)" for x
  proof -
    obtain j where j: "j < length order" "x = invert order ! j"
      using \<open>x \<in> set (invert order)\<close> invert_nth(1) [OF assms(1)] by (auto simp: in_set_conv_nth)
    obtain k where "k < length order" "j = unat (order ! k)" "invert order ! j = of_nat k" using assms(1) j(1) by (rule invert_source)
    then show ?thesis using small [of k] j(2) by simp
  qed
  ultimately show "is_permutation (invert order)" by (simp add: is_permutation_def invert_nth(1) [OF assms(1)])
qed

section \<open>Copying blocks\<close>

definition block :: "nat \<Rightarrow> bytes \<Rightarrow> nat \<Rightarrow> bytes" where
  "block w xs i = subslice xs (i * w) (i * w + w)"

definition copy_blocks :: "bytes \<Rightarrow> nat \<Rightarrow> (nat \<times> nat) list \<Rightarrow> bytes \<Rightarrow> bytes" where
  "copy_blocks plane w moves = fold (\<lambda>(source, target). copy_slice plane w (source * w) (target * w)) moves"

definition tiling :: "nat \<Rightarrow> (nat \<times> nat) list \<Rightarrow> bool" where
  "tiling n moves \<longleftrightarrow> distinct (map snd moves) \<and> snd ` set moves = {..<n} \<and> fst ` set moves \<subseteq> {..<n}"

lemma block_end: "i < n \<Longrightarrow> i * w + w \<le> n * (w :: nat)"
  using mult_le_mono1 [of "Suc i" n w] by simp

lemma blocks_eqI:
  assumes "length xs = n * w" "length ys = n * w" "\<And>i. i < n \<Longrightarrow> block w xs i = block w ys i"
  shows "xs = ys"
proof (rule nth_equalityI)
  fix k assume k: "k < length xs"
  then have w: "0 < w" using assms(1) by (cases w) simp_all
  have i: "k div w < n" using k assms(1) w by (simp add: less_mult_imp_div_less)
  have "k < k div w * w + w" using w by (metis div_mult_mod_eq mod_less_divisor nat_add_left_cancel_less)
  then have sl: "block w zs (k div w) ! (k mod w) = zs ! k" if "length zs = n * w" for zs
    unfolding block_def using nth_subslice [of "k div w * w" "k mod w" "k div w * w + w" zs] block_end [OF i, of w] that w
    by simp
  show "xs ! k = ys ! k" using sl [OF assms(1)] sl [OF assms(2)] assms(3) [OF i] by simp
qed (use assms in simp)

lemma copy_slice_nth:
  assumes "length out = length plane" "s + w \<le> length plane" "t + w \<le> length plane"
  shows "length (copy_slice plane w s t out) = length plane"
    "k < length plane \<Longrightarrow> copy_slice plane w s t out ! k = (if t \<le> k \<and> k < t + w then plane ! (s + (k - t)) else out ! k)"
proof -
  have len: "length (subslice plane s (s + w)) = w" using assms(2) by simp
  show "length (copy_slice plane w s t out) = length plane"
    using assms len by (simp add: copy_slice_def patch_def)
  show "copy_slice plane w s t out ! k = (if t \<le> k \<and> k < t + w then plane ! (s + (k - t)) else out ! k)" if "k < length plane"
    using assms len that nth_subslice [of s "k - t" "s + w" plane]
    by (auto simp: copy_slice_def patch_def nth_append min_def)
qed

lemma block_copy:
  assumes "length out = n * w" "length plane = n * w" "s < n" "t < n"
  shows "length (copy_slice plane w (s * w) (t * w) out) = n * w"
    "i < n \<Longrightarrow> block w (copy_slice plane w (s * w) (t * w) out) i = block w (if i = t then plane else out) (if i = t then s else i)"
proof -
  have out: "length out = length plane" using assms(1,2) by simp
  have ends: "s * w + w \<le> length plane" "t * w + w \<le> length plane" using block_end assms by simp_all
  note cp = copy_slice_nth [OF out ends]
  show len: "length (copy_slice plane w (s * w) (t * w) out) = n * w" using cp(1) assms(2) by simp
  show "block w (copy_slice plane w (s * w) (t * w) out) i = block w (if i = t then plane else out) (if i = t then s else i)"
    if i: "i < n"
  proof (rule nth_equalityI)
    have e: "i * w + w \<le> n * w" using i by (rule block_end)
    show "length (block w (copy_slice plane w (s * w) (t * w) out) i) = length (block w (if i = t then plane else out) (if i = t then s else i))"
      using len assms e ends by (simp add: block_def)
    fix k assume "k < length (block w (copy_slice plane w (s * w) (t * w) out) i)"
    then have k: "k < w" using len e by (simp add: block_def)
    have "\<not> (t * w \<le> i * w + k \<and> i * w + k < t * w + w)" if "i \<noteq> t"
      using that k block_end [of i t w] block_end [of t i w] by (cases "i < t") auto
    moreover have "block w (copy_slice plane w (s * w) (t * w) out) i ! k = copy_slice plane w (s * w) (t * w) out ! (i * w + k)"
      unfolding block_def by (rule nth_subslice) (use k e len in simp_all)
    ultimately show "block w (copy_slice plane w (s * w) (t * w) out) i ! k = block w (if i = t then plane else out) (if i = t then s else i) ! k"
      unfolding block_def using cp(2) [of "i * w + k"] nth_subslice [of "s * w" k "s * w + w" plane]
        nth_subslice [of "i * w" k "i * w + w" out] k e ends assms(1,2) by (cases "i = t") auto
  qed
qed

lemma copy_blocks_fold:
  assumes "length out = n * w" "length plane = n * w" "distinct (map snd moves)" "\<forall>(s, t) \<in> set moves. s < n \<and> t < n"
  shows "length (copy_blocks plane w moves out) = n * w \<and> (\<forall>(s, t) \<in> set moves. block w (copy_blocks plane w moves out) t = block w plane s)
    \<and> (\<forall>i < n. i \<notin> snd ` set moves \<longrightarrow> block w (copy_blocks plane w moves out) i = block w out i)"
  using assms(1,3,4)
proof (induction moves arbitrary: out)
  case (Cons m moves)
  obtain s t where m: "m = (s, t)" by (cases m)
  then have st: "s < n" "t < n" and t: "t \<notin> snd ` set moves" using Cons.prems by auto
  note cp = block_copy [OF Cons.prems(1) assms(2) st]
  have "length (copy_blocks plane w moves (copy_slice plane w (s * w) (t * w) out)) = n * w \<and>
      (\<forall>(a, b) \<in> set moves. block w (copy_blocks plane w moves (copy_slice plane w (s * w) (t * w) out)) b = block w plane a)
    \<and> (\<forall>i < n. i \<notin> snd ` set moves \<longrightarrow> block w (copy_blocks plane w moves (copy_slice plane w (s * w) (t * w) out)) i
        = block w (copy_slice plane w (s * w) (t * w) out) i)"
    by (rule Cons.IH [OF cp(1)]) (use Cons.prems in auto)
  then show ?case using cp(2) t st m by (auto simp: copy_blocks_def)
qed (simp add: copy_blocks_def)

lemma tiling_bounds: "tiling n moves \<Longrightarrow> (s, t) \<in> set moves \<Longrightarrow> s < n \<and> t < n"
  using imageI [of "(s, t)" "set moves" fst] imageI [of "(s, t)" "set moves" snd] by (auto simp: tiling_def)

lemma tiling_copied:
  assumes "tiling n moves" "length plane = n * w"
  shows "length (copy_blocks plane w moves (replicate (length plane) 0)) = n * w"
    "(s, t) \<in> set moves \<Longrightarrow> block w (copy_blocks plane w moves (replicate (length plane) 0)) t = block w plane s"
proof -
  have "\<forall>(s, t) \<in> set moves. s < n \<and> t < n" "distinct (map snd moves)"
    using tiling_bounds [OF assms(1)] assms(1) by (auto simp: tiling_def)
  note cp = copy_blocks_fold [OF _ assms(2) this(2,1), of "replicate (length plane) 0"]
  show "length (copy_blocks plane w moves (replicate (length plane) 0)) = n * w" using cp assms(2) by simp
  show "(s, t) \<in> set moves \<Longrightarrow> block w (copy_blocks plane w moves (replicate (length plane) 0)) t = block w plane s"
    using cp assms(2) by auto
qed

text \<open>Copying back along the reversed moves restores the plane.\<close>

lemma copy_blocks_inverse:
  assumes "tiling n moves" "tiling n back" "set back = prod.swap ` set moves" "length plane = n * w"
  shows "copy_blocks (copy_blocks plane w moves (replicate (length plane) 0)) w back (replicate (n * w) 0) = plane"
proof (rule blocks_eqI [where n = n and w = w])
  let ?mid = "copy_blocks plane w moves (replicate (length plane) 0)"
  have mid: "length ?mid = n * w" by (rule tiling_copied(1) [OF assms(1,4)])
  show "length (copy_blocks ?mid w back (replicate (n * w) 0)) = n * w" using tiling_copied(1) [OF assms(2) mid] mid by simp
  fix i assume "i < n"
  then have "i \<in> snd ` set back" using assms(2) by (simp add: tiling_def)
  then obtain j where j: "(j, i) \<in> set back" by auto
  then have "(i, j) \<in> set moves" using assms(3) by auto
  then show "block w (copy_blocks ?mid w back (replicate (n * w) 0)) i = block w plane i"
    using tiling_copied(2) [OF assms(2) mid j] tiling_copied(2) [OF assms(1,4)] mid by simp
qed (use assms in simp)

text \<open>A tiling of one row, repeated for every row.\<close>

definition rows :: "nat \<Rightarrow> nat \<Rightarrow> (nat \<times> nat) list \<Rightarrow> (nat \<times> nat) list" where
  "rows k m moves = concat (map (\<lambda>row. map (\<lambda>(s, t). (row * m + s, row * m + t)) moves) [0..<k])"

lemma rows_Suc: "rows (Suc k) m moves = rows k m moves @ map (\<lambda>(s, t). (k * m + s, k * m + t)) moves"
  by (simp add: rows_def)

lemma rows_set: "set (rows k m moves) = {(row * m + s, row * m + t) | row s t. row < k \<and> (s, t) \<in> set moves}"
  by (force simp: rows_def)

lemma tiling_rows: "tiling m moves \<Longrightarrow> tiling (k * m) (rows k m moves)"
proof (induction k)
  case 0
  then show ?case by (simp add: rows_def tiling_def)
next
  case (Suc k)
  let ?new = "map (\<lambda>(s, t). (k * m + s, k * m + t)) moves"
  have snd_new: "map snd ?new = map ((+) (k * m)) (map snd moves)" by (simp add: comp_def case_prod_beta)
  then have new: "distinct (map snd ?new)" "snd ` set ?new = {k * m..<Suc k * m}"
  proof -
    show "distinct (map snd ?new)" unfolding snd_new using Suc.prems by (simp add: tiling_def distinct_map del: map_map)
    have "snd ` set ?new = (+) (k * m) ` {..<m}" using Suc.prems snd_new by (metis image_set tiling_def)
    also have "\<dots> = {k * m..<Suc k * m}" using image_add_atLeastLessThan [of "k * m" 0 m] by (simp add: lessThan_atLeast0 add.commute)
    finally show "snd ` set ?new = {k * m..<Suc k * m}" .
  qed
  have old: "distinct (map snd (rows k m moves))" "snd ` set (rows k m moves) = {..<k * m}" "fst ` set (rows k m moves) \<subseteq> {..<k * m}"
    using Suc by (simp_all add: tiling_def)
  have "fst ` set ?new \<subseteq> {..<Suc k * m}" using Suc.prems by (fastforce simp: tiling_def)
  then show ?case
    unfolding tiling_def rows_Suc map_append distinct_append set_append image_Un set_map using new old by auto
qed

section \<open>Executors as copies\<close>

definition slab_moves :: "u32 list \<Rightarrow> (nat \<times> nat) list" where
  "slab_moves order = map (\<lambda>(slot, source). (unat source, slot)) (enumerate 0 order)"

definition head_moves :: "rope_direction \<Rightarrow> nat \<Rightarrow> (nat \<times> nat) list" where
  "head_moves direction half = concat (map (rope_moves direction half) [0..<half])"

lemma slab_moves_set: "set (slab_moves order) = {(unat (order ! i), i) | i. i < length order}"
  by (force simp: slab_moves_def enumerate_eq_zip set_zip)

lemma slab_tiling: "is_permutation order \<Longrightarrow> tiling (length order) (slab_moves order)"
proof -
  assume perm: "is_permutation order"
  have "map snd (slab_moves order) = map fst (enumerate 0 order)" by (simp add: slab_moves_def comp_def case_prod_beta)
  then have "map snd (slab_moves order) = [0..<length order]" by (simp add: enumerate_eq_zip)
  moreover from this have "snd ` set (slab_moves order) = {..<length order}" by (metis atLeast_upt image_set)
  moreover have "fst ` set (slab_moves order) \<subseteq> {..<length order}"
    using perm by (auto simp: slab_moves_set is_permutation_def)
  ultimately show ?thesis by (simp add: tiling_def)
qed

lemma slab_moves_invert:
  assumes "is_permutation order" "length order \<le> MAX_PERMUTATION_WIDTH"
  shows "set (slab_moves (invert order)) = prod.swap ` set (slab_moves order)"
proof (intro set_eqI iffI)
  fix x assume "x \<in> set (slab_moves (invert order))"
  then obtain j where j: "j < length order" "x = (unat (invert order ! j), j)"
    using invert_nth(1) [OF assms(1)] by (auto simp: slab_moves_set)
  obtain i where i: "i < length order" "j = unat (order ! i)" "invert order ! j = of_nat i"
    using assms(1) j(1) by (rule invert_source)
  have "x = prod.swap (unat (order ! i), i)" using invert_permutation(2) [OF assms i(1)] i(2) j(2) by simp
  then show "x \<in> prod.swap ` set (slab_moves order)" using i(1) by (auto simp: slab_moves_set)
next
  fix x assume "x \<in> prod.swap ` set (slab_moves order)"
  then obtain i where i: "i < length order" "x = (i, unat (order ! i))" by (auto simp: slab_moves_set)
  have "unat (order ! i) < length order" using assms(1) i(1) by (simp add: is_permutation_def)
  then show "x \<in> set (slab_moves (invert order))"
    using invert_permutation(2) [OF assms i(1)] i(2) invert_nth(1) [OF assms(1)] unfolding slab_moves_set by force
qed

lemma rope_targets:
  "map snd (concat (map (rope_moves NeoxToInterleaved half) [0..<k])) = [0..<2 * k]"
  "k \<le> half \<Longrightarrow> distinct (map snd (concat (map (rope_moves InterleavedToNeox half) [0..<k])))
     \<and> set (map snd (concat (map (rope_moves InterleavedToNeox half) [0..<k]))) = {..<k} \<union> {half..<half + k}"
proof -
  show "map snd (concat (map (rope_moves NeoxToInterleaved half) [0..<k])) = [0..<2 * k]"
    by (induction k) (simp_all add: rope_moves_def)
  show "distinct (map snd (concat (map (rope_moves InterleavedToNeox half) [0..<k])))
     \<and> set (map snd (concat (map (rope_moves InterleavedToNeox half) [0..<k]))) = {..<k} \<union> {half..<half + k}" if "k \<le> half"
    using that
  proof (induction k)
    case (Suc k)
    let ?old = "concat (map (rope_moves InterleavedToNeox half) [0..<k])"
    have IH: "distinct (map snd ?old)" "set (map snd ?old) = {..<k} \<union> {half..<half + k}" using Suc by (simp_all del: set_map)
    have new: "map snd (concat (map (rope_moves InterleavedToNeox half) [0..<Suc k])) = map snd ?old @ [k, k + half]"
      by (simp add: rope_moves_def)
    have "distinct (map snd ?old @ [k, k + half])" using IH Suc.prems by auto
    moreover have "set (map snd ?old @ [k, k + half]) = {..<Suc k} \<union> {half..<half + Suc k}"
      using IH(2) unfolding set_append by auto
    ultimately show ?case unfolding new by blast
  qed simp
qed

lemma head_tiling: "tiling (2 * half) (head_moves direction half)"
proof -
  have "fst ` set (head_moves direction half) \<subseteq> {..<2 * half}"
    by (cases direction) (auto simp: head_moves_def rope_moves_def)
  moreover have "distinct (map snd (head_moves direction half)) \<and> snd ` set (head_moves direction half) = {..<2 * half}"
  proof (cases direction)
    case NeoxToInterleaved
    then have t: "map snd (head_moves direction half) = [0..<2 * half]" using rope_targets(1) by (simp add: head_moves_def)
    then show ?thesis by (metis atLeast_upt distinct_upt image_set)
  next
    case InterleavedToNeox
    then show ?thesis using rope_targets(2) [of half half] unfolding head_moves_def image_set [symmetric] by auto
  qed
  ultimately show ?thesis by (simp add: tiling_def)
qed

lemma fold_concat_map: "fold (\<lambda>i. fold f (g i)) xs = fold f (concat (map g xs))"
  by (induction xs) simp_all

lemma fold_rows:
  "fold (\<lambda>row. fold (\<lambda>(s, t). copy_slice plane w (row * (m * w) + s * w) (row * (m * w) + t * w)) moves) [0..<k]
   = copy_blocks plane w (rows k m moves)"
  unfolding fold_concat_map [of _ "\<lambda>_. moves"] copy_blocks_def rows_def fold_concat_map [symmetric] fold_map
  by (rule arg_cong [where f = "\<lambda>f. fold f _"]) (simp add: fun_eq_iff comp_def split_def add_mult_distrib mult.assoc)

lemma fold_slabs:
  "fold (\<lambda>(slot, source). h (unat source) slot) (enumerate 0 order) = fold (\<lambda>(s, t). h s t) (slab_moves order)"
  by (simp add: slab_moves_def fold_map comp_def split_def)

lemma permute_slabs_eq:
  assumes "validate_permutation order = Inr ()" "length plane = length order * slab"
  shows "permute_slabs order plane = Inr (copy_blocks plane slab (slab_moves order) (replicate (length plane) 0))"
proof -
  have "0 < length order" "length order \<le> MAX_PERMUTATION_WIDTH" using validate_permutation_length [OF assms(1)] by simp_all
  then show ?thesis
    using assms fold_slabs [of "\<lambda>s t. copy_slice plane slab (s * slab) (t * slab)" order]
    by (simp add: permute_slabs_def copy_blocks_def)
qed

lemma plane_bytes_ok:
  assumes "checked_plane shape plane = Inr e"
  shows "0 < unat (kp_tokens shape)" "0 < unat (kp_kv_heads shape)" "0 < unat (kp_head_dim shape)" "0 < unat (kp_element_bytes shape)"
    "length plane = unat (kp_tokens shape) * unat (kp_kv_heads shape) * unat (kp_head_dim shape) * unat (kp_element_bytes shape)"
    "length plane < 2 ^ 64"
  using assms by (auto simp: checked_plane_def plane_bytes_def ok_iff bind_eq_Some_conv unat_gt_0)

lemma checked_plane_length:
  "checked_plane shape plane = Inr e \<Longrightarrow> length plane' = length plane \<Longrightarrow> checked_plane shape plane' = Inr e"
  by (auto simp: checked_plane_def ok_iff)

lemma permute_head_pairs_eq:
  assumes "validate_permutation order = Inr ()" "checked_plane shape plane = Inr e" "unat (kp_kv_heads shape) = 2 * length order"
  shows "permute_head_pairs order shape plane = Inr (copy_blocks plane (2 * unat (kp_head_dim shape) * unat (kp_element_bytes shape))
    (rows (unat (kp_tokens shape)) (length order) (slab_moves order)) (replicate (length plane) 0))"
proof -
  note pb = plane_bytes_ok [OF assms(2)]
  let ?k = "unat (kp_kv_heads shape)" and ?h = "unat (kp_head_dim shape)" and ?e = "unat (kp_element_bytes shape)"
  let ?w = "2 * ?h * ?e"
  have "?k * ?h * ?e \<le> length plane" "?k * ?h \<le> length plane" using pb by simp_all
  then have row: "Option.bind (usize_checked_mul ?k ?h) (\<lambda>row. usize_checked_mul row ?e) = Some (?k * ?h * ?e)"
    using pb(6) by (simp add: usize_checked_mul_def)
  have rb: "?k * ?h * ?e = length order * ?w" using assms(3) by simp
  show ?thesis
    unfolding permute_head_pairs_def row rb fold_slabs fold_rows [symmetric]
    using assms(1,3) fold_slabs [of "\<lambda>s t. copy_slice plane ?w (row * (length order * ?w) + s * ?w) (row * (length order * ?w) + t * ?w)" order for row]
    by (simp add: Let_def)
qed

lemma rope_permute_eq:
  assumes "checked_plane shape plane = Inr e" "unat (kp_head_dim shape) = 2 * half" "0 < half"
  shows "rope_permute direction (kp_head_dim shape) shape plane = Inr (copy_blocks plane (unat (kp_element_bytes shape))
    (rows (unat (kp_tokens shape) * unat (kp_kv_heads shape)) (2 * half) (head_moves direction half)) (replicate (length plane) 0))"
proof -
  note pb = plane_bytes_ok [OF assms(1)]
  let ?e = "unat (kp_element_bytes shape)"
  have heads: "length plane div (2 * half * ?e) = unat (kp_tokens shape) * unat (kp_kv_heads shape)"
    using pb assms(2,3) by (simp add: mult.assoc)
  show ?thesis
    unfolding rope_permute_def fold_rows [symmetric] using assms(2,3) heads
    by (simp add: Let_def fold_concat_map head_moves_def)
qed

section \<open>Undoing a repack\<close>

lemma copies_back:
  assumes "tiling n moves" "tiling n back" "set back = prod.swap ` set moves" "length plane = n * w"
    and "out = copy_blocks plane w moves (replicate (length plane) 0)"
  shows "length out = length plane" "copy_blocks out w back (replicate (length out) 0) = plane"
  using copy_blocks_inverse [OF assms(1-4)] tiling_copied(1) [OF assms(1,4)] assms(4,5) by simp_all

lemma rows_swap: "set back = prod.swap ` set moves \<Longrightarrow> set (rows k m back) = prod.swap ` set (rows k m moves)"
  by (force simp: rows_set)

lemma invert_valid:
  assumes "validate_permutation order = Inr ()"
  shows "validate_permutation (invert order) = Inr ()" "length (invert order) = length order"
    "tiling (length order) (slab_moves order)" "tiling (length order) (slab_moves (invert order))"
    "set (slab_moves (invert order)) = prod.swap ` set (slab_moves order)"
proof -
  have p: "is_permutation order" "length order \<le> MAX_PERMUTATION_WIDTH" "0 < length order"
    using assms by (simp_all add: validate_permutation_iff)
  note i = invert_permutation(1) [OF p(1,2)] invert_nth(1) [OF p(1)]
  show "validate_permutation (invert order) = Inr ()" "length (invert order) = length order"
    using p i unfolding validate_permutation_iff by simp_all
  show "tiling (length order) (slab_moves order)" by (rule slab_tiling [OF p(1)])
  show "tiling (length order) (slab_moves (invert order))" using slab_tiling [OF i(1)] i(2) by simp
  show "set (slab_moves (invert order)) = prod.swap ` set (slab_moves order)" by (rule slab_moves_invert [OF p(1,2)])
qed

lemma permute_slabs_inverse:
  assumes "validate_permutation order = Inr ()" "permute_slabs order plane = Inr out"
  shows "length out = length plane" "permute_slabs (invert order) out = Inr plane"
proof -
  note iv = invert_valid [OF assms(1)]
  let ?slab = "length plane div length order"
  have len: "length plane = length order * ?slab" using assms(2) by (auto simp: permute_slabs_def ok_iff)
  have out: "out = copy_blocks plane ?slab (slab_moves order) (replicate (length plane) 0)"
    using assms(2) permute_slabs_eq [OF assms(1) len] by simp
  note undo = copies_back [OF iv(3,4,5) len out]
  show "length out = length plane" by (rule undo(1))
  then show "permute_slabs (invert order) out = Inr plane"
    using permute_slabs_eq [OF iv(1), of out ?slab] undo(2) len iv(2) by simp
qed

lemma permute_head_pairs_inverse:
  assumes "validate_permutation order = Inr ()" "checked_plane shape plane = Inr e" "permute_head_pairs order shape plane = Inr out"
  shows "length out = length plane" "permute_head_pairs (invert order) shape out = Inr plane"
proof -
  note iv = invert_valid [OF assms(1)] and pb = plane_bytes_ok [OF assms(2)]
  let ?w = "2 * unat (kp_head_dim shape) * unat (kp_element_bytes shape)"
  have heads: "unat (kp_kv_heads shape) = 2 * length order"
    using assms(3) by (auto simp: permute_head_pairs_def ok_iff)
  have len: "length plane = unat (kp_tokens shape) * length order * ?w" using pb(5) heads by simp
  have out: "out = copy_blocks plane ?w (rows (unat (kp_tokens shape)) (length order) (slab_moves order)) (replicate (length plane) 0)"
    using assms(3) permute_head_pairs_eq [OF assms(1,2) heads] by simp
  note undo = copies_back [OF tiling_rows [OF iv(3)] tiling_rows [OF iv(4)] rows_swap [OF iv(5)] len out]
  show "length out = length plane" by (rule undo(1))
  then show "permute_head_pairs (invert order) shape out = Inr plane"
    using permute_head_pairs_eq [OF iv(1) checked_plane_length [OF assms(2)], of out] undo(2) heads iv(2) by simp
qed

definition flip :: "rope_direction \<Rightarrow> rope_direction" where
  "flip direction = (case direction of NeoxToInterleaved \<Rightarrow> InterleavedToNeox | InterleavedToNeox \<Rightarrow> NeoxToInterleaved)"

lemma head_moves_flip: "set (head_moves (flip direction) half) = prod.swap ` set (head_moves direction half)"
  by (cases direction) (force simp: head_moves_def rope_moves_def flip_def)+

lemma rope_permute_inverse:
  assumes "checked_plane shape plane = Inr e" "rope_permute direction head_dim shape plane = Inr out"
  shows "length out = length plane" "rope_permute (flip direction) head_dim shape out = Inr plane"
proof -
  note pb = plane_bytes_ok [OF assms(1)]
  let ?half = "unat (kp_head_dim shape) div 2" and ?n = "unat (kp_tokens shape) * unat (kp_kv_heads shape)"
  have hd: "head_dim = kp_head_dim shape" "unat (kp_head_dim shape) = 2 * ?half" "0 < ?half"
    using assms(2) by (auto simp: rope_permute_def ok_iff)
  have len: "length plane = ?n * (2 * ?half) * unat (kp_element_bytes shape)" using pb(5) hd(2) by simp
  have out: "out = copy_blocks plane (unat (kp_element_bytes shape)) (rows ?n (2 * ?half) (head_moves direction ?half))
      (replicate (length plane) 0)"
    using assms(2) rope_permute_eq [OF assms(1) hd(2,3)] hd(1) by simp
  note undo = copies_back [OF tiling_rows [OF head_tiling] tiling_rows [OF head_tiling] rows_swap [OF head_moves_flip] len out]
  show "length out = length plane" by (rule undo(1))
  then show "rope_permute (flip direction) head_dim shape out = Inr plane"
    using rope_permute_eq [OF checked_plane_length [OF assms(1)] hd(2,3), of out] undo(2) hd(1) by simp
qed

lemma repack_inverse:
  assumes "apply_repack_op op shape plane = Inr out" "inverse_repack_op op = Some op'"
  shows "length out = length plane" "apply_repack_op op' shape out = Inr plane" "op_validate op' = Inr ()"
proof -
  obtain e where val: "op_validate op = Inr ()" and chk: "checked_plane shape plane = Inr e"
    using assms(1) by (auto simp: apply_repack_op.simps ok_iff)
  note run = assms(1) [unfolded apply_repack_op.simps val chk rbind_simps]
  have "length out = length plane \<and> apply_repack_op op' shape out = Inr plane \<and> op_validate op' = Inr ()"
  proof (cases op)
    case (PermuteHeadPairs order)
    then show ?thesis
      using permute_head_pairs_inverse [OF _ chk, of order out] invert_valid(1) [of order] run val assms(2)
        checked_plane_length [OF chk, of out] by (auto simp: apply_repack_op.simps)
  next
    case (ReorderPlanes order)
    then show ?thesis
      using permute_slabs_inverse [of order plane out] invert_valid(1) [of order] run val assms(2)
        checked_plane_length [OF chk, of out] by (auto simp: apply_repack_op.simps)
  next
    case (RegroupLayers order)
    then show ?thesis
      using permute_slabs_inverse [of order plane out] invert_valid(1) [of order] run val assms(2)
        checked_plane_length [OF chk, of out] by (auto simp: apply_repack_op.simps)
  next
    case (RopePermute direction head_dim)
    then have "op' = RopePermute (flip direction) head_dim" using assms(2) by (simp add: flip_def)
    then show ?thesis
      using RopePermute rope_permute_inverse [OF chk, of direction head_dim out] run val
        checked_plane_length [OF chk, of out] by (simp add: apply_repack_op.simps)
  qed (use assms(2) in simp_all)
  then show "length out = length plane" "apply_repack_op op' shape out = Inr plane" "op_validate op' = Inr ()" by simp_all
qed

lemma apply_ops_undo:
  assumes "try_fold (\<lambda>current op. apply_repack_op op shape current) plane ops = Inr out" "\<forall>op \<in> set ops. inverse_repack_op op \<noteq> None"
  shows "try_fold (\<lambda>current op. apply_repack_op op shape current) out (rev (map (the \<circ> inverse_repack_op) ops)) = Inr plane
    \<and> (\<forall>op \<in> set ops. op_validate (the (inverse_repack_op op)) = Inr ())"
  using assms
proof (induction ops arbitrary: plane)
  case (Cons op ops)
  obtain mid where mid: "apply_repack_op op shape plane = Inr mid"
    "try_fold (\<lambda>current op. apply_repack_op op shape current) mid ops = Inr out"
    using Cons.prems(1) by (auto simp: ok_iff)
  obtain op' where op': "inverse_repack_op op = Some op'" using Cons.prems(2) by auto
  show ?case
    using Cons.IH [OF mid(2)] Cons.prems(2) repack_inverse(2,3) [OF mid(1) op'] op' by (simp add: try_fold_append)
qed simp

section \<open>Properties\<close>

text \<open>Property C35.  Descriptor decoding accepts exactly the canonical encodings of valid descriptors and
  returns the descriptor that was encoded.\<close>

theorem transform_decode_iff:
  "transform_decode bs = Inr d \<longleftrightarrow> ok_transform d \<and> transform_encode d = Inr bs \<and> length bs < 2 ^ 64"
  by (rule transform_object.decode_iff)

text \<open>Property C24.  A transform made of invertible operations is exact: applying the inverse operations in
  reverse order to its result succeeds and restores every byte of the plane.\<close>

theorem transform_undo:
  assumes "apply_transform d shape plane = Inr out" and "\<forall>op \<in> set (td_ops d). inverse_repack_op op \<noteq> None"
  shows "apply_transform (d\<lparr>td_ops := rev (map (the \<circ> inverse_repack_op) (td_ops d))\<rparr>) shape out = Inr plane"
proof -
  have val: "transform_validate d = Inr ()" and run: "try_fold (\<lambda>current op. apply_repack_op op shape current) plane (td_ops d) = Inr out"
    using assms(1) by (auto simp: apply_transform_def ok_iff)
  note undo = apply_ops_undo [OF run assms(2)]
  have "transform_validate (d\<lparr>td_ops := rev (map (the \<circ> inverse_repack_op) (td_ops d))\<rparr>) = Inr ()"
    using val undo by (auto simp: transform_validate_def ok_iff)
  with undo show ?thesis by (simp add: apply_transform_def)
qed

definition sample_transform :: transform_descriptor where
  "sample_transform = \<lparr>td_schema_version = 1, td_name = [110], td_source_layout = [108],
     td_ops = [PermuteHeadPairs [1, 0], RopePermute NeoxToInterleaved 4, ReorderPlanes [1, 0]]\<rparr>"

definition sample_plane_shape :: kv_plane_shape where
  "sample_plane_shape = \<lparr>kp_tokens = 1, kp_kv_heads = 4, kp_head_dim = 4, kp_element_bytes = 1\<rparr>"

lemmas transform_steps = apply_transform_def transform_validate_def validate_label_def is_ascii_def validate_permutation_def
  permutation_step_def apply_repack_op.simps checked_plane_def plane_bytes_def usize_checked_mul_def permute_head_pairs_def
  permute_slabs_def rope_permute_def rope_moves_def copy_slice_def patch_def subslice_def TRANSFORM_VERSION_def

lemma sample_run:
  "apply_transform sample_transform sample_plane_shape [0, 1, 2, 3, 4, 5, 6, 7, 8, 9, 10, 11, 12, 13, 14, 15]
     = Inr [0, 2, 1, 3, 4, 6, 5, 7, 8, 10, 9, 11, 12, 14, 13, 15]"
proof -
  have upts: "[0..<2] = [0, 1 :: nat]" "[0..<4] = [0, 1, 2, 3 :: nat]" by code_simp+
  have "transform_validate sample_transform = Inr ()"
    by (simp add: sample_transform_def transform_steps wire_consts)
  moreover have "apply_repack_op (PermuteHeadPairs [1, 0]) sample_plane_shape [0, 1, 2, 3, 4, 5, 6, 7, 8, 9, 10, 11, 12, 13, 14, 15]
      = Inr [8, 9, 10, 11, 12, 13, 14, 15, 0, 1, 2, 3, 4, 5, 6, 7]"
    by (simp add: sample_plane_shape_def transform_steps wire_consts)
  moreover have "apply_repack_op (RopePermute NeoxToInterleaved 4) sample_plane_shape [8, 9, 10, 11, 12, 13, 14, 15, 0, 1, 2, 3, 4, 5, 6, 7]
      = Inr [8, 10, 9, 11, 12, 14, 13, 15, 0, 2, 1, 3, 4, 6, 5, 7]"
    by (simp add: sample_plane_shape_def transform_steps wire_consts upts)
  moreover have "permute_slabs [1, 0] [8, 10, 9, 11, 12, 14, 13, 15, 0, 2, 1, 3, 4, 6, 5, 7]
      = Inr [0, 2, 1, 3, 4, 6, 5, 7, 8, 10, 9, 11, 12, 14, 13, 15]"
    by (subst permute_slabs_eq [where slab = 8])
      (simp_all add: validate_permutation_def permutation_step_def wire_consts copy_blocks_def slab_moves_def copy_slice_def
        patch_def subslice_def)
  then have "apply_repack_op (ReorderPlanes [1, 0]) sample_plane_shape [8, 10, 9, 11, 12, 14, 13, 15, 0, 2, 1, 3, 4, 6, 5, 7]
      = Inr [0, 2, 1, 3, 4, 6, 5, 7, 8, 10, 9, 11, 12, 14, 13, 15]"
    by (simp add: apply_repack_op.simps validate_permutation_def permutation_step_def checked_plane_def plane_bytes_def
        usize_checked_mul_def sample_plane_shape_def wire_consts)
  ultimately show ?thesis by (simp add: apply_transform_def sample_transform_def)
qed

theorem transform_undo_witness:
  "apply_transform sample_transform sample_plane_shape [0, 1, 2, 3, 4, 5, 6, 7, 8, 9, 10, 11, 12, 13, 14, 15]
     = Inr [0, 2, 1, 3, 4, 6, 5, 7, 8, 10, 9, 11, 12, 14, 13, 15]
   \<and> apply_transform (sample_transform\<lparr>td_ops := [ReorderPlanes [1, 0], RopePermute InterleavedToNeox 4, PermuteHeadPairs [1, 0]]\<rparr>)
     sample_plane_shape [0, 2, 1, 3, 4, 6, 5, 7, 8, 10, 9, 11, 12, 14, 13, 15]
     = Inr [0, 1, 2, 3, 4, 5, 6, 7, 8, 9, 10, 11, 12, 13, 14, 15]"
proof -
  have inv: "\<forall>op \<in> set (td_ops sample_transform). inverse_repack_op op \<noteq> None" by (simp add: sample_transform_def)
  have "rev (map (the \<circ> inverse_repack_op) (td_ops sample_transform))
      = [ReorderPlanes [1, 0], RopePermute InterleavedToNeox 4, PermuteHeadPairs [1, 0]]"
    by (simp add: sample_transform_def invert_def)
  with transform_undo [OF sample_run inv] sample_run show ?thesis by simp
qed

lemma slab_placed:
  assumes "validate_permutation order = Inr ()" "permute_slabs order plane = Inr out" "slot < length order"
  shows "block (length plane div length order) out slot = block (length plane div length order) plane (unat (order ! slot))"
proof -
  have len: "length plane = length order * (length plane div length order)" using assms(2) by (auto simp: permute_slabs_def ok_iff)
  have "(unat (order ! slot), slot) \<in> set (slab_moves order)" using assms(3) by (auto simp: slab_moves_set)
  then show ?thesis
    using tiling_copied(2) [OF invert_valid(3) [OF assms(1)] len] assms(2) permute_slabs_eq [OF assms(1) len] by simp
qed

lemma pair_placed:
  assumes "validate_permutation order = Inr ()" "checked_plane shape plane = Inr e" "permute_head_pairs order shape plane = Inr out"
    and "row < unat (kp_tokens shape)" "slot < length order" "w = 2 * unat (kp_head_dim shape) * unat (kp_element_bytes shape)"
  shows "block w out (row * length order + slot) = block w plane (row * length order + unat (order ! slot))"
proof -
  have heads: "unat (kp_kv_heads shape) = 2 * length order" using assms(3) by (auto simp: permute_head_pairs_def ok_iff)
  have len: "length plane = unat (kp_tokens shape) * length order * w" using plane_bytes_ok(5) [OF assms(2)] heads assms(6) by simp
  have "(row * length order + unat (order ! slot), row * length order + slot) \<in> set (rows (unat (kp_tokens shape)) (length order) (slab_moves order))"
    unfolding rows_set slab_moves_set using assms(4,5) by blast
  then show ?thesis
    using tiling_copied(2) [OF tiling_rows [OF invert_valid(3) [OF assms(1)]] len] assms(3,6) permute_head_pairs_eq [OF assms(1,2) heads]
    by simp
qed

lemma rope_placed:
  assumes "checked_plane shape plane = Inr e" "rope_permute direction head_dim shape plane = Inr out"
    and "head < unat (kp_tokens shape) * unat (kp_kv_heads shape)" "i < unat head_dim div 2" "(s, t) \<in> set (rope_moves direction (unat head_dim div 2) i)"
  shows "block (unat (kp_element_bytes shape)) out (head * unat head_dim + t) = block (unat (kp_element_bytes shape)) plane (head * unat head_dim + s)"
proof -
  let ?half = "unat (kp_head_dim shape) div 2" and ?n = "unat (kp_tokens shape) * unat (kp_kv_heads shape)"
  have hd: "head_dim = kp_head_dim shape" "unat (kp_head_dim shape) = 2 * ?half" "0 < ?half"
    using assms(2) by (auto simp: rope_permute_def ok_iff)
  have len: "length plane = ?n * (2 * ?half) * unat (kp_element_bytes shape)" using plane_bytes_ok(5) [OF assms(1)] hd(2) by simp
  have "(s, t) \<in> set (head_moves direction ?half)" using assms(4,5) hd(1) by (auto simp: head_moves_def)
  then have "(head * (2 * ?half) + s, head * (2 * ?half) + t) \<in> set (rows ?n (2 * ?half) (head_moves direction ?half))"
    unfolding rows_set using assms(3) by blast
  note placed = tiling_copied(2) [OF tiling_rows [OF head_tiling] len this]
  have "out = copy_blocks plane (unat (kp_element_bytes shape)) (rows ?n (2 * ?half) (head_moves direction ?half)) (replicate (length plane) 0)"
    using assms(2) rope_permute_eq [OF assms(1) hd(2,3)] hd(1) by simp
  with placed show ?thesis using hd(1,2) by simp
qed

text \<open>Property C25.  What the three exact executors compute: slab, head pair and rotary element \<open>order ! slot\<close>
  of the source, within its row or head vector, is at slot \<open>slot\<close> of the result.\<close>

theorem repack_places_blocks:
  assumes "apply_repack_op op shape plane = Inr out" and "e = unat (kp_element_bytes shape)"
  shows "case op of
     PermuteHeadPairs order \<Rightarrow> \<forall>row < unat (kp_tokens shape). \<forall>slot < length order.
       let w = 2 * unat (kp_head_dim shape) * e in
       block w out (row * length order + slot) = block w plane (row * length order + unat (order ! slot))
   | ReorderPlanes order \<Rightarrow> \<forall>slot < length order.
       let w = length plane div length order in block w out slot = block w plane (unat (order ! slot))
   | RegroupLayers order \<Rightarrow> \<forall>slot < length order.
       let w = length plane div length order in block w out slot = block w plane (unat (order ! slot))
   | RopePermute NeoxToInterleaved head_dim \<Rightarrow>
       \<forall>head < unat (kp_tokens shape) * unat (kp_kv_heads shape). \<forall>i < unat head_dim div 2. let base = head * unat head_dim in
       block e out (base + 2 * i) = block e plane (base + i) \<and> block e out (base + (2 * i + 1)) = block e plane (base + (i + unat head_dim div 2))
   | RopePermute InterleavedToNeox head_dim \<Rightarrow>
       \<forall>head < unat (kp_tokens shape) * unat (kp_kv_heads shape). \<forall>i < unat head_dim div 2. let base = head * unat head_dim in
       block e out (base + i) = block e plane (base + 2 * i) \<and> block e out (base + (i + unat head_dim div 2)) = block e plane (base + (2 * i + 1))
   | PadOrTrim target \<Rightarrow> length out = unat target \<and> take (length plane) out = take (unat target) plane
       \<and> set (drop (length plane) out) \<subseteq> {0}
   | DtypeCast _ _ _ \<Rightarrow> False"
proof -
  obtain n where val: "op_validate op = Inr ()" and chk: "checked_plane shape plane = Inr n"
    using assms(1) by (auto simp: apply_repack_op.simps ok_iff)
  note run = assms(1) [unfolded apply_repack_op.simps val chk rbind_simps]
  show ?thesis
  proof (cases op)
    case (PermuteHeadPairs order)
    then show ?thesis using val run pair_placed [OF _ chk, of order out] assms(2) by simp
  next
    case (ReorderPlanes order)
    then show ?thesis using val run slab_placed [of order plane out] by simp
  next
    case (RegroupLayers order)
    then show ?thesis using val run slab_placed [of order plane out] by simp
  next
    case (PadOrTrim target)
    then show ?thesis using run by (auto simp: Let_def patch_def min_def split: if_splits)
  next
    case (RopePermute direction head_dim)
    then show ?thesis
      using run rope_placed [OF chk, of direction head_dim out] assms(2)
      by (cases direction) (simp_all add: rope_moves_def Let_def del: add_Suc_right)
  qed (use run in simp)
qed

theorem repack_places_blocks_witness:
  "\<exists>out. apply_repack_op (PermuteHeadPairs [1, 0]) sample_plane_shape [0, 1, 2, 3, 4, 5, 6, 7, 8, 9, 10, 11, 12, 13, 14, 15] = Inr out
     \<and> block 8 out 0 = [8, 9, 10, 11, 12, 13, 14, 15]"
proof -
  have run: "apply_repack_op (PermuteHeadPairs [1, 0]) sample_plane_shape [0, 1, 2, 3, 4, 5, 6, 7, 8, 9, 10, 11, 12, 13, 14, 15]
      = Inr [8, 9, 10, 11, 12, 13, 14, 15, 0, 1, 2, 3, 4, 5, 6, 7]"
    by (simp add: sample_plane_shape_def transform_steps wire_consts)
  from repack_places_blocks [OF run refl] run show ?thesis
    by (simp add: sample_plane_shape_def block_def subslice_def)
qed

end
