(* ===== verification/Bit_Pack.thy ===== *)
theory Bit_Pack
  imports Half
begin

text \<open>
  The bit packing of quantized codes (\<^verbatim>\<open>BitReader\<close> and \<^verbatim>\<open>BitWriter\<close> of
  \<^verbatim>\<open>kvpack-core/src/quant.rs\<close>).  The reference definition is a number: codes of width \<open>b\<close> are the
  base-\<open>2 ^ b\<close> digits of one natural number, stored as little-endian bytes.  The writer and the
  reader, which shift and mask single bytes, are shown equivalent to it for the widths in use.
\<close>

section \<open>The code\<close>

record bit_reader =
  br_packed :: bytes
  br_bits :: u8
  br_cursor :: nat

definition reader_next :: "bit_reader \<Rightarrow> (u32 \<times> bit_reader) option" where
  "reader_next r =
     (let bit_offset = br_cursor r * unat (br_bits r);
          byte_offset = bit_offset div 8;
          shift = bit_offset mod 8;
          bitmask = push_bit (unat (br_bits r)) 1 - 1 :: u32 in
      if \<not> byte_offset < length (br_packed r) then None
      else let first = ucast (br_packed r ! byte_offset) :: u32; value = drop_bit shift first in
      if shift + unat (br_bits r) > 8 then
        if \<not> byte_offset + 1 < length (br_packed r) then None
        else let second = ucast (br_packed r ! (byte_offset + 1)) :: u32 in
          Some ((value OR push_bit (8 - shift) second) AND bitmask, r\<lparr>br_cursor := br_cursor r + 1\<rparr>)
      else Some (value AND bitmask, r\<lparr>br_cursor := br_cursor r + 1\<rparr>))"

record bit_writer =
  bw_packed :: bytes
  bw_bits :: u8
  bw_cursor :: nat

definition writer_push :: "u32 \<Rightarrow> bit_writer \<Rightarrow> bit_writer" where
  "writer_push code w =
     (let bit_offset = bw_cursor w * unat (bw_bits w);
          byte_offset = bit_offset div 8;
          shift = bit_offset mod 8;
          packed = (if byte_offset = length (bw_packed w) then bw_packed w @ [0] else bw_packed w);
          packed = packed[byte_offset := packed ! byte_offset OR ucast (push_bit shift code)];
          packed = (if shift + unat (bw_bits w) > 8 then packed @ [ucast (drop_bit (8 - shift) code)] else packed) in
      w\<lparr>bw_packed := packed, bw_cursor := bw_cursor w + 1\<rparr>)"

text \<open>Reading a run of codes and writing a run of codes.\<close>

fun read_codes :: "nat \<Rightarrow> bit_reader \<Rightarrow> u32 list option" where
  "read_codes 0 r = Some []"
| "read_codes (Suc n) r =
     (case reader_next r of None \<Rightarrow> None
      | Some (code, r') \<Rightarrow> map_option ((#) code) (read_codes n r'))"

definition write_codes :: "u8 \<Rightarrow> u32 list \<Rightarrow> bytes" where
  "write_codes bits cs = bw_packed (fold writer_push cs \<lparr>bw_packed = [], bw_bits = bits, bw_cursor = 0\<rparr>)"

section \<open>The reference\<close>

fun code_value :: "nat \<Rightarrow> nat list \<Rightarrow> nat" where
  "code_value b [] = 0"
| "code_value b (c # cs) = c + 2 ^ b * code_value b cs"

definition packed_size :: "nat \<Rightarrow> nat \<Rightarrow> nat" where
  "packed_size b n = div_ceil (n * b) 8"

definition byte_width :: "nat \<Rightarrow> bool" where
  "byte_width b \<longleftrightarrow> b = 2 \<or> b = 4"

lemma code_value_append: "code_value b (cs @ ds) = code_value b cs + 2 ^ (b * length cs) * code_value b ds"
  by (induction cs) (simp_all add: power_add algebra_simps)

lemma code_value_bound: "\<forall>c \<in> set cs. c < 2 ^ b \<Longrightarrow> code_value b cs < 2 ^ (b * length cs)"
proof (induction cs)
  case (Cons c cs)
  then have "c < 2 ^ b" "code_value b cs + 1 \<le> 2 ^ (b * length cs)" by simp_all
  then have "c + 2 ^ b * code_value b cs < 2 ^ b * (code_value b cs + 1)" by simp
  also have "\<dots> \<le> 2 ^ b * 2 ^ (b * length cs)"
    using \<open>code_value b cs + 1 \<le> _\<close> by (rule mult_le_mono2)
  finally show ?case by (simp add: power_add)
qed simp

lemma code_value_digit:
  "\<forall>c \<in> set cs. c < 2 ^ b \<Longrightarrow> i < length cs \<Longrightarrow> code_value b cs div 2 ^ (b * i) mod 2 ^ b = cs ! i"
proof (induction cs arbitrary: i)
  case (Cons c cs)
  show ?case
  proof (cases i)
    case 0
    then show ?thesis using Cons.prems by simp
  next
    case (Suc j)
    have "code_value b (c # cs) div 2 ^ (b * i) = code_value b (c # cs) div 2 ^ b div 2 ^ (b * j)"
      by (simp add: Suc power_add div_mult2_eq)
    also have "code_value b (c # cs) div 2 ^ b = code_value b cs" using Cons.prems by simp
    finally show ?thesis using Cons Suc by simp
  qed
qed simp

section \<open>Bytes of a number\<close>

lemma le_value_append: "le_value (xs @ ys) = le_value xs + 256 ^ length xs * le_value ys"
  by (induction xs) (simp_all add: algebra_simps)

lemma le_value_update:
  "i < length xs \<Longrightarrow> le_value (xs[i := y]) + unat (xs ! i) * 256 ^ i = le_value xs + unat y * 256 ^ i"
proof (induction xs arbitrary: i)
  case (Cons x xs)
  show ?case
  proof (cases i)
    case (Suc j)
    then show ?thesis using Cons.IH [of j] Cons.prems by (simp add: algebra_simps)
  qed simp
qed simp

lemma le_value_nth: "i < length xs \<Longrightarrow> unat (xs ! i) = le_value xs div 256 ^ i mod 256"
proof (induction xs arbitrary: i)
  case (Cons x xs)
  have x: "unat x < 256" using unat_bound [of x] by simp
  show ?case
  proof (cases i)
    case (Suc j)
    have "le_value (x # xs) div 256 ^ i = le_value (x # xs) div 256 div 256 ^ j" by (simp add: Suc div_mult2_eq)
    also have "le_value (x # xs) div 256 = le_value xs" using x by simp
    finally show ?thesis using Cons Suc by simp
  qed (use x in simp)
qed simp

lemma byte_width_shift:
  assumes "byte_width b"
  shows "i * b mod 8 + b \<le> 8" "0 < b" "b \<le> 8"
proof -
  have "i * b mod 8 + b \<le> 8"
  proof (cases "b = 2")
    case True
    then have "i * b mod 8 = 2 * (i mod 4)" using mult_mod_right [of 2 i 4] by (simp add: mult.commute)
    then show ?thesis using True by simp
  next
    case False
    then have "b = 4" using assms by (simp add: byte_width_def)
    then have "i * b mod 8 = 4 * (i mod 2)" using mult_mod_right [of 4 i 2] by (simp add: mult.commute)
    then show ?thesis using \<open>b = 4\<close> by simp
  qed
  then show "i * b mod 8 + b \<le> 8" .
qed (use assms in \<open>auto simp: byte_width_def\<close>)

lemma offset_power: "(256 :: nat) ^ (n div 8) * 2 ^ (n mod 8) = 2 ^ n"
proof -
  have "(256 :: nat) ^ (n div 8) = 2 ^ (8 * (n div 8))" by (simp add: power_mult)
  then show ?thesis by (simp flip: power_add)
qed

section \<open>Equivalence with the reference\<close>

lemma packed_size_at:
  assumes "s \<le> 8" "n * b = 8 * m + s"
  shows "packed_size b n = (if s = 0 then m else Suc m)"
proof (cases "s = 0")
  case False
  then have "(s + 7) div 8 = 1" using assms(1) by (intro div_nat_eqI) simp_all
  then show ?thesis using assms(2) False div_mult_self4 [of 8 "s + 7" m] by (simp add: packed_size_def div_ceil_def add.assoc)
qed (use assms in \<open>simp add: packed_size_def div_ceil_def\<close>)

lemma writer_step:
  assumes b: "byte_width b" "unat bits = b" and len: "length packed = packed_size b k" and val: "le_value packed = v" "v < 2 ^ (b * k)"
    and c: "unat code < 2 ^ b"
  obtains packed' where "writer_push code \<lparr>bw_packed = packed, bw_bits = bits, bw_cursor = k\<rparr>
      = \<lparr>bw_packed = packed', bw_bits = bits, bw_cursor = Suc k\<rparr>"
    "length packed' = packed_size b (Suc k)" "le_value packed' = v + 2 ^ (b * k) * unat code"
proof -
  let ?o = "k * b div 8" and ?s = "k * b mod 8"
  let ?grown = "if ?o = length packed then packed @ [0] else packed"
  let ?new = "?grown ! ?o OR ucast (push_bit ?s code)"
  note shift = byte_width_shift(1) [OF b(1), of k] byte_width_shift(2,3) [OF b(1)]
  have o: "?o \<le> length packed" "length packed \<le> Suc ?o" "?o = length packed \<longleftrightarrow> ?s = 0"
    "packed_size b (Suc k) = Suc ?o"
    using len packed_size_at [of ?s k b ?o] packed_size_at [of "?s + b" "Suc k" b ?o] shift by (simp_all split: if_splits)
  have grown: "?o < length ?grown" "length ?grown = Suc ?o" "le_value ?grown = v"
    using o val by (auto simp: le_value_append)
  have pw: "256 ^ ?o * 2 ^ ?s = (2 :: nat) ^ (b * k)" using offset_power [of "k * b"] by (simp add: mult.commute)
  have "v div 256 ^ ?o < 2 ^ ?s" using val(2) pw by (simp add: less_mult_imp_div_less mult.commute)
  moreover have "unat (?grown ! ?o) = v div 256 ^ ?o mod 256" using le_value_nth [OF grown(1)] grown(3) by simp
  moreover have "v div 256 ^ ?o mod 256 \<le> v div 256 ^ ?o" by (rule mod_less_eq_dividend)
  ultimately have x: "unat (?grown ! ?o) < 2 ^ ?s" by linarith
  have "unat code * 2 ^ ?s < 2 ^ b * 2 ^ ?s" using c by simp
  also have "\<dots> \<le> 2 ^ 8" using power_increasing [of "b + ?s" 8 "2 :: nat"] shift(1) by (simp add: power_add)
  finally have small: "unat code * 2 ^ ?s < 256" by simp
  have "unat (push_bit ?s code) = unat code * 2 ^ ?s" by (rule unat_push_bit_small) (use small in simp)
  then have y: "unat (ucast (push_bit ?s code) :: byte) = unat code * 2 ^ ?s"
    using small by (simp add: unsigned_ucast_eq take_bit_nat_eq_self)
  have new: "unat ?new = unat code * 2 ^ ?s + unat (?grown ! ?o)"
    using unat_or_fields [OF y x] by (simp add: or.commute)
  have "le_value (?grown[?o := ?new]) = v + unat code * 2 ^ ?s * 256 ^ ?o"
    using le_value_update [OF grown(1), of ?new] grown(3) new by (simp add: algebra_simps)
  also have "unat code * 2 ^ ?s * 256 ^ ?o = 2 ^ (b * k) * unat code" using pw by (simp add: algebra_simps)
  finally have "le_value (?grown[?o := ?new]) = v + 2 ^ (b * k) * unat code" .
  moreover have "writer_push code \<lparr>bw_packed = packed, bw_bits = bits, bw_cursor = k\<rparr>
      = \<lparr>bw_packed = ?grown[?o := ?new], bw_bits = bits, bw_cursor = Suc k\<rparr>"
    using shift(1) b(2) unfolding writer_push_def Let_def by simp
  ultimately show ?thesis using that [of "?grown[?o := ?new]"] grown(2) o(4) by simp
qed

lemma write_codes_value:
  assumes "byte_width (unat bits)" "\<forall>c \<in> set cs. unat c < 2 ^ unat bits"
  shows "length (write_codes bits cs) = packed_size (unat bits) (length cs)"
    "le_value (write_codes bits cs) = code_value (unat bits) (map unat cs)"
proof -
  have "\<exists>packed. fold writer_push cs \<lparr>bw_packed = [], bw_bits = bits, bw_cursor = 0\<rparr>
        = \<lparr>bw_packed = packed, bw_bits = bits, bw_cursor = length cs\<rparr>
      \<and> length packed = packed_size (unat bits) (length cs) \<and> le_value packed = code_value (unat bits) (map unat cs)"
    using assms(2)
  proof (induction cs rule: rev_induct)
    case Nil
    then show ?case by (simp add: packed_size_def div_ceil_def)
  next
    case (snoc c cs)
    then obtain packed where IH: "fold writer_push cs \<lparr>bw_packed = [], bw_bits = bits, bw_cursor = 0\<rparr>
        = \<lparr>bw_packed = packed, bw_bits = bits, bw_cursor = length cs\<rparr>"
      "length packed = packed_size (unat bits) (length cs)" "le_value packed = code_value (unat bits) (map unat cs)" by auto
    have "code_value (unat bits) (map unat cs) < 2 ^ (unat bits * length cs)"
      using code_value_bound [of "map unat cs" "unat bits"] snoc.prems by simp
    moreover have "unat c < 2 ^ unat bits" using snoc.prems by simp
    ultimately obtain packed' where "writer_push c \<lparr>bw_packed = packed, bw_bits = bits, bw_cursor = length cs\<rparr>
        = \<lparr>bw_packed = packed', bw_bits = bits, bw_cursor = Suc (length cs)\<rparr>"
      "length packed' = packed_size (unat bits) (Suc (length cs))"
      "le_value packed' = code_value (unat bits) (map unat cs) + 2 ^ (unat bits * length cs) * unat c"
      by (rule writer_step [OF assms(1) refl IH(2,3)])
    then show ?case using IH(1) by (simp add: code_value_append)
  qed
  then show "length (write_codes bits cs) = packed_size (unat bits) (length cs)"
    "le_value (write_codes bits cs) = code_value (unat bits) (map unat cs)"
    by (auto simp: write_codes_def)
qed

lemma reader_step:
  assumes "byte_width (unat bits)" "(i + 1) * unat bits \<le> 8 * length packed"
  shows "reader_next \<lparr>br_packed = packed, br_bits = bits, br_cursor = i\<rparr>
    = Some (of_nat (le_value packed div 2 ^ (unat bits * i) mod 2 ^ unat bits), \<lparr>br_packed = packed, br_bits = bits, br_cursor = Suc i\<rparr>)"
proof -
  let ?b = "unat bits" let ?o = "i * ?b div 8" and ?s = "i * ?b mod 8"
  note shift = byte_width_shift(1) [OF assms(1), of i] byte_width_shift(2,3) [OF assms(1)]
  have o: "?o < length packed" using assms(2) shift(2) by (simp add: less_mult_imp_div_less)
  have m: "push_bit ?b 1 - 1 = (mask ?b :: u32)" by (simp add: mask_eq_exp_minus_1 push_bit_of_1)
  have "unat (drop_bit ?s (ucast (packed ! ?o) :: u32) AND mask ?b) = le_value packed div 256 ^ ?o mod 256 div 2 ^ ?s mod 2 ^ ?b"
    using le_value_nth [OF o] by (simp add: unat_and_mask unat_drop_bit unsigned_ucast_eq take_bit_nat_eq_self unat_bound [where 'a = 8, simplified])
  also have "le_value packed div 256 ^ ?o mod 256 div 2 ^ ?s = le_value packed div 256 ^ ?o div 2 ^ ?s mod 2 ^ (8 - ?s)"
    using drop_bit_take_bit [of ?s 8 "le_value packed div 256 ^ ?o"] by (simp add: take_bit_eq_mod drop_bit_eq_div)
  also have "le_value packed div 256 ^ ?o div 2 ^ ?s = le_value packed div 2 ^ (?b * i)"
    using offset_power [of "i * ?b"] by (simp add: div_mult2_eq [symmetric] mult.commute)
  also have "le_value packed div 2 ^ (?b * i) mod 2 ^ (8 - ?s) mod 2 ^ ?b = le_value packed div 2 ^ (?b * i) mod 2 ^ ?b"
    by (rule mod_mod_cancel, rule le_imp_power_dvd) (use shift(1) in simp)
  finally have "drop_bit ?s (ucast (packed ! ?o) :: u32) AND mask ?b = of_nat (le_value packed div 2 ^ (?b * i) mod 2 ^ ?b)"
    by (metis of_nat_unat ucast_id)
  then show ?thesis using o shift(1) unfolding reader_next_def Let_def bit_reader.select_convs m by simp
qed

definition digit :: "nat \<Rightarrow> nat \<Rightarrow> nat \<Rightarrow> nat" where
  "digit b v i = v div 2 ^ (b * i) mod 2 ^ b"

lemma read_codes_value:
  assumes "byte_width (unat bits)" "(i + n) * unat bits \<le> 8 * length packed"
  shows "read_codes n \<lparr>br_packed = packed, br_bits = bits, br_cursor = i\<rparr>
    = Some (map (\<lambda>j. of_nat (digit (unat bits) (le_value packed) j)) [i..<i + n])"
  using assms(2)
proof (induction n arbitrary: i)
  case (Suc n)
  have "(i + 1) * unat bits \<le> (i + Suc n) * unat bits" by (rule mult_le_mono1) simp
  then have "(i + 1) * unat bits \<le> 8 * length packed" using Suc.prems by linarith
  from reader_step [OF assms(1) this] Suc.IH [of "Suc i"] Suc.prems
  show ?case by (simp add: digit_def upt_rec)
qed simp

lemma digits_value: "code_value b (map (digit b v) [0..<n]) = v mod 2 ^ (b * n)"
proof (induction n)
  case (Suc n)
  have "code_value b (map (digit b v) [0..<Suc n]) = v mod 2 ^ (b * n) + 2 ^ (b * n) * digit b v n"
    using Suc by (simp add: code_value_append)
  also have "\<dots> = v mod (2 ^ (b * n) * 2 ^ b)" by (simp add: digit_def mod_mult2_eq)
  finally show ?case by (simp add: power_add algebra_simps)
qed simp

lemma packed_size_ge: "n * b \<le> 8 * packed_size b n"
  unfolding packed_size_def div_ceil_def by linarith

text \<open>Reading back what was written.\<close>

lemma read_write:
  assumes "byte_width (unat bits)" "\<forall>c \<in> set cs. unat c < 2 ^ unat bits"
  shows "read_codes (length cs) \<lparr>br_packed = write_codes bits cs, br_bits = bits, br_cursor = 0\<rparr> = Some cs"
proof -
  note w = write_codes_value [OF assms]
  have "(0 + length cs) * unat bits \<le> 8 * length (write_codes bits cs)" using packed_size_ge w(1) by simp
  from read_codes_value [OF assms(1) this]
  have "read_codes (length cs) \<lparr>br_packed = write_codes bits cs, br_bits = bits, br_cursor = 0\<rparr>
      = Some (map (\<lambda>j. of_nat (digit (unat bits) (code_value (unat bits) (map unat cs)) j)) [0..<length cs])" using w(2) by simp
  also have "map (\<lambda>j. of_nat (digit (unat bits) (code_value (unat bits) (map unat cs)) j)) [0..<length cs] = cs"
  proof (rule nth_equalityI)
    fix j assume "j < length (map (\<lambda>j. of_nat (digit (unat bits) (code_value (unat bits) (map unat cs)) j) :: u32) [0..<length cs])"
    then have j: "j < length cs" by simp
    have "digit (unat bits) (code_value (unat bits) (map unat cs)) j = unat (cs ! j)"
      unfolding digit_def using code_value_digit [of "map unat cs" "unat bits" j] assms(2) j by simp
    then show "map (\<lambda>j. of_nat (digit (unat bits) (code_value (unat bits) (map unat cs)) j)) [0..<length cs] ! j = cs ! j"
      using j by simp
  qed simp
  finally show ?thesis .
qed

text \<open>Bytes without stray tail bits are what the writer makes of the codes read from them.\<close>

lemma write_read:
  assumes "byte_width (unat bits)" "length packed = packed_size (unat bits) n" "le_value packed < 2 ^ (unat bits * n)"
    and "read_codes n \<lparr>br_packed = packed, br_bits = bits, br_cursor = 0\<rparr> = Some cs"
  shows "write_codes bits cs = packed"
proof -
  let ?b = "unat bits"
  have "(0 + n) * ?b \<le> 8 * length packed" using packed_size_ge [of n ?b] assms(2) by simp
  from read_codes_value [OF assms(1) this] assms(4)
  have cs: "cs = map (\<lambda>j. of_nat (digit ?b (le_value packed) j)) [0..<n]" by simp
  have d: "digit ?b (le_value packed) j < 2 ^ ?b" for j by (simp add: digit_def)
  have "(2 :: nat) ^ ?b \<le> 2 ^ 8" using byte_width_shift(3) [OF assms(1)] by (intro power_increasing) simp_all
  then have un: "unat (of_nat (digit ?b (le_value packed) j) :: u32) = digit ?b (le_value packed) j" for j
    using d [of j] by (simp add: unat_of_nat)
  have len: "length cs = n" and bound: "\<forall>c \<in> set cs. unat c < 2 ^ ?b" and vals: "map unat cs = map (digit ?b (le_value packed)) [0..<n]"
    unfolding cs using un d by (simp_all add: comp_def)
  have "le_value (write_codes bits cs) = le_value packed"
    unfolding write_codes_value(2) [OF assms(1) bound] vals digits_value using assms(3) by simp
  moreover have "length (write_codes bits cs) = length packed" using write_codes_value(1) [OF assms(1) bound] len assms(2) by simp
  ultimately show ?thesis by (metis le_bytes_le_value)
qed

text \<open>Property C19.  The writer is equivalent to the reference: codes of two or four bits become the
  little-endian bytes of the number whose digits they are, in as few bytes as possible, and the reader
  returns exactly the codes written.\<close>

theorem bit_pack_reference:
  assumes "byte_width (unat bits)" and "\<forall>c \<in> set cs. unat c < 2 ^ unat bits"
  shows "write_codes bits cs = le_bytes (packed_size (unat bits) (length cs)) (code_value (unat bits) (map unat cs))
    \<and> read_codes (length cs) \<lparr>br_packed = write_codes bits cs, br_bits = bits, br_cursor = 0\<rparr> = Some cs"
  using write_codes_value [OF assms] read_write [OF assms] by (metis le_bytes_le_value)

theorem bit_pack_reference_witness:
  "write_codes 2 [1, 2, 3, 0, 2] = le_bytes 2 569
   \<and> read_codes 5 \<lparr>br_packed = write_codes 2 [1, 2, 3, 0, 2], br_bits = 2, br_cursor = 0\<rparr> = Some [1, 2, 3, 0, 2]"
proof -
  have hyps: "byte_width (unat (2 :: u8))" "\<forall>c \<in> set [1, 2, 3, 0, 2 :: u32]. unat c < 2 ^ unat (2 :: u8)"
    by (simp_all add: byte_width_def)
  have n: "length [1, 2, 3, 0, 2 :: u32] = 5" by simp
  from bit_pack_reference [OF hyps, unfolded n] show ?thesis
    by (auto simp: packed_size_def div_ceil_def)
qed

end
