(* ===== verification/Quant.thy ===== *)
theory Quant
  imports Bit_Pack Stats
begin

text \<open>
  The quantization codec (\<^verbatim>\<open>kvpack-core/src/quant.rs\<close>).  Arithmetic on \<^verbatim>\<open>f32\<close> values is exact integer
  arithmetic on multiples of \<open>2 ^ -149\<close> followed by one rounding to nearest, ties to even.
\<close>

section \<open>Binary32 arithmetic\<close>

definition f32_is_inf :: "u32 \<Rightarrow> bool" where
  "f32_is_inf x \<longleftrightarrow> f32_exp x = 255 \<and> f32_man x = 0"

definition F32_NAN :: u32 where "F32_NAN = 0x7fc00000"

definition F32_INF :: u32 where "F32_INF = 0x7f800000"

definition f32_signed :: "bool \<Rightarrow> u32 \<Rightarrow> u32" where
  "f32_signed negative x = (if negative then x OR 0x80000000 else x)"

definition f32_neg :: "u32 \<Rightarrow> u32" where
  "f32_neg x = x XOR 0x80000000"

text \<open>Rounding a fraction to the nearest integer, and a fraction of \<open>2 ^ -149\<close> to the nearest magnitude.\<close>

definition rne_div :: "nat \<Rightarrow> nat \<Rightarrow> nat" where
  "rne_div a d = (let q = a div d; r = a mod d in if 2 * r > d \<or> 2 * r = d \<and> odd q then Suc q else q)"

definition f32_of_frac :: "nat \<Rightarrow> nat \<Rightarrow> u32" where
  "f32_of_frac a d = (let b = bit_length (a div d); u = b - 24 in f32_of_mag (rne_div a (d * 2 ^ u) * 2 ^ u))"

definition f32_add :: "u32 \<Rightarrow> u32 \<Rightarrow> u32" where
  "f32_add a b =
     (if f32_is_nan a \<or> f32_is_nan b then F32_NAN
      else if f32_is_inf a then (if f32_is_inf b \<and> f32_sign a \<noteq> f32_sign b then F32_NAN else a)
      else if f32_is_inf b then b
      else let n = f32_num a + f32_num b in
      if n = 0 then f32_signed (f32_sign a = 1 \<and> f32_sign b = 1) 0
      else f32_signed (n < 0) (f32_of_frac (nat \<bar>n\<bar>) 1))"

definition f32_sub :: "u32 \<Rightarrow> u32 \<Rightarrow> u32" where
  "f32_sub a b = f32_add a (f32_neg b)"

definition f32_mul :: "u32 \<Rightarrow> u32 \<Rightarrow> u32" where
  "f32_mul a b =
     (let negative = (f32_sign a \<noteq> f32_sign b) in
      if f32_is_nan a \<or> f32_is_nan b \<or> f32_is_inf a \<and> f32_mag b = 0 \<or> f32_is_inf b \<and> f32_mag a = 0 then F32_NAN
      else if f32_is_inf a \<or> f32_is_inf b then f32_signed negative F32_INF
      else f32_signed negative (f32_of_frac (f32_mag a * f32_mag b) (2 ^ 149)))"

definition f32_div :: "u32 \<Rightarrow> u32 \<Rightarrow> u32" where
  "f32_div a b =
     (let negative = (f32_sign a \<noteq> f32_sign b) in
      if f32_is_nan a \<or> f32_is_nan b \<or> f32_is_inf a \<and> f32_is_inf b \<or> f32_mag a = 0 \<and> f32_mag b = 0 then F32_NAN
      else if f32_is_inf a \<or> f32_mag b = 0 then f32_signed negative F32_INF
      else if f32_is_inf b then f32_signed negative 0
      else f32_signed negative (f32_of_frac (f32_mag a * 2 ^ 149) (f32_mag b)))"

definition f32_of_nat :: "nat \<Rightarrow> u32" where
  "f32_of_nat n = f32_of_frac (n * 2 ^ 149) 1"

text \<open>\<^verbatim>\<open>f32::round\<close>, half away from zero, then \<^verbatim>\<open>as i64\<close>, which saturates and maps NaN to zero.\<close>

definition f32_round_i64 :: "u32 \<Rightarrow> int" where
  "f32_round_i64 x =
     (if f32_is_nan x then 0
      else let m = int ((f32_mag x + 2 ^ 148) div 2 ^ 149);
               v = (if f32_is_inf x then 2 ^ 63 else m) in
      if f32_sign x = 1 then max (- (2 ^ 63)) (- v) else min (2 ^ 63 - 1) v)"

section \<open>Tensors\<close>

definition MAX_QUANT_DIMENSION :: nat where [wire_consts]: "MAX_QUANT_DIMENSION = 1048576"
definition MAX_QUANT_ELEMENTS :: nat where [wire_consts]: "MAX_QUANT_ELEMENTS = 67108864"
definition MAX_QUANT_GROUP_SIZE :: nat where [wire_consts]: "MAX_QUANT_GROUP_SIZE = 1024"

datatype quant_axis = PerChannel | PerToken

primrec axis_magic :: "quant_axis \<Rightarrow> bytes" where
  "axis_magic PerChannel = QUANT_K_MAGIC"
| "axis_magic PerToken = QUANT_V_MAGIC"

definition axis_from_magic :: "bytes \<Rightarrow> quant_axis result" where
  "axis_from_magic magic =
     (if magic = QUANT_K_MAGIC then Inr PerChannel else if magic = QUANT_V_MAGIC then Inr PerToken
      else Inl (BadMagic ''invalid quantized tensor magic''))"

record quant_config =
  qc_bits :: u8
  qc_group_size :: u32

definition quant_config_new :: "u8 \<Rightarrow> u32 \<Rightarrow> quant_config result" where
  "quant_config_new bits group_size =
     (if bits \<noteq> 2 \<and> bits \<noteq> 4 then Inl (Codec ''quantization must use 2 or 4 bits'')
      else if group_size = 0 \<or> unat group_size > MAX_QUANT_GROUP_SIZE
      then Inl (Bounds ''quantization group size is outside bounds'')
      else Inr \<lparr>qc_bits = bits, qc_group_size = group_size\<rparr>)"

definition levels :: "quant_config \<Rightarrow> u32" where
  "levels c = push_bit (unat (qc_bits c)) 1"

definition error_bound :: "quant_config \<Rightarrow> u32 \<Rightarrow> u32 \<Rightarrow> u32" where
  "error_bound c rng zero_rounding =
     (let scale = f32_div rng (f32_of_nat (unat (levels c - 1))) in
      f32_add (f32_mul scale (f32_add 0x3f000000 0x3a000000)) zero_rounding)"

record quantized_tensor =
  qt_axis :: quant_axis
  qt_config :: quant_config
  qt_rows :: nat
  qt_cols :: nat
  qt_scales :: "(u16 \<times> u16) list"
  qt_packed :: bytes

definition groups_along :: "nat \<Rightarrow> u32 \<Rightarrow> nat" where
  "groups_along extent group_size = div_ceil extent (unat group_size)"

definition group_index :: "quantized_tensor \<Rightarrow> nat \<Rightarrow> nat \<Rightarrow> nat" where
  "group_index t row col =
     (let group_size = unat (qc_group_size (qt_config t)) in
      case qt_axis t of
        PerChannel \<Rightarrow> col * groups_along (qt_rows t) (qc_group_size (qt_config t)) + row div group_size
      | PerToken \<Rightarrow> row * groups_along (qt_cols t) (qc_group_size (qt_config t)) + col div group_size)"

definition packed_len :: "quantized_tensor \<Rightarrow> nat" where
  "packed_len t = div_ceil (qt_rows t * qt_cols t * unat (qc_bits (qt_config t))) 8"

definition tensor_reader :: "quantized_tensor \<Rightarrow> bit_reader" where
  "tensor_reader t = \<lparr>br_packed = qt_packed t, br_bits = qc_bits (qt_config t), br_cursor = 0\<rparr>"

text \<open>Row-major order of the elements.\<close>

definition cells :: "nat \<Rightarrow> nat \<Rightarrow> (nat \<times> nat) list" where
  "cells rows cols = concat (map (\<lambda>row. map (Pair row) [0..<cols]) [0..<rows])"

definition decode_cell :: "quantized_tensor \<Rightarrow> bit_reader \<times> u32 list \<Rightarrow> nat \<times> nat \<Rightarrow> (bit_reader \<times> u32 list) result" where
  "decode_cell t = (\<lambda>(reader, out) (row, col).
     rbind (ok_or (reader_next reader) (Truncated ''quantized tensor codes are truncated'')) (\<lambda>(code, reader').
     let (scale_bits, zero_bits) = qt_scales t ! group_index t row col;
         scale = f16_to_f32 scale_bits; zero = f16_to_f32 zero_bits in
     if code \<ge> levels (qt_config t) then Inl (Codec ''quantized tensor code exceeds the level count'')
     else Inr (reader', out @ [f32_add zero (f32_mul (f32_of_nat (unat code)) scale)])))"

definition tensor_decode :: "quantized_tensor \<Rightarrow> u32 list result" where
  "tensor_decode t =
     rbind (try_fold (decode_cell t) (tensor_reader t, []) (cells (qt_rows t) (qt_cols t))) (\<lambda>(_, out). Inr out)"

definition validate_dimensions :: "nat \<Rightarrow> nat \<Rightarrow> unit result" where
  "validate_dimensions rows cols =
     (if rows = 0 \<or> cols = 0 \<or> rows > MAX_QUANT_DIMENSION \<or> cols > MAX_QUANT_DIMENSION
        \<or> (case usize_checked_mul rows cols of None \<Rightarrow> True | Some elements \<Rightarrow> elements > MAX_QUANT_ELEMENTS)
      then Inl (Bounds ''quantized tensor dimensions are outside bounds'') else Inr ())"

definition check_code :: "quantized_tensor \<Rightarrow> bit_reader \<Rightarrow> nat \<Rightarrow> bit_reader result" where
  "check_code t reader _ =
     rbind (ok_or (reader_next reader) (Truncated ''quantized tensor codes are truncated'')) (\<lambda>(code, reader').
     if code \<ge> levels (qt_config t) then Inl (Codec ''quantized tensor code exceeds the level count'') else Inr reader')"

definition check_zero_scale :: "quantized_tensor \<Rightarrow> bit_reader \<Rightarrow> nat \<times> nat \<Rightarrow> bit_reader result" where
  "check_zero_scale t reader = (\<lambda>(row, col).
     rbind (ok_or (reader_next reader) (Truncated ''validated code count'')) (\<lambda>(code, reader').
     if f32_mag (f16_to_f32 (fst (qt_scales t ! group_index t row col))) = 0 \<and> code \<noteq> 0
     then Inl (Codec ''zero-scale quantization group carries a nonzero code'') else Inr reader'))"

definition validate_packing :: "quantized_tensor \<Rightarrow> unit result" where
  "validate_packing t =
     (let elements = qt_rows t * qt_cols t in
      rbind (try_fold (check_code t) (tensor_reader t) [0..<elements]) (\<lambda>_.
      let used_bits = elements * unat (qc_bits (qt_config t)) in
      if used_bits mod 8 \<noteq> 0 \<and> drop_bit (used_bits mod 8) (qt_packed t ! (length (qt_packed t) - 1)) \<noteq> 0
      then Inl (Reserved ''quantized tensor tail padding bits are nonzero'')
      else rbind (try_fold (check_zero_scale t) (tensor_reader t) (cells (qt_rows t) (qt_cols t))) (\<lambda>_. Inr ())))"

definition enc_scale :: "u16 \<times> u16 \<Rightarrow> put" where
  "enc_scale = (\<lambda>(scale, zero). enc_seq [enc_u16 scale, enc_u16 zero])"

definition dec_scale :: "(u16 \<times> u16) get" where
  "dec_scale =
     dbind dec_u16 (\<lambda>scale.
     dbind dec_u16 (\<lambda>zero.
     let scale_value = f16_to_f32 scale in
     if \<not> f32_is_finite scale_value \<or> f32_num scale_value < 0 \<or> \<not> f32_is_finite (f16_to_f32 zero)
     then dfail (Semantics ''quantized tensor scale or zero-point is invalid'') else dret (scale, zero)))"

definition tensor_encode_body :: "quantized_tensor \<Rightarrow> put" where
  "tensor_encode_body t = enc_seq
     [enc_u8 (qc_bits (qt_config t)), enc_u8 0, enc_u32 (qc_group_size (qt_config t)),
      enc_u64 (of_nat (qt_rows t)), enc_u64 (of_nat (qt_cols t)),
      enc_u64 (of_nat (length (qt_scales t))), enc_seq (map enc_scale (qt_scales t)),
      enc_u64 (of_nat (length (qt_packed t))), enc_bytes (qt_packed t)]"

definition tensor_encode_canonical :: "quantized_tensor \<Rightarrow> bytes result" where
  "tensor_encode_canonical t = enc_versioned (tensor_encode_body t) (enc_new (axis_magic (qt_axis t)))"

definition expected_groups :: "quant_axis \<Rightarrow> nat \<Rightarrow> nat \<Rightarrow> u32 \<Rightarrow> nat" where
  "expected_groups axis rows cols group_size =
     (case axis of PerChannel \<Rightarrow> cols * groups_along rows group_size | PerToken \<Rightarrow> rows * groups_along cols group_size)"

definition tensor_decode_body :: "quant_axis \<Rightarrow> quantized_tensor get" where
  "tensor_decode_body axis =
     dbind dec_u8 (\<lambda>bits.
     dbind dec_u8 (\<lambda>reserved.
     if reserved \<noteq> 0 then dfail (Reserved ''quantized tensor reserved byte is nonzero'')
     else dbind dec_u32 (\<lambda>group_size.
     dbind (dlift (quant_config_new bits group_size)) (\<lambda>config.
     dbind dec_u64 (\<lambda>rows.
     dbind dec_u64 (\<lambda>cols.
     dbind (dlift (validate_dimensions (unat rows) (unat cols))) (\<lambda>_.
     dbind dec_u64 (\<lambda>group_count.
     if unat group_count \<noteq> expected_groups axis (unat rows) (unat cols) group_size
     then dfail (Bounds ''quantized tensor group count does not match its shape'')
     else dbind (dec_times (unat group_count) dec_scale) (\<lambda>scales.
     dbind dec_u64 (\<lambda>packed_len.
     if unat packed_len \<noteq> div_ceil (unat rows * unat cols * unat bits) 8
     then dfail (Bounds ''quantized tensor packed length does not match its shape'')
     else dbind (dec_take (unat packed_len)) (\<lambda>packed.
     dret \<lparr>qt_axis = axis, qt_config = config, qt_rows = unat rows, qt_cols = unat cols, qt_scales = scales,
           qt_packed = packed\<rparr>)))))))))))"

definition tensor_decode_canonical :: "bytes \<Rightarrow> quantized_tensor result" where
  "tensor_decode_canonical bs =
     (if length bs < 8 then Inl (Truncated ''truncated quantized tensor'')
      else rbind (axis_from_magic (take 8 bs)) (\<lambda>axis.
      rbind (decode_object (axis_magic axis)
        (dec_versioned ''unsupported quantized tensor version'' ''quantized tensor reserved field is nonzero''
          (tensor_decode_body axis)) bs) (\<lambda>tensor.
      rbind (validate_packing tensor) (\<lambda>_.
      rbind (tensor_encode_canonical tensor) (\<lambda>encoded.
      if encoded \<noteq> bs then Inl (Reserved ''quantized tensor is not canonical'') else Inr tensor)))))"

section \<open>Quantization\<close>

definition group_codes :: "quant_config \<Rightarrow> (nat \<Rightarrow> u32) \<Rightarrow> nat \<Rightarrow> nat \<Rightarrow> (u16 \<times> u16) \<times> u32 list" where
  "group_codes config line_element start end =
     (let (lo, hi) = fold (\<lambda>offset (lo, hi). (f32_min lo (line_element offset), f32_max hi (line_element offset)))
            [start..<end] (0x7f800000, 0xff800000);
          rng = f32_sub hi lo;
          scale_bits = f32_to_f16 (f32_div rng (f32_of_nat (unat (levels config - 1))));
          zero_bits = f32_to_f16 lo;
          scale = f16_to_f32 scale_bits;
          zero = f16_to_f32 zero_bits;
          code = (\<lambda>offset. if f32_mag scale = 0 then 0
            else f32_round_i64 (f32_div (f32_sub (line_element offset) zero) scale)) in
      ((scale_bits, zero_bits),
       map (\<lambda>offset. of_int (min (max (code offset) 0) (int (unat (levels config - 1))))) [start..<end]))"

definition line_groups :: "quant_config \<Rightarrow> (nat \<Rightarrow> u32) \<Rightarrow> nat \<Rightarrow> nat \<Rightarrow> ((u16 \<times> u16) \<times> u32 list) list" where
  "line_groups config line_element extent groups =
     (let group_size = unat (qc_group_size config) in
      map (\<lambda>group. let start = group * group_size in
        group_codes config line_element start (min (start + group_size) extent)) [0..<groups])"

definition quantize :: "u32 list \<Rightarrow> nat \<Rightarrow> nat \<Rightarrow> quant_config \<Rightarrow> quant_axis \<Rightarrow> quantized_tensor result" where
  "quantize values rows cols config axis =
     rbind (validate_dimensions rows cols) (\<lambda>_.
     if length values \<noteq> rows * cols then Inl (Bounds ''quantization source does not match the declared shape'')
     else if list_ex (\<lambda>v. \<not> f32_is_finite v) values
     then Inl (Semantics ''quantization source contains a non-finite element'')
     else let extent = (case axis of PerChannel \<Rightarrow> rows | PerToken \<Rightarrow> cols);
              lines = (case axis of PerChannel \<Rightarrow> cols | PerToken \<Rightarrow> rows);
              groups = groups_along extent (qc_group_size config);
              line_element = (\<lambda>line offset. case axis of PerChannel \<Rightarrow> values ! (offset * cols + line)
                | PerToken \<Rightarrow> values ! (line * cols + offset));
              results = map (\<lambda>line. line_groups config (line_element line) extent groups) [0..<lines];
              scales = concat (map (map fst) results);
              line_codes = map (\<lambda>groups. concat (map snd groups)) results;
              ordered = map (\<lambda>(row, col). case axis of PerChannel \<Rightarrow> line_codes ! col ! row
                | PerToken \<Rightarrow> line_codes ! row ! col) (cells rows cols) in
     Inr \<lparr>qt_axis = axis, qt_config = config, qt_rows = rows, qt_cols = cols, qt_scales = scales,
          qt_packed = write_codes (qc_bits config) ordered\<rparr>)"

definition quantize_k_per_channel :: "u32 list \<Rightarrow> nat \<Rightarrow> nat \<Rightarrow> quant_config \<Rightarrow> quantized_tensor result" where
  "quantize_k_per_channel values tokens channels config = quantize values tokens channels config PerChannel"

definition quantize_v_per_token :: "u32 list \<Rightarrow> nat \<Rightarrow> nat \<Rightarrow> quant_config \<Rightarrow> quantized_tensor result" where
  "quantize_v_per_token values tokens channels config = quantize values tokens channels config PerToken"

section \<open>The codec\<close>

definition ok_scale :: "u16 \<times> u16 \<Rightarrow> bool" where
  "ok_scale = (\<lambda>(scale, zero). f32_is_finite (f16_to_f32 scale) \<and> 0 \<le> f32_num (f16_to_f32 scale) \<and> f32_is_finite (f16_to_f32 zero))"

definition ok_tensor_body :: "quant_axis \<Rightarrow> quantized_tensor \<Rightarrow> bool" where
  "ok_tensor_body axis t \<longleftrightarrow> qt_axis t = axis
     \<and> quant_config_new (qc_bits (qt_config t)) (qc_group_size (qt_config t)) = Inr (qt_config t)
     \<and> validate_dimensions (qt_rows t) (qt_cols t) = Inr ()
     \<and> length (qt_scales t) = expected_groups axis (qt_rows t) (qt_cols t) (qc_group_size (qt_config t))
     \<and> list_all ok_scale (qt_scales t) \<and> length (qt_packed t) = packed_len t"

definition ok_tensor :: "quantized_tensor \<Rightarrow> bool" where
  "ok_tensor t \<longleftrightarrow> ok_tensor_body (qt_axis t) t \<and> validate_packing t = Inr ()"

interpretation scale_codec: wire_codec enc_scale dec_scale ok_scale
proof
  show "ok_scale p \<Longrightarrow> codes (enc_scale p) dec_scale p" for p
    unfolding enc_scale_def dec_scale_def Let_def
    by (cases p) (auto simp: ok_scale_def intro!: codes_then)
next
  show "get_spec dec_scale (\<lambda>p bs. ok_scale p \<and> emits (enc_scale p) bs)"
    unfolding dec_scale_def Let_def
    by (intro spec_then) (auto simp: ok_scale_def enc_scale_def intro!: emits_steps simp del: append_Nil2)
qed

lemma dimensions_bounded:
  assumes "validate_dimensions rows cols = Inr ()"
  shows "0 < rows" "0 < cols" "rows \<le> MAX_QUANT_DIMENSION" "cols \<le> MAX_QUANT_DIMENSION" "rows * cols \<le> MAX_QUANT_ELEMENTS"
  using assms by (auto simp: validate_dimensions_def usize_checked_mul_def split: if_splits)

lemma groups_along_le: "0 < unat g \<Longrightarrow> groups_along n g \<le> n"
proof -
  assume g: "0 < unat g"
  have "n + unat g - 1 < Suc n * unat g" using g by (cases "unat g") simp_all
  then show ?thesis using less_mult_imp_div_less [of "n + unat g - 1" "Suc n" "unat g"] by (simp add: groups_along_def div_ceil_def)
qed

lemma tensor_bounds:
  assumes "ok_tensor_body axis t"
  shows "byte_width (unat (qc_bits (qt_config t)))" "0 < unat (qc_group_size (qt_config t))"
    "qt_rows t \<le> 1048576" "qt_cols t \<le> 1048576" "length (qt_scales t) \<le> 67108864" "length (qt_packed t) \<le> 67108864"
proof -
  have cfg: "qc_bits (qt_config t) = 2 \<or> qc_bits (qt_config t) = 4" "qc_group_size (qt_config t) \<noteq> 0"
    using assms by (auto simp: ok_tensor_body_def quant_config_new_def split: if_splits)
  then show bw: "byte_width (unat (qc_bits (qt_config t)))" and g: "0 < unat (qc_group_size (qt_config t))"
    by (auto simp: byte_width_def unat_gt_0)
  have d: "validate_dimensions (qt_rows t) (qt_cols t) = Inr ()" using assms by (simp add: ok_tensor_body_def)
  note dims = dimensions_bounded [OF d]
  show "qt_rows t \<le> 1048576" "qt_cols t \<le> 1048576" using dims by (simp_all add: wire_consts)
  have "expected_groups axis (qt_rows t) (qt_cols t) (qc_group_size (qt_config t)) \<le> qt_rows t * qt_cols t"
    using groups_along_le [OF g] by (cases axis) (simp_all add: expected_groups_def mult.commute [of "qt_rows t"] mult_le_mono2)
  then show "length (qt_scales t) \<le> 67108864" using assms dims(5) by (simp add: ok_tensor_body_def wire_consts)
  have "unat (qc_bits (qt_config t)) \<le> 8" using byte_width_shift(3) [OF bw] .
  then have "qt_rows t * qt_cols t * unat (qc_bits (qt_config t)) \<le> 67108864 * 8"
    using dims(5) by (intro mult_le_mono) (simp_all add: wire_consts)
  then show "length (qt_packed t) \<le> 67108864" using assms by (simp add: ok_tensor_body_def packed_len_def div_ceil_def)
qed

lemma tensor_counts:
  assumes "ok_tensor_body axis t"
  shows "unat (of_nat (qt_rows t) :: u64) = qt_rows t" "unat (of_nat (qt_cols t) :: u64) = qt_cols t"
    "unat (of_nat (length (qt_scales t)) :: u64) = length (qt_scales t)"
    "unat (of_nat (length (qt_packed t)) :: u64) = length (qt_packed t)"
  using tensor_bounds [OF assms] by (simp_all add: unat_of_nat)

lemma dbind_dlift: "m = Inr v \<Longrightarrow> dbind (dlift m) f = f v"
  by (simp add: dbind_def dlift_def fun_eq_iff)

lemma codes_lift_then: "m = Inr v \<Longrightarrow> codes e (f v) y \<Longrightarrow> codes e (dbind (dlift m) f) y"
  by (simp add: dbind_dlift)

lemma spec_lift_then: "(\<And>v. m = Inr v \<Longrightarrow> get_spec (f v) R) \<Longrightarrow> get_spec (dbind (dlift m) f) R"
proof (cases m)
  case (Inl e)
  then have "dbind (dlift m) f = dfail e" by (simp add: dbind_def dlift_def dfail_def fun_eq_iff)
  then show ?thesis by (simp add: get_spec_dfail)
next
  case (Inr v)
  then show "(\<And>v. m = Inr v \<Longrightarrow> get_spec (f v) R) \<Longrightarrow> get_spec (dbind (dlift m) f) R" by (simp add: dbind_dlift)
qed

interpretation tensor_codec: wire_codec tensor_encode_body "tensor_decode_body axis" "ok_tensor_body axis" for axis
proof
  fix t
  assume ok: "ok_tensor_body axis t"
  note n = tensor_counts [OF ok]
  show "codes (tensor_encode_body t) (tensor_decode_body axis) t"
    unfolding tensor_encode_body_def tensor_decode_body_def
    by (intro codes_then codes_lift_then scale_codec.round_list_then)
      (simp_all only: n, use ok in \<open>auto simp: ok_tensor_body_def packed_len_def\<close>)
next
  show "get_spec (tensor_decode_body axis) (\<lambda>t bs. ok_tensor_body axis t \<and> emits (tensor_encode_body t) bs)"
    unfolding tensor_decode_body_def
  proof (intro spec_then spec_lift_then scale_codec.canon_list_then get_spec_bind [OF get_spec_take])
    fix bits reserved :: u8 and group_size :: u32 and config and rows cols group_count packed_len :: u64 and u :: unit
      and scales and sb packed pb :: bytes
    assume h: "\<not> reserved \<noteq> 0" "quant_config_new bits group_size = Inr config"
      "validate_dimensions (unat (rows :: u64)) (unat (cols :: u64)) = Inr u"
      "\<not> unat group_count \<noteq> expected_groups axis (unat rows) (unat cols) group_size"
      "length scales = unat (group_count :: u64)" "list_all ok_scale scales" "emits (enc_seq (map enc_scale scales)) sb"
      "\<not> unat packed_len \<noteq> div_ceil (unat rows * unat cols * unat bits) 8"
      "length packed = unat (packed_len :: u64) \<and> pb = packed"
    have counts: "of_nat (expected_groups axis (unat rows) (unat cols) group_size) = group_count"
      "of_nat (div_ceil (unat rows * unat cols * unat bits) 8) = packed_len"
      using h(4,8) by (metis of_nat_unat ucast_id)+
    have "config = \<lparr>qc_bits = bits, qc_group_size = group_size\<rparr>" using h(2) by (auto simp: quant_config_new_def split: if_splits)
    then show "ok_tensor_body axis \<lparr>qt_axis = axis, qt_config = config, qt_rows = unat rows, qt_cols = unat cols,
        qt_scales = scales, qt_packed = packed\<rparr> \<and> emits (tensor_encode_body \<lparr>qt_axis = axis, qt_config = config,
        qt_rows = unat rows, qt_cols = unat cols, qt_scales = scales, qt_packed = packed\<rparr>)
        (bits # reserved # to_le_bytes group_size @ to_le_bytes rows @ to_le_bytes cols @ to_le_bytes group_count @ sb
          @ to_le_bytes packed_len @ pb @ [])"
      using h by (auto simp: counts ok_tensor_body_def Quant.packed_len_def tensor_encode_body_def intro!: emits_steps simp del: append_Nil2)
  qed
qed

lemma tensor_object_iff:
  "decode_object (axis_magic axis) (dec_versioned m1 m2 (tensor_decode_body axis)) bs = Inr t
   \<longleftrightarrow> ok_tensor_body axis t \<and> tensor_encode_canonical t = Inr bs \<and> length bs < 2 ^ 64"
proof -
  have "length (axis_magic axis) = 8" by (cases axis) simp_all
  from tensor_codec.versioned_decode_iff [OF this, of m1 m2 axis bs t] show ?thesis
    by (auto simp: tensor_encode_canonical_def ok_tensor_body_def)
qed

lemma encoded_magic:
  assumes "tensor_encode_canonical t = Inr bs"
  shows "8 \<le> length bs" "axis_from_magic (take 8 bs) = Inr (qt_axis t)"
proof -
  have "\<exists>rest. out' = out @ rest" if "enc_seq es out = Inr out'" "\<forall>e \<in> set es. \<forall>a b. e a = Inr b \<longrightarrow> (\<exists>r. b = a @ r)" for es out out'
    using that by (induction es arbitrary: out) (fastforce simp: enc_seq.simps rbind_eq_Inr)+
  note grows = this
  have prims: "\<exists>r. b = a @ r" if "e a = Inr b" "e \<in> {enc_u8 v, enc_u16 w, enc_u32 x, enc_u64 y, enc_bytes z}" for e a b v w x y z
    using that by (auto simp: enc_u8_def enc_u16_def enc_u32_def enc_u64_def enc_bytes_def)
  have "\<exists>r. b = a @ r" if "enc_seq (map enc_scale ss) a = Inr b" for ss a b
    by (rule grows [OF that]) (auto simp: enc_scale_def enc_seq.simps enc_u16_def split: prod.splits)
  then have "\<exists>r. b = a @ r" if "tensor_encode_body t a = Inr b" for a b
    using that unfolding tensor_encode_body_def by (elim grows) (auto simp: enc_u8_def enc_u16_def enc_u32_def enc_u64_def enc_bytes_def)
  then obtain rest where bs: "bs = axis_magic (qt_axis t) @ rest"
    using assms unfolding tensor_encode_canonical_def enc_versioned_def enc_new_def
    by (elim grows [THEN exE]) (auto simp: enc_u16_def)
  have "length (axis_magic (qt_axis t)) = 8" by (cases "qt_axis t") simp_all
  then show "8 \<le> length bs" "axis_from_magic (take 8 bs) = Inr (qt_axis t)"
    using bs by (cases "qt_axis t"; simp add: axis_from_magic_def QUANT_K_MAGIC_def QUANT_V_MAGIC_def ascii_def)+
qed

lemma tensor_decode_canonical_iff:
  "tensor_decode_canonical bs = Inr t \<longleftrightarrow> ok_tensor t \<and> tensor_encode_canonical t = Inr bs \<and> length bs < 2 ^ 64"
proof
  assume "tensor_decode_canonical bs = Inr t"
  then show "ok_tensor t \<and> tensor_encode_canonical t = Inr bs \<and> length bs < 2 ^ 64"
    by (auto simp: tensor_decode_canonical_def ok_iff tensor_object_iff ok_tensor_def ok_tensor_body_def)
next
  assume "ok_tensor t \<and> tensor_encode_canonical t = Inr bs \<and> length bs < 2 ^ 64"
  moreover from this have "8 \<le> length bs" "axis_from_magic (take 8 bs) = Inr (qt_axis t)" by (auto intro: encoded_magic)
  ultimately show "tensor_decode_canonical bs = Inr t"
    using tensor_object_iff [of "qt_axis t" _ _ bs t] by (simp add: tensor_decode_canonical_def ok_tensor_def)
qed

interpretation tensor_object: canonical_object tensor_encode_canonical tensor_decode_canonical ok_tensor "\<lambda>bs. length bs < 2 ^ 64"
proof
  show "\<exists>bs. tensor_encode_canonical t = Inr bs" if "ok_tensor t" for t
    using tensor_codec.versioned_encode_total [of "qt_axis t" t] that
    by (simp add: tensor_encode_canonical_def ok_tensor_def)
qed (auto simp: tensor_decode_canonical_iff)

section \<open>What quantization writes\<close>

lemma concat_uniform_nth:
  "\<forall>ys \<in> set xss. length ys = g \<Longrightarrow> i < length xss \<Longrightarrow> j < g \<Longrightarrow> concat xss ! (i * g + j) = xss ! i ! j"
proof (induction xss arbitrary: i)
  case (Cons xs xss)
  show ?case
  proof (cases i)
    case (Suc k)
    then show ?thesis using Cons by (simp add: nth_append add.assoc)
  qed (use Cons.prems in \<open>simp add: nth_append\<close>)
qed simp

lemma concat_uniform_length: "\<forall>ys \<in> set xss. length ys = g \<Longrightarrow> length (concat xss) = length xss * g"
  by (induction xss) simp_all

lemma cells_length [simp]: "length (cells rows cols) = rows * cols"
  using concat_uniform_length [of "map (\<lambda>row. map (Pair row) [0..<cols]) [0..<rows]" cols] by (simp add: cells_def)

lemma cells_set: "set (cells rows cols) = {..<rows} \<times> {..<cols}"
  by (auto simp: cells_def)

lemma group_chunks:
  assumes "0 < g"
  shows "concat (map (\<lambda>k. map (f k) [k * g..<min (k * g + g) e]) [0..<n]) = map (\<lambda>off. f (off div g) off) [0..<min (n * g) e]"
proof (induction n)
  case (Suc n)
  have group: "map (f n) [n * g..<min (n * g + g) e] = map (\<lambda>off. f (off div g) off) [n * g..<min (n * g + g) e]"
  proof (rule map_cong)
    fix off assume "off \<in> set [n * g..<min (n * g + g) e]"
    then have "off div g = n" using assms by (intro div_nat_eqI) (auto simp: mult.commute)
    then show "f n off = f (off div g) off" by simp
  qed simp
  show ?case
  proof (cases "n * g \<le> e")
    case True
    then have "[0..<min (Suc n * g) e] = [0..<n * g] @ [n * g..<min (n * g + g) e]"
      using upt_add_eq_append [of 0 "n * g" "min (n * g + g) e - n * g"] by (simp add: add.commute)
    then show ?thesis using Suc group True by (simp add: min_absorb1)
  next
    case False
    then show ?thesis using Suc by (simp add: min_def)
  qed
qed simp

definition cell_code :: "quant_config \<Rightarrow> (nat \<Rightarrow> u32) \<Rightarrow> u16 \<times> u16 \<Rightarrow> nat \<Rightarrow> u32" where
  "cell_code config line_element = (\<lambda>(scale_bits, zero_bits) offset.
     of_int (min (max (if f32_mag (f16_to_f32 scale_bits) = 0 then 0
       else f32_round_i64 (f32_div (f32_sub (line_element offset) (f16_to_f32 zero_bits)) (f16_to_f32 scale_bits))) 0)
       (int (unat (levels config - 1)))))"

lemma group_codes_eq:
  "group_codes config el start end = (fst (group_codes config el start end),
     map (cell_code config el (fst (group_codes config el start end))) [start..<end])"
  by (simp add: group_codes_def cell_code_def Let_def split: prod.splits)

lemma cell_code_bound: "0 < unat (levels config) \<Longrightarrow> cell_code config el sz off \<le> levels config - 1"
proof -
  let ?m = "levels config - 1"
  have b: "\<exists>k. k \<le> unat ?m \<and> cell_code config el sz off = of_nat k"
  proof -
    define v where "v = (case sz of (scale_bits, zero_bits) \<Rightarrow> min (max (if f32_mag (f16_to_f32 scale_bits) = 0 then 0
       else f32_round_i64 (f32_div (f32_sub (el off) (f16_to_f32 zero_bits)) (f16_to_f32 scale_bits))) 0) (int (unat ?m)))"
    have v: "0 \<le> v" "v \<le> int (unat ?m)" "cell_code config el sz off = of_int v"
      by (simp_all add: v_def cell_code_def split: prod.split)
    then show ?thesis using nat_mono [OF v(2)] by (intro exI [of _ "nat v"]) simp
  qed
  then obtain k where k: "k \<le> unat ?m" "cell_code config el sz off = of_nat k" by blast
  then have "unat (of_nat k :: u32) = k" using unat_bound [of ?m] by (simp add: unat_of_nat)
  then show ?thesis using k by (simp add: word_le_nat_alt)
qed

lemma cell_code_zero: "f32_mag (f16_to_f32 (fst sz)) = 0 \<Longrightarrow> cell_code config el sz off = 0"
  by (cases sz) (simp add: cell_code_def)

definition line_scales :: "quant_config \<Rightarrow> (nat \<Rightarrow> u32) \<Rightarrow> nat \<Rightarrow> nat \<Rightarrow> u16 \<times> u16" where
  "line_scales config el extent k = fst (group_codes config el (k * unat (qc_group_size config))
     (min (k * unat (qc_group_size config) + unat (qc_group_size config)) extent))"

lemma line_groups_parts:
  assumes "0 < unat (qc_group_size config)" "extent \<le> groups * unat (qc_group_size config)"
  shows "map fst (line_groups config el extent groups) = map (line_scales config el extent) [0..<groups]"
    "concat (map snd (line_groups config el extent groups))
       = map (\<lambda>off. cell_code config el (line_scales config el extent (off div unat (qc_group_size config))) off) [0..<extent]"
proof -
  let ?g = "unat (qc_group_size config)"
  show "map fst (line_groups config el extent groups) = map (line_scales config el extent) [0..<groups]"
    by (simp add: line_groups_def line_scales_def Let_def comp_def)
  have "map snd (line_groups config el extent groups)
      = map (\<lambda>k. map (cell_code config el (line_scales config el extent k)) [k * ?g..<min (k * ?g + ?g) extent]) [0..<groups]"
    unfolding line_groups_def line_scales_def Let_def map_map comp_def
    by (subst group_codes_eq) simp
  then show "concat (map snd (line_groups config el extent groups))
       = map (\<lambda>off. cell_code config el (line_scales config el extent (off div ?g)) off) [0..<extent]"
    using group_chunks [OF assms(1), of "\<lambda>k. cell_code config el (line_scales config el extent k)" extent groups] assms(2)
    by (simp add: min_absorb2)
qed

lemma groups_cover: "0 < unat g \<Longrightarrow> n \<le> groups_along n g * unat g"
proof -
  assume g: "0 < unat g"
  have "n + unat g - 1 = (n + unat g - 1) div unat g * unat g + (n + unat g - 1) mod unat g" by simp
  moreover have "(n + unat g - 1) mod unat g < unat g" using g by simp
  ultimately show ?thesis unfolding groups_along_def div_ceil_def using g by linarith
qed

lemma group_below: "0 < unat g \<Longrightarrow> i < n \<Longrightarrow> i div unat g < groups_along n g"
  using groups_cover [of g n] by (meson less_le_trans less_mult_imp_div_less)

lemma quantize_parts:
  assumes "quantize values rows cols config axis = Inr t"
    and "quant_config_new (qc_bits config) (qc_group_size config) = Inr config"
  obtains sc el where "qt_axis t = axis" "qt_config t = config" "qt_rows t = rows" "qt_cols t = cols"
    "validate_dimensions rows cols = Inr ()" "list_all f32_is_finite values" "length values = rows * cols"
    "length (qt_scales t) = expected_groups axis rows cols (qc_group_size config)"
    "\<forall>row < rows. \<forall>col < cols. qt_scales t ! group_index t row col = sc row col"
    "qt_packed t = write_codes (qc_bits config) (map (\<lambda>(row, col). cell_code config (el row col) (sc row col)
       (case axis of PerChannel \<Rightarrow> row | PerToken \<Rightarrow> col)) (cells rows cols))"
    "\<forall>sz \<in> set (qt_scales t). \<exists>el start end. start < end \<and> sz = fst (group_codes config el start end)
       \<and> (\<forall>off. start \<le> off \<and> off < end \<longrightarrow> el off \<in> set values)"
proof -
  let ?g = "unat (qc_group_size config)"
  have g: "0 < ?g" using assms(2) by (auto simp: quant_config_new_def unat_gt_0 split: if_splits)
  define extent where "extent = (case axis of PerChannel \<Rightarrow> rows | PerToken \<Rightarrow> cols)"
  define lines where "lines = (case axis of PerChannel \<Rightarrow> cols | PerToken \<Rightarrow> rows)"
  define groups where "groups = groups_along extent (qc_group_size config)"
  define el where "el = (\<lambda>line offset. case axis of PerChannel \<Rightarrow> values ! (offset * cols + line) | PerToken \<Rightarrow> values ! (line * cols + offset))"
  define sc where "sc = (\<lambda>line off. line_scales config (el line) extent (off div ?g))"
  have cover: "extent \<le> groups * ?g" unfolding groups_def by (rule groups_cover [OF g])
  note parts = line_groups_parts [OF g cover]
  have dims: "validate_dimensions rows cols = Inr ()" and fin: "list_all f32_is_finite values" and len: "length values = rows * cols"
    using assms(1) by (auto simp: quantize_def ok_iff list_ex_iff list_all_iff)
  note db = dimensions_bounded [OF dims]
  have "t = \<lparr>qt_axis = axis, qt_config = config, qt_rows = rows, qt_cols = cols,
      qt_scales = concat (map (\<lambda>line. map fst (line_groups config (el line) extent groups)) [0..<lines]),
      qt_packed = write_codes (qc_bits config) (map (\<lambda>(row, col). case axis of
          PerChannel \<Rightarrow> map (\<lambda>line. concat (map snd (line_groups config (el line) extent groups))) [0..<lines] ! col ! row
        | PerToken \<Rightarrow> map (\<lambda>line. concat (map snd (line_groups config (el line) extent groups))) [0..<lines] ! row ! col) (cells rows cols))\<rparr>"
    using assms(1) unfolding quantize_def Let_def extent_def [symmetric] lines_def [symmetric] groups_def [symmetric] el_def [symmetric]
      map_map comp_def by (auto simp: ok_iff)
  note t = this [unfolded parts]
  have el_in: "el line off \<in> set values" if "line < lines" "off < extent" for line off
  proof -
    have "r * cols + c < length values" if "r < rows" "c < cols" for r c
      using that len mult_le_mono1 [of "Suc r" rows cols] by simp
    then show ?thesis using that by (cases axis) (simp_all add: el_def lines_def extent_def)
  qed
  have scales: "qt_scales t = concat (map (\<lambda>line. map (line_scales config (el line) extent) [0..<groups]) [0..<lines])" using t by simp
  have slen: "length (qt_scales t) = lines * groups"
    unfolding scales using concat_uniform_length [of "map (\<lambda>line. map (line_scales config (el line) extent) [0..<groups]) [0..<lines]" groups] by simp
  have nth: "qt_scales t ! (line * groups + k) = line_scales config (el line) extent k" if "line < lines" "k < groups" for line k
    unfolding scales using concat_uniform_nth [of "map (\<lambda>line. map (line_scales config (el line) extent) [0..<groups]) [0..<lines]" groups line k] that by simp
  let ?line = "\<lambda>row col. case axis of PerChannel \<Rightarrow> col | PerToken \<Rightarrow> row"
  let ?off = "\<lambda>row col. case axis of PerChannel \<Rightarrow> row | PerToken \<Rightarrow> col"
  have at: "?line row col < lines" "?off row col < extent" "group_index t row col = ?line row col * groups + ?off row col div ?g"
    if "row < rows" "col < cols" for row col
    using that t by (cases axis; simp add: lines_def extent_def group_index_def groups_def Let_def)+
  show thesis
  proof (rule that [where sc = "\<lambda>row col. sc (?line row col) (?off row col)" and el = "\<lambda>row col. el (?line row col)"])
    show "qt_axis t = axis" "qt_config t = config" "qt_rows t = rows" "qt_cols t = cols" using t by simp_all
    show "length (qt_scales t) = expected_groups axis rows cols (qc_group_size config)"
      unfolding slen by (cases axis) (simp_all add: expected_groups_def lines_def groups_def extent_def)
    have "qt_scales t ! group_index t row col = sc (?line row col) (?off row col)" if "row < rows" "col < cols" for row col
      using nth [OF at(1) [OF that] group_below [OF g at(2) [OF that], folded groups_def]] at(3) [OF that] by (simp add: sc_def)
    then show "\<forall>row < rows. \<forall>col < cols. qt_scales t ! group_index t row col = sc (?line row col) (?off row col)" by blast
    have big: "map (\<lambda>(row, col). case axis of
          PerChannel \<Rightarrow> map (\<lambda>line. map (\<lambda>off. cell_code config (el line) (line_scales config (el line) extent (off div ?g)) off) [0..<extent]) [0..<lines] ! col ! row
        | PerToken \<Rightarrow> map (\<lambda>line. map (\<lambda>off. cell_code config (el line) (line_scales config (el line) extent (off div ?g)) off) [0..<extent]) [0..<lines] ! row ! col) (cells rows cols)
      = map (\<lambda>(row, col). cell_code config (el (?line row col)) (sc (?line row col) (?off row col)) (?off row col)) (cells rows cols)"
      by (rule map_cong) (cases axis; auto simp: cells_set lines_def extent_def sc_def)+
    show "qt_packed t = write_codes (qc_bits config) (map (\<lambda>(row, col). cell_code config (el (?line row col))
        (sc (?line row col) (?off row col)) (?off row col)) (cells rows cols))"
      by (rule trans [OF arg_cong [OF t, of qt_packed, unfolded quantized_tensor.select_convs]
            arg_cong [OF big, of "write_codes (qc_bits config)"]])
    show "\<forall>sz \<in> set (qt_scales t). \<exists>el start end. start < end \<and> sz = fst (group_codes config el start end)
       \<and> (\<forall>off. start \<le> off \<and> off < end \<longrightarrow> el off \<in> set values)"
    proof
      fix sz assume "sz \<in> set (qt_scales t)"
      then obtain line k where lk: "line < lines" "k < groups" "sz = line_scales config (el line) extent k" by (auto simp: scales)
      have "k * ?g < extent"
      proof (rule ccontr)
        assume "\<not> k * ?g < extent"
        then have "extent + ?g - 1 < Suc k * ?g" using g by simp
        then have "groups \<le> k" unfolding groups_def groups_along_def div_ceil_def using less_mult_imp_div_less by (metis less_Suc_eq_le)
        then show False using lk(2) by simp
      qed
      then show "\<exists>el start end. start < end \<and> sz = fst (group_codes config el start end)
         \<and> (\<forall>off. start \<le> off \<and> off < end \<longrightarrow> el off \<in> set values)"
        using lk g el_in [OF lk(1)] by (intro exI [of _ "el line"] exI [of _ "k * ?g"] exI [of _ "min (k * ?g + ?g) extent"])
          (simp add: line_scales_def)
    qed
  qed (use dims fin len in auto)
qed

lemma check_code_run:
  "read_codes (length xs) r = Some cs \<Longrightarrow>
   (\<exists>r'. try_fold (check_code t) r xs = Inr r') \<longleftrightarrow> (\<forall>c \<in> set cs. c < levels (qt_config t))"
proof (induction xs arbitrary: r cs)
  case (Cons x xs)
  then obtain c r' ds where "reader_next r = Some (c, r')" "read_codes (length xs) r' = Some ds" "cs = c # ds"
    by (auto split: option.splits)
  then show ?case using Cons.IH [of r' ds] by (auto simp: check_code_def not_le)
qed simp

lemma check_zero_run:
  "read_codes (length xs) r = Some cs \<Longrightarrow>
   (\<exists>r'. try_fold (check_zero_scale t) r xs = Inr r') \<longleftrightarrow>
     (\<forall>i < length xs. f32_mag (f16_to_f32 (fst (qt_scales t ! group_index t (fst (xs ! i)) (snd (xs ! i))))) = 0 \<longrightarrow> cs ! i = 0)"
proof (induction xs arbitrary: r cs)
  case (Cons x xs)
  then obtain c r' ds where "reader_next r = Some (c, r')" "read_codes (length xs) r' = Some ds" "cs = c # ds"
    by (auto split: option.splits)
  then show ?case
    using Cons.IH [of r' ds] by (cases x) (auto simp: check_zero_scale_def All_less_Suc2)
qed simp

lemma levels_value: "byte_width (unat (qc_bits config)) \<Longrightarrow> unat (levels config) = 2 ^ unat (qc_bits config)"
  by (auto simp: levels_def byte_width_def)

lemma tail_clear:
  assumes "byte_width b" "length packed = packed_size b n" "le_value packed < 2 ^ (b * n)" "n * b mod 8 \<noteq> 0"
  shows "drop_bit (n * b mod 8) (packed ! (length packed - 1)) = 0"
proof -
  let ?o = "n * b div 8" and ?s = "n * b mod 8"
  have "length packed = Suc ?o" using assms(2,4) packed_size_at [of ?s n b ?o] by simp
  then have last: "length packed - 1 = ?o" "?o < length packed" by simp_all
  have "unat (packed ! ?o) \<le> le_value packed div 256 ^ ?o" using le_value_nth [OF last(2)] by simp
  also have "le_value packed div 256 ^ ?o < 2 ^ ?s"
    using assms(3) offset_power [of "n * b"] by (simp add: less_mult_imp_div_less mult.commute)
  finally have "unat (drop_bit ?s (packed ! ?o)) = 0" by (simp add: unat_drop_bit)
  then show ?thesis using last(1) by (simp only: unat_eq_0)
qed

lemma quantize_packing:
  assumes "quantize values rows cols config axis = Inr t"
    and "quant_config_new (qc_bits config) (qc_group_size config) = Inr config"
  shows "validate_packing t = Inr ()" "length (qt_packed t) = packed_len t"
proof -
  obtain sc el where p: "qt_axis t = axis" "qt_config t = config" "qt_rows t = rows" "qt_cols t = cols"
    "\<forall>row < rows. \<forall>col < cols. qt_scales t ! group_index t row col = sc row col"
    "qt_packed t = write_codes (qc_bits config) (map (\<lambda>(row, col). cell_code config (el row col) (sc row col)
       (case axis of PerChannel \<Rightarrow> row | PerToken \<Rightarrow> col)) (cells rows cols))"
    using assms by (rule quantize_parts)
  let ?cs = "map (\<lambda>(row, col). cell_code config (el row col) (sc row col) (case axis of PerChannel \<Rightarrow> row | PerToken \<Rightarrow> col)) (cells rows cols)"
  have bw: "byte_width (unat (qc_bits config))" using assms(2) by (auto simp: quant_config_new_def byte_width_def split: if_splits)
  note lv = levels_value [OF bw]
  have lpos: "0 < unat (levels config)" using lv by simp
  have below: "c < levels config" if c: "c \<in> set ?cs" for c
  proof -
    obtain row col where "c = cell_code config (el row col) (sc row col) (case axis of PerChannel \<Rightarrow> row | PerToken \<Rightarrow> col)"
      using c by (auto simp: image_iff)
    then have "unat c \<le> unat (levels config - 1)" using cell_code_bound [OF lpos] by (simp add: word_le_nat_alt)
    also have "\<dots> < unat (levels config)" using lpos by (simp add: unat_minus_one unat_gt_0)
    finally show ?thesis by (simp add: word_less_nat_alt)
  qed
  then have bound: "\<forall>c \<in> set ?cs. unat c < 2 ^ unat (qc_bits config)" unfolding lv [symmetric] word_less_nat_alt [symmetric] by blast
  note rd = read_write [OF bw bound] and wr = write_codes_value [OF bw bound]
  have reads: "read_codes (rows * cols) (tensor_reader t) = Some ?cs"
    using rd p(2,6) by (simp add: tensor_reader_def)
  show len: "length (qt_packed t) = packed_len t" using wr(1) p by (simp add: packed_size_def packed_len_def)
  have "\<exists>r'. try_fold (check_code t) (tensor_reader t) [0..<rows * cols] = Inr r'"
    using check_code_run [of "[0..<rows * cols]" "tensor_reader t" ?cs t] reads below p(2) by simp
  moreover have "\<exists>r'. try_fold (check_zero_scale t) (tensor_reader t) (cells rows cols) = Inr r'"
  proof (subst check_zero_run)
    show "read_codes (length (cells rows cols)) (tensor_reader t) = Some ?cs" using reads by simp
    show "\<forall>i < length (cells rows cols). f32_mag (f16_to_f32 (fst (qt_scales t ! group_index t (fst (cells rows cols ! i)) (snd (cells rows cols ! i))))) = 0
        \<longrightarrow> ?cs ! i = 0"
    proof (intro allI impI)
      fix i assume i: "i < length (cells rows cols)"
        and z: "f32_mag (f16_to_f32 (fst (qt_scales t ! group_index t (fst (cells rows cols ! i)) (snd (cells rows cols ! i))))) = 0"
      obtain row col where rc: "cells rows cols ! i = (row, col)" by (cases "cells rows cols ! i")
      then have "row < rows" "col < cols" using nth_mem [OF i] by (auto simp: cells_set)
      then show "?cs ! i = 0" using z rc p(5) i by (simp add: cell_code_zero)
    qed
  qed
  moreover have "rows * cols * unat (qc_bits config) mod 8 \<noteq> 0 \<longrightarrow>
      drop_bit (rows * cols * unat (qc_bits config) mod 8) (qt_packed t ! (length (qt_packed t) - 1)) = 0"
    using tail_clear [OF bw, of "qt_packed t" "rows * cols"] wr p(6) code_value_bound [of "map unat ?cs" "unat (qc_bits config)"] bound
    by simp
  ultimately show "validate_packing t = Inr ()" using p(2-4) by (auto simp: validate_packing_def Let_def)
qed

section \<open>The scales\<close>

lemma f32_signed_fields:
  assumes "f32_sign x = 0"
  shows "f32_sign (f32_signed n x) = (if n then 1 else 0)" "f32_exp (f32_signed n x) = f32_exp x" "f32_man (f32_signed n x) = f32_man x"
proof -
  have "unat (f32_signed n x) = (if n then 1 else 0) * 2 ^ 31 + f32_exp x * 2 ^ 23 + f32_man x"
  proof (cases n)
    case True
    have "unat x < 2 ^ 31" using f32_fields [of x] assms by simp
    then have "unat (0x80000000 OR x) = 1 * 2 ^ 31 + unat x" by (intro unat_or_fields) simp_all
    then show ?thesis using True f32_fields(1) [of x] assms by (simp add: f32_signed_def or.commute [of x])
  qed (use f32_fields(1) [of x] assms in \<open>simp add: f32_signed_def\<close>)
  from f32_of_fields [OF this] f32_fields(3,4) [of x]
  show "f32_sign (f32_signed n x) = (if n then 1 else 0)" "f32_exp (f32_signed n x) = f32_exp x" "f32_man (f32_signed n x) = f32_man x"
    by simp_all
qed

lemma f32_zero [simp]: "f32_sign 0 = 0" "f32_mag 0 = 0" "\<not> f32_is_nan 0"
  by (simp_all add: f32_sign_def f32_mag_def f32_exp_def f32_man_def f32_is_nan_def)

lemma f32_of_frac_zero [simp]: "f32_of_frac 0 d = 0"
  by (simp add: f32_of_frac_def rne_div_def f32_of_mag_def Let_def) (simp add: bit_length.simps)

lemma f32_neg_fields: "f32_sign (f32_neg x) = 1 - f32_sign x" "f32_exp (f32_neg x) = f32_exp x" "f32_man (f32_neg x) = f32_man x"
proof -
  have lt: "f32_exp x * 2 ^ 23 + f32_man x < 2 ^ 31" using f32_fields(3,4) [of x] by simp
  have n: "unat (f32_neg x) = unat x XOR 2 ^ 31" by (simp add: f32_neg_def unsigned_xor_eq)
  have "drop_bit 31 (unat x XOR 2 ^ 31) = drop_bit 31 (unat x) XOR 1"
    unfolding drop_bit_xor by (simp add: drop_bit_eq_div)
  also have "drop_bit 31 (unat x) = f32_sign x" by (simp add: drop_bit_eq_div f32_sign_def)
  also have "f32_sign x XOR 1 = 1 - f32_sign x" using f32_fields(2) [of x] by (auto simp: less_2_cases_iff)
  finally have hi: "unat (f32_neg x) div 2 ^ 31 = 1 - f32_sign x" by (simp add: n drop_bit_eq_div)
  have "take_bit 31 (unat x XOR 2 ^ 31) = take_bit 31 (unat x)"
    unfolding take_bit_xor by (simp add: take_bit_eq_mod)
  then have "unat (f32_neg x) mod 2 ^ 31 = unat x mod 2 ^ 31" by (simp add: n take_bit_eq_mod)
  also have "\<dots> = f32_exp x * 2 ^ 23 + f32_man x" 
    by (subst f32_fields(1)) (simp only: add.assoc mod_mult_self3 mod_less [OF lt])
  finally have "unat (f32_neg x) = (1 - f32_sign x) * 2 ^ 31 + f32_exp x * 2 ^ 23 + f32_man x"
    using hi div_mult_mod_eq [of "unat (f32_neg x)" "2 ^ 31"] by simp
  from f32_of_fields [OF this] f32_fields(3,4) [of x]
  show "f32_sign (f32_neg x) = 1 - f32_sign x" "f32_exp (f32_neg x) = f32_exp x" "f32_man (f32_neg x) = f32_man x"
    by simp_all
qed

lemma f32_neg_num: "f32_num (f32_neg x) = - f32_num x"
  using f32_fields(2) [of x] by (auto simp: f32_num_def f32_mag_def f32_neg_fields less_2_cases_iff)

text \<open>A sign bit of one only on a zero.\<close>

definition f32_nonneg :: "u32 \<Rightarrow> bool" where
  "f32_nonneg x \<longleftrightarrow> f32_is_nan x \<or> f32_sign x = 0 \<or> f32_mag x = 0"

lemma mag_signed: "f32_sign x = 0 \<Longrightarrow> f32_mag (f32_signed n x) = f32_mag x"
  by (simp add: f32_mag_def f32_signed_fields)

lemma signed_frac:
  "\<not> f32_is_nan (f32_signed n (f32_of_frac a d))" "f32_sign (f32_signed n (f32_of_frac a d)) = (if n then 1 else 0)"
  "f32_mag (f32_signed n 0) = 0" "\<not> f32_is_nan (f32_signed n 0)"
proof -
  have "f32_sign (f32_of_frac a d) = 0" "\<not> f32_is_nan (f32_of_frac a d)"
    using f32_of_mag_positive by (simp_all add: f32_of_frac_def Let_def)
  then show "\<not> f32_is_nan (f32_signed n (f32_of_frac a d))" "f32_sign (f32_signed n (f32_of_frac a d)) = (if n then 1 else 0)"
    by (simp_all add: f32_is_nan_iff f32_signed_fields)
  have "\<not> f32_is_nan 0" "f32_sign 0 = 0" by simp_all
  then show "f32_mag (f32_signed n 0) = 0" "\<not> f32_is_nan (f32_signed n 0)"
    by (simp add: mag_signed, simp only: f32_is_nan_iff f32_signed_fields not_False_eq_True)
qed

lemma range_nonneg:
  assumes "f32_is_finite hi" "f32_is_finite lo" "f32_num lo \<le> f32_num hi"
  shows "f32_nonneg (f32_sub hi lo)" "\<not> f32_is_nan (f32_sub hi lo)"
proof -
  have "\<not> f32_is_nan hi" "\<not> f32_is_nan (f32_neg lo)" "\<not> f32_is_inf hi" "\<not> f32_is_inf (f32_neg lo)"
    using assms(1,2) by (auto simp: f32_is_nan_iff f32_is_inf_def f32_is_finite_iff f32_neg_fields)
  then show "f32_nonneg (f32_sub hi lo)" "\<not> f32_is_nan (f32_sub hi lo)"
    using assms(3) by (simp_all add: f32_sub_def f32_add_def f32_neg_num Let_def f32_nonneg_def signed_frac)
qed

lemma f32_of_nat_sign: "f32_sign (f32_of_nat n) = 0"
  using f32_of_mag_positive by (simp add: f32_of_nat_def f32_of_frac_def Let_def)

lemma quotient_nonneg:
  assumes "f32_nonneg a" "\<not> f32_is_nan a" "f32_sign b = 0"
  shows "f32_nonneg (f32_div a b)"
proof (cases "f32_sign a = 0")
  case True
  have "f32_sign F32_INF = 0" "f32_sign F32_NAN = 0" by (simp_all add: F32_INF_def F32_NAN_def f32_sign_def)
  with True show ?thesis using assms(3) by (simp add: f32_div_def Let_def f32_nonneg_def signed_frac f32_signed_fields)
next
  case False
  then have z: "f32_mag a = 0" using assms(1,2) by (simp add: f32_nonneg_def)
  then have "\<not> f32_is_inf a" by (auto simp: f32_mag_def f32_is_inf_def)
  moreover have "f32_sign F32_NAN = 0" by (simp add: F32_NAN_def f32_sign_def)
  ultimately show ?thesis using z by (simp add: f32_div_def Let_def f32_nonneg_def signed_frac)
qed

lemma half_nonneg:
  assumes "f32_nonneg x" "f32_is_finite (f16_to_f32 (f32_to_f16 x))"
  shows "0 \<le> f32_num (f16_to_f32 (f32_to_f16 x))"
proof (cases "f32_is_nan x")
  case True
  then have "f16_exp (f32_to_f16 x) = 31" by (simp add: f32_to_f16_def f16_exp_def)
  then show ?thesis using assms(2) f16_to_f32_fields(3) by (simp add: f32_is_finite_iff)
next
  case nan: False
  show ?thesis
  proof (cases "f32_sign x = 0")
    case True
    then show ?thesis using f32_to_f16_sign [OF nan] by (simp add: f32_num_def f16_to_f32_fields(1))
  next
    case False
    then have z: "f32_exp x = 0" using assms(1) nan by (auto simp: f32_nonneg_def f32_mag_def split: if_splits)
    have ex: "uint (drop_bit 23 x AND 0xff) = int (f32_exp x)" by (simp only: uint_nat f32_parts)
    have "f32_to_f16 x = ucast (drop_bit 16 x AND 0x8000)" using nan unfolding f32_to_f16_def Let_def ex z by simp
    then have "unat (f32_to_f16 x) = f32_sign x * 2 ^ 15 + 0 * 2 ^ 10 + 0" by (simp add: sign_field)
    from f16_of_fields [OF this] have "f16_mag (f32_to_f16 x) = 0" "f16_exp (f32_to_f16 x) \<noteq> 31" by (simp_all add: f16_mag_def)
    then show ?thesis using f16_to_f32_fields(2) by (simp add: f32_num_def)
  qed
qed

lemma range_fold:
  assumes "start < end" "\<forall>off. start \<le> off \<and> off < end \<longrightarrow> f32_is_finite (el off)"
    and "fold (\<lambda>offset (lo, hi). (f32_min lo (el offset), f32_max hi (el offset))) [start..<end] (0x7f800000, 0xff800000) = (lo, hi)"
  shows "f32_is_finite lo" "f32_is_finite hi" "f32_num lo \<le> f32_num hi"
proof -
  define I where "I = (\<lambda>(lo, hi). f32_is_finite lo \<and> f32_is_finite hi \<and> f32_num lo \<le> f32_num hi)"
  let ?f = "\<lambda>offset (lo, hi). (f32_min lo (el offset), f32_max hi (el offset))"
  have f: "f32_is_finite (el off)" if "start \<le> off" "off < end" for off using assms(2) that by blast
  have step: "I (?f off acc)" if "f32_is_finite (el off)" "I acc" for off acc
    using that by (cases acc) (simp add: I_def f32_min_def f32_max_def)
  have "I (?f start (0x7f800000, 0xff800000))"
    using finite_num [OF f [OF order.refl assms(1)]] f [OF order.refl assms(1)] by (simp add: I_def f32_min_def f32_max_def)
  then have "I (fold ?f [Suc start..<end] (?f start (0x7f800000, 0xff800000)))"
  proof (rule fold_invariant [where Q = "\<lambda>off. f32_is_finite (el off)", rotated])
    fix off assume "off \<in> set [Suc start..<end]"
    then show "f32_is_finite (el off)" by (intro f) simp_all
  qed (rule step)
  moreover have "fold ?f [start..<end] (0x7f800000, 0xff800000) = fold ?f [Suc start..<end] (?f start (0x7f800000, 0xff800000))"
    by (simp only: upt_conv_Cons [OF assms(1)] fold_simps)
  ultimately have "I (lo, hi)" using assms(3) by simp
  then show "f32_is_finite lo" "f32_is_finite hi" "f32_num lo \<le> f32_num hi" by (simp_all add: I_def)
qed

lemma group_scale_nonneg:
  assumes "start < end" "\<forall>off. start \<le> off \<and> off < end \<longrightarrow> f32_is_finite (el off)"
    and "sz = fst (group_codes config el start end)" "f32_is_finite (f16_to_f32 (fst sz))"
  shows "0 \<le> f32_num (f16_to_f32 (fst sz))"
proof -
  obtain lo hi where run: "fold (\<lambda>offset (lo, hi). (f32_min lo (el offset), f32_max hi (el offset))) [start..<end]
      (0x7f800000, 0xff800000) = (lo, hi)" by force
  note r = range_fold [OF assms(1,2) run]
  have "fst sz = f32_to_f16 (f32_div (f32_sub hi lo) (f32_of_nat (unat (levels config - 1))))"
    using assms(3) unfolding group_codes_def run Let_def by simp
  then show ?thesis
    using half_nonneg quotient_nonneg [OF range_nonneg [OF r(2,1,3)] f32_of_nat_sign] assms(4) by simp
qed

section \<open>Reading a quantized tensor back\<close>

lemma scale_rejected: "\<not> ok_scale p \<Longrightarrow> rejects (enc_scale p) dec_scale"
proof -
  assume bad: "\<not> ok_scale p"
  obtain s z where p: "p = (s, z)" by (cases p)
  have "rejects (enc_seq [enc_u16 s, enc_u16 z]) dec_scale"
    unfolding dec_scale_def
    by (rule rejects_bind [OF codes_prims(2)], rule rejects_bind [OF codes_prims(2)])
      (use bad p in \<open>auto simp: ok_scale_def rejects_dfail [OF emits_Nil]\<close>)
  then show ?thesis by (simp add: p enc_scale_def)
qed

lemma emits_scales: "\<exists>bs. emits (enc_seq (map enc_scale ss)) bs \<and> length bs = 4 * length ss"
proof (induction ss)
  case (Cons p ss)
  obtain s z where p: "p = (s, z)" by (cases p)
  obtain bs where bs: "emits (enc_seq (map enc_scale ss)) bs" "length bs = 4 * length ss" using Cons by blast
  have "emits (enc_scale p) (to_le_bytes s @ to_le_bytes z @ [])"
    unfolding p enc_scale_def prod.case by (intro emits_steps) simp_all
  from emits_Cons [OF this bs(1)] show ?case using bs(2) by (intro exI [of _ "(to_le_bytes s @ to_le_bytes z @ []) @ bs"]) simp
qed (auto intro!: exI [of _ "[]"] emits_Nil)

definition shaped_tensor :: "quantized_tensor \<Rightarrow> bool" where
  "shaped_tensor t \<longleftrightarrow> ok_tensor_body (qt_axis t) (t\<lparr>qt_scales := replicate (length (qt_scales t)) (0, 0)\<rparr>)"

lemma zero_scale: "ok_scale (0, 0)"
  by (simp add: ok_scale_def f16_to_f32_def f32_is_finite_def f32_num_def f32_mag_def f32_exp_def f32_man_def f32_sign_def)

lemma ok_iff_shaped: "ok_tensor_body (qt_axis t) t \<longleftrightarrow> shaped_tensor t \<and> list_all ok_scale (qt_scales t)"

  using zero_scale by (auto simp: shaped_tensor_def ok_tensor_body_def packed_len_def list_all_iff)

lemma shaped_counts:
  assumes "shaped_tensor t"
  shows "unat (of_nat (qt_rows t) :: u64) = qt_rows t" "unat (of_nat (qt_cols t) :: u64) = qt_cols t"
    "unat (of_nat (length (qt_scales t)) :: u64) = length (qt_scales t)"
    "unat (of_nat (length (qt_packed t)) :: u64) = length (qt_packed t)"
  using tensor_counts [OF assms [unfolded shaped_tensor_def]] by simp_all

lemma bad_scale_rejected:
  assumes shaped: "shaped_tensor t" and bad: "\<not> list_all ok_scale (qt_scales t)"
  shows "rejects (tensor_encode_body t) (tensor_decode_body (qt_axis t))"
proof -
  obtain xs p zs where split: "qt_scales t = xs @ p # zs" "list_all ok_scale xs" "\<not> ok_scale p"
    using bad split_list_first_prop [of "qt_scales t" "\<lambda>p. \<not> ok_scale p"] by (auto simp: list_all_iff)
  obtain cs where "emits (enc_seq (map enc_scale zs)) cs" using emits_scales by blast
  then have scales: "rejects (enc_seq (map enc_scale (qt_scales t))) (dec_times (length (qt_scales t)) dec_scale)"
    unfolding split(1) using split(2,3) by (intro scale_codec.rejects_list scale_rejected)
  have tail: "emits (enc_seq [enc_u64 (of_nat (length (qt_packed t))), enc_bytes (qt_packed t)])
      (to_le_bytes (of_nat (length (qt_packed t)) :: u64) @ qt_packed t @ [])" by (intro emits_steps) simp_all
  note n = shaped_counts [OF shaped]
  show ?thesis
    unfolding tensor_encode_body_def tensor_decode_body_def
    by (rule rejects_bind [OF codes_prims(1)], rule rejects_bind [OF codes_prims(1)], subst if_not_P, simp,
        rule rejects_bind [OF codes_prims(3)], subst dbind_dlift [of _ "qt_config t"],
        use shaped in \<open>simp add: shaped_tensor_def ok_tensor_body_def\<close>,
        rule rejects_bind [OF codes_prims(4)], rule rejects_bind [OF codes_prims(4)], unfold n, subst dbind_dlift [of _ "()"],
        use shaped in \<open>simp add: shaped_tensor_def ok_tensor_body_def\<close>,
        rule rejects_bind [OF codes_prims(4)], unfold n, subst if_not_P,
        use shaped in \<open>simp add: shaped_tensor_def ok_tensor_body_def\<close>,
        rule rejects_head [OF scales tail])
qed

lemma shaped_encoding:
  assumes "shaped_tensor t"
  obtains bs where "tensor_encode_canonical t = Inr bs" "length bs < 2 ^ 64"
proof -
  obtain ss where ss: "emits (enc_seq (map enc_scale (qt_scales t))) ss" "length ss = 4 * length (qt_scales t)"
    using emits_scales by blast
  obtain body where body: "emits (tensor_encode_body t) body" "length body = 38 + length ss + length (qt_packed t)"
  proof
    show "emits (tensor_encode_body t) (qc_bits (qt_config t) # 0 # to_le_bytes (qc_group_size (qt_config t))
      @ to_le_bytes (of_nat (qt_rows t) :: u64) @ to_le_bytes (of_nat (qt_cols t) :: u64)
      @ to_le_bytes (of_nat (length (qt_scales t)) :: u64) @ ss @ to_le_bytes (of_nat (length (qt_packed t)) :: u64) @ qt_packed t @ [])"
      unfolding tensor_encode_body_def by (intro emits_steps ss(1)) simp_all
  qed simp
  have "length (qt_scales t) \<le> 67108864" "length (qt_packed t) \<le> 67108864"
    using tensor_bounds [OF assms [unfolded shaped_tensor_def]] by simp_all
  moreover have "length (axis_magic (qt_axis t)) = 8" by (cases "qt_axis t") simp_all
  ultimately show thesis
    using that body ss(2) by (simp add: tensor_encode_canonical_def enc_versioned_def enc_seq.simps enc_u16_def enc_new_def emits_def)
qed

text \<open>Property C18.  A quantized tensor always encodes.  When every scale and zero-point of it is finite in
  half precision, decoding the encoding accepts it and returns the same tensor; when one of them
  overflowed, which quantization does not check, decoding its own encoding fails.\<close>

theorem quantize_reads_back:
  assumes "quantize values rows cols config axis = Inr t"
    and "quant_config_new (qc_bits config) (qc_group_size config) = Inr config"
  shows "\<exists>encoded. tensor_encode_canonical t = Inr encoded \<and>
    (if list_all (\<lambda>(scale, zero). f32_is_finite (f16_to_f32 scale) \<and> f32_is_finite (f16_to_f32 zero)) (qt_scales t)
     then tensor_decode_canonical encoded = Inr t else \<exists>err. tensor_decode_canonical encoded = Inl err)"
proof -
  let ?finite = "list_all (\<lambda>(scale, zero). f32_is_finite (f16_to_f32 scale) \<and> f32_is_finite (f16_to_f32 zero)) (qt_scales t)"
  obtain sc el where p: "qt_axis t = axis" "qt_config t = config" "qt_rows t = rows" "qt_cols t = cols"
    "validate_dimensions rows cols = Inr ()" "list_all f32_is_finite values"
    "length (qt_scales t) = expected_groups axis rows cols (qc_group_size config)"
    "\<forall>sz \<in> set (qt_scales t). \<exists>el start end. start < end \<and> sz = fst (group_codes config el start end)
       \<and> (\<forall>off. start \<le> off \<and> off < end \<longrightarrow> el off \<in> set values)"
    using assms by (rule quantize_parts)
  note packing = quantize_packing [OF assms]
  have shaped: "shaped_tensor t"
    using p packing(2) assms(2) zero_scale by (simp add: shaped_tensor_def ok_tensor_body_def packed_len_def list_all_iff)
  obtain bs where bs: "tensor_encode_canonical t = Inr bs" "length bs < 2 ^ 64" by (rule shaped_encoding [OF shaped])
  have nonneg: "0 \<le> f32_num (f16_to_f32 (fst sz))" if sz: "sz \<in> set (qt_scales t)" and f: "f32_is_finite (f16_to_f32 (fst sz))" for sz
  proof -
    obtain el start "end" where g: "start < end" "sz = fst (group_codes config el start end)"
      "\<forall>off. start \<le> off \<and> off < end \<longrightarrow> el off \<in> set values" using p(8) sz by blast
    have "\<forall>off. start \<le> off \<and> off < end \<longrightarrow> f32_is_finite (el off)" using g(3) p(6) by (simp add: list_all_iff)
    from group_scale_nonneg [OF g(1) this g(2) f] show ?thesis .
  qed
  have scales: "list_all ok_scale (qt_scales t) \<longleftrightarrow> ?finite"
    using nonneg by (force simp: list_all_iff ok_scale_def)
  show ?thesis
  proof (intro exI conjI)
    show "tensor_encode_canonical t = Inr bs" by (rule bs)
    show "if ?finite then tensor_decode_canonical bs = Inr t else \<exists>err. tensor_decode_canonical bs = Inl err"
    proof (cases ?finite)
      case True
      then have "ok_tensor t" using scales shaped packing(1) ok_iff_shaped [of t] by (simp add: ok_tensor_def)
      then show ?thesis using True bs tensor_decode_canonical_iff by simp
    next
      case False
      then have "rejects (tensor_encode_body t) (tensor_decode_body (qt_axis t))"
        using bad_scale_rejected [OF shaped] scales by blast
      moreover have "length (axis_magic (qt_axis t)) = 8" by (cases "qt_axis t") simp_all
      ultimately obtain err where "decode_object (axis_magic (qt_axis t)) (dec_versioned ''unsupported quantized tensor version''
          ''quantized tensor reserved field is nonzero'' (tensor_decode_body (qt_axis t))) bs = Inl err"
        using decode_object_rejected [OF _ rejects_versioned] bs [unfolded tensor_encode_canonical_def] by blast
      then have "tensor_decode_canonical bs = Inl err" using encoded_magic [OF bs(1)] by (simp add: tensor_decode_canonical_def)
      then show ?thesis using False by simp
    qed
  qed
qed

lemmas f32_eval = f32_sub_def f32_add_def f32_neg_def f32_div_def f32_mul_def f32_signed_def f32_is_nan_def f32_is_inf_def f32_is_finite_def
  f32_num_def f32_mag_def f32_exp_def f32_man_def f32_sign_def f32_of_frac_def rne_div_def f32_of_mag_def bit_length.simps Let_def
  f32_min_def f32_max_def F32_NAN_def F32_INF_def

lemma f32_fifteen: "f32_of_nat 15 = 0x41700000"
  by (simp add: f32_of_nat_def f32_eval)

definition sample_quant :: quant_config where "sample_quant = \<lparr>qc_bits = 4, qc_group_size = 2\<rparr>"

lemma sample_quant_ok: "quant_config_new (qc_bits sample_quant) (qc_group_size sample_quant) = Inr sample_quant" "levels sample_quant = 16"
  by (simp_all add: sample_quant_def quant_config_new_def levels_def wire_consts)

lemma sample_values:
  "f32_min 0x7f800000 0x3f800000 = 0x3f800000" "f32_max 0xff800000 0x3f800000 = 0x3f800000" "f32_sub 0x3f800000 0x3f800000 = 0"
  "f32_min 0x7f800000 0x7f000000 = 0x7f000000" "f32_max 0xff800000 0x7f000000 = 0x7f000000" "f32_sub 0x7f000000 0x7f000000 = 0"
  "f32_min 0x7f800000 0 = 0" "f32_max 0xff800000 0 = 0" "f32_min 0 0x35000000 = 0" "f32_max 0 0x35000000 = 0x35000000"
  "f32_sub 0x35000000 0 = 0x35000000" 
  by (simp_all add: f32_eval)

lemma sample_quotients: "f32_div 0 0x41700000 = 0" "f32_div 0x35000000 0x41700000 = 0x33088889"
  by (simp_all add: f32_eval)

lemma sample_halves: "f32_to_f16 0 = 0" "f16_to_f32 0 = 0" "f32_to_f16 0x3f800000 = 0x3c00" "f32_to_f16 0x7f000000 = 0x7c00" "f32_to_f16 0x33088889 = 0"
  by (simp_all add: f32_eval f32_to_f16_def f16_to_f32_def round_mantissa_def)

lemma sample_groups:
  "group_codes sample_quant (\<lambda>off. [0x3f800000] ! off) 0 1 = ((0, 0x3c00), [0])"
  "group_codes sample_quant (\<lambda>off. [0x7f000000] ! off) 0 1 = ((0, 0x7c00), [0])"
  "group_codes sample_quant (\<lambda>off. [0, 0x35000000] ! off) 0 2 = ((0, 0), [0, 0])"
  by (simp_all add: group_codes_def sample_quant_ok f32_fifteen sample_values sample_quotients sample_halves upt_rec)

lemma sample_quantized:
  "f32_is_finite v \<Longrightarrow> \<exists>t. quantize [v] 1 1 sample_quant PerToken = Inr t
    \<and> qt_scales t = [fst (group_codes sample_quant (\<lambda>off. [v] ! off) 0 1)]"
  by (simp add: quantize_def validate_dimensions_def usize_checked_mul_def wire_consts line_groups_def groups_along_def div_ceil_def
      sample_quant_def)

theorem quantize_reads_back_witness:
  "(\<exists>t bs. quantize [0x3f800000] 1 1 sample_quant PerToken = Inr t \<and> tensor_encode_canonical t = Inr bs
      \<and> tensor_decode_canonical bs = Inr t)
   \<and> (\<exists>t bs err. quantize [0x7f000000] 1 1 sample_quant PerToken = Inr t \<and> tensor_encode_canonical t = Inr bs
      \<and> tensor_decode_canonical bs = Inl err)"
proof -
  have fin: "f32_is_finite 0x3f800000" "f32_is_finite 0x7f000000" by (simp_all add: f32_is_finite_def)
  obtain s where s: "quantize [0x3f800000] 1 1 sample_quant PerToken = Inr s" "qt_scales s = [(0, 0x3c00)]"
    using sample_quantized [OF fin(1)] unfolding sample_groups fst_conv by blast
  obtain t where t: "quantize [0x7f000000] 1 1 sample_quant PerToken = Inr t" "qt_scales t = [(0, 0x7c00)]"
    using sample_quantized [OF fin(2)] unfolding sample_groups fst_conv by blast
  have "f32_is_finite (f16_to_f32 0)" "f32_is_finite (f16_to_f32 0x3c00)" "\<not> f32_is_finite (f16_to_f32 0x7c00)"
    by (simp_all add: finite_f16 f16_exp_def)
  with quantize_reads_back [OF s(1) sample_quant_ok(1)] quantize_reads_back [OF t(1) sample_quant_ok(1)] s t
  show ?thesis by auto
qed

end
