(* ===== verification/Handoff_Base.thy ===== *)
theory Handoff_Base
  imports Ids "HOL-Library.Multiset"
begin

text \<open>
  Shared parts of the live-handoff crate: errors, canonical JSON
  (\<^verbatim>\<open>kvpack-handoff/src/canonical.rs\<close>) and keyed tags (\<^verbatim>\<open>mac.rs\<close>).  Rust strings are
  their UTF-8 bytes.  The \<^verbatim>\<open>serde_json\<close> and \<^verbatim>\<open>hex\<close> crates are parameters; numbers of a JSON
  value keep their type abstract.
\<close>

named_theorems handoff_consts \<open>constants of the handoff protocol\<close>

section \<open>Errors\<close>

datatype handoff_error =
    Canonical string
  | Cancelled
  | DeadlineExceeded
  | Io string
  | Validation string

type_synonym 'a hresult = "handoff_error + 'a"

text \<open>An integer as \<^verbatim>\<open>format!\<close> prints it.\<close>

fun decimal :: "nat \<Rightarrow> string" where
  "decimal n = (if n < 10 then [char_of (48 + n)] else decimal (n div 10) @ [char_of (48 + n mod 10)])"

declare decimal.simps [simp del]

section \<open>Canonical JSON\<close>

datatype 'n json =
    Null
  | Bool bool
  | Number 'n
  | String bytes
  | Array "'n json list"
  | Object "(bytes \<times> 'n json) list"

function sorted_value :: "'n json \<Rightarrow> 'n json" where
  "sorted_value (Object entries) = Object (map (\<lambda>(key, value). (key, sorted_value value)) (sort_key fst entries))"
| "sorted_value (Array items) = Array (map sorted_value items)"
| "sorted_value Null = Null"
| "sorted_value (Bool b) = Bool b"
| "sorted_value (Number n) = Number n"
| "sorted_value (String s) = String s"
  by pat_completeness auto
termination
proof (relation "measure (size_json (\<lambda>_. 0))")
  fix entries :: "(bytes \<times> 'n json) list" and x key v
  assume "x \<in> set (sort_key fst entries)" "(key, v) = x"
  then have "(key, v) \<in> set entries" by simp
  then show "(v, Object entries) \<in> measure (size_json (\<lambda>_. 0))"
    by (induction entries) auto
next
  fix items :: "'n json list" and x
  assume "x \<in> set items"
  then show "(x, Array items) \<in> measure (size_json (\<lambda>_. 0))" by (induction items) auto
qed simp

text \<open>What a type gets from \<^verbatim>\<open>Serialize\<close> and \<^verbatim>\<open>Deserialize\<close>.\<close>

record ('a, 'n) serde =
  sd_to_value :: "'a \<Rightarrow> string + 'n json"
  sd_from_slice :: "bytes \<Rightarrow> string + 'a"

text \<open>The libraries: hashing, hexadecimal digits and the compact JSON printer.\<close>

record 'n services =
  sv_crypto :: crypto
  sv_hex_encode :: "bytes \<Rightarrow> bytes"
  sv_hex_decode :: "bytes \<Rightarrow> bytes option"
  sv_to_vec :: "'n json \<Rightarrow> string + bytes"

definition map_canonical :: "string + 'a \<Rightarrow> 'a hresult" where
  "map_canonical r = (case r of Inl message \<Rightarrow> Inl (Canonical message) | Inr x \<Rightarrow> Inr x)"

definition canonical_json :: "'n services \<Rightarrow> ('a, 'n) serde \<Rightarrow> 'a \<Rightarrow> bytes hresult" where
  "canonical_json S D x =
     rbind (map_canonical (sd_to_value D x)) (\<lambda>value. map_canonical (sv_to_vec S (sorted_value value)))"

definition decode_canonical_json :: "'n services \<Rightarrow> ('a, 'n) serde \<Rightarrow> bytes \<Rightarrow> nat \<Rightarrow> 'a hresult" where
  "decode_canonical_json S D bs max_bytes =
     (if bs = [] \<or> length bs > max_bytes
      then Inl (Validation (''JSON length '' @ decimal (length bs) @ '' is outside 1..='' @ decimal max_bytes))
      else rbind (map_canonical (sd_from_slice D bs)) (\<lambda>decoded.
      rbind (canonical_json S D decoded) (\<lambda>encoded.
      if encoded \<noteq> bs then Inl (Validation ''JSON is not in the canonical compact sorted-key encoding'')
      else Inr decoded)))"

definition sha256_hex :: "'n services \<Rightarrow> bytes \<Rightarrow> bytes" where
  "sha256_hex S bs = sv_hex_encode S (cr_sha256 (sv_crypto S) bs)"

definition token_ids_sha256 :: "'n services \<Rightarrow> u32 list \<Rightarrow> bytes" where
  "token_ids_sha256 S token_ids =
     sv_hex_encode S (sha256 (sv_crypto S) (label ''kvpack-live-token-ids-v1'' # map to_le_bytes token_ids))"

section \<open>Keyed tags\<close>

definition is_lower_hex :: "byte \<Rightarrow> bool" where
  "is_lower_hex b \<longleftrightarrow> of_char (CHR ''0'') \<le> b \<and> b \<le> of_char (CHR ''9'') \<or> of_char (CHR ''a'') \<le> b \<and> b \<le> of_char (CHR ''f'')"

definition valid_sha256 :: "bytes \<Rightarrow> bool" where
  "valid_sha256 s \<longleftrightarrow> length s = 64 \<and> list_all is_lower_hex s"

text \<open>What the code relies on of the \<^verbatim>\<open>hex\<close> crate.\<close>

definition hex_ok :: "'n services \<Rightarrow> bool" where
  "hex_ok S \<longleftrightarrow> (\<forall>bs. sv_hex_decode S (sv_hex_encode S bs) = Some bs
     \<and> length (sv_hex_encode S bs) = 2 * length bs \<and> list_all is_lower_hex (sv_hex_encode S bs))"

type_synonym mac_key = id32

definition mac_from_slice :: "bytes \<Rightarrow> mac_key hresult" where
  "mac_from_slice bs = (if length bs \<noteq> 32 then Inl (Validation ''MAC key must be exactly 32 bytes'') else Inr bs)"

definition mac_from_hex :: "'n services \<Rightarrow> bytes \<Rightarrow> mac_key hresult" where
  "mac_from_hex S hex_key =
     (if \<not> valid_sha256 hex_key then Inl (Validation ''MAC key must be 64 lowercase hexadecimal digits'')
      else case sv_hex_decode S hex_key of
        Some bs \<Rightarrow> if length bs \<noteq> 32 then Inl (Validation ''MAC key hex decode failed'') else Inr bs
      | None \<Rightarrow> Inl (Validation ''MAC key hex decode failed''))"

definition tag_hex :: "'n services \<Rightarrow> mac_key \<Rightarrow> bytes \<Rightarrow> bytes hresult" where
  "tag_hex S key stream = Inr (sv_hex_encode S (hmac (sv_crypto S) key [stream]))"

definition verify_hex :: "'n services \<Rightarrow> mac_key \<Rightarrow> bytes \<Rightarrow> bytes \<Rightarrow> unit hresult" where
  "verify_hex S key stream expected_hex =
     rbind (ok_or (sv_hex_decode S expected_hex) (Validation ''artifact HMAC tag is not valid hex'')) (\<lambda>expected.
     if hmac (sv_crypto S) key [stream] \<noteq> expected then Inl (Validation ''artifact HMAC tag rejected'') else Inr ())"

definition to_be_bytes :: "'a::len word \<Rightarrow> bytes" where
  "to_be_bytes w = rev (to_le_bytes w)"

definition domain_mac :: "'n services \<Rightarrow> mac_key \<Rightarrow> bytes \<Rightarrow> bytes \<Rightarrow> id32" where
  "domain_mac S key domain stream =
     hmac (sv_crypto S) key [label ''kvpack-domain-mac-v1'', to_be_bytes (of_nat (length domain) :: u16), domain, stream]"

definition tag_domain_hex :: "'n services \<Rightarrow> mac_key \<Rightarrow> bytes \<Rightarrow> bytes \<Rightarrow> bytes hresult" where
  "tag_domain_hex S key domain stream =
     (if domain = [] \<or> length domain > 65535 then Inl (Validation ''MAC domain must contain 1..=65535 bytes'')
      else Inr (sv_hex_encode S (domain_mac S key domain stream)))"

definition verify_domain_hex :: "'n services \<Rightarrow> mac_key \<Rightarrow> bytes \<Rightarrow> bytes \<Rightarrow> bytes \<Rightarrow> unit hresult" where
  "verify_domain_hex S key domain stream expected_hex =
     (if domain = [] \<or> length domain > 65535 then Inl (Validation ''MAC domain must contain 1..=65535 bytes'')
      else if \<not> valid_sha256 expected_hex
      then Inl (Validation ''protocol HMAC tag must be 64 lowercase hex characters'')
      else rbind (ok_or (sv_hex_decode S expected_hex) (Validation ''protocol HMAC tag is not valid hex'')) (\<lambda>expected.
      if domain_mac S key domain stream \<noteq> expected then Inl (Validation ''protocol HMAC tag rejected'') else Inr ()))"

lemma tag_verifies:
  assumes "hex_ok S" "digests_32 (sv_crypto S)" "tag_hex S key m = Inr tag"
  shows "valid_sha256 tag" "verify_hex S key m tag = Inr ()"
proof -
  have tag: "tag = sv_hex_encode S (hmac (sv_crypto S) key [m])" using assms(3) by (simp add: tag_hex_def)
  show "valid_sha256 tag" "verify_hex S key m tag = Inr ()"
    using assms(1,2) by (simp_all add: tag valid_sha256_def hex_ok_def digests_32_def hmac_def verify_hex_def)
qed

section \<open>Key order\<close>

text \<open>Two values that differ only in the order of object entries, at any depth.\<close>

inductive reorders :: "'n json \<Rightarrow> 'n json \<Rightarrow> bool" where
  same: "reorders v v"
| items: "list_all2 reorders xs ys \<Longrightarrow> reorders (Array xs) (Array ys)"
| entries: "list_all2 (rel_prod (=) reorders) es fs \<Longrightarrow> mset fs = mset gs \<Longrightarrow> distinct (map fst es)
    \<Longrightarrow> reorders (Object es) (Object gs)"
  monos list.rel_mono prod.rel_mono

fun key_sorted :: "'n json \<Rightarrow> bool" where
  "key_sorted (Array items) \<longleftrightarrow> list_all key_sorted items"
| "key_sorted (Object entries) \<longleftrightarrow> sorted (map fst entries) \<and> list_all (\<lambda>(_, v). key_sorted v) entries"
| "key_sorted _ \<longleftrightarrow> True"

lemma sorted_value_sorted: "key_sorted (sorted_value v)"
  by (induction v rule: sorted_value.induct) (auto simp: list_all_iff comp_def case_prod_unfold)

lemma sort_entries:
  fixes es gs :: "(bytes \<times> 'v) list"
  assumes "mset es = mset gs" "distinct (map fst es)"
  shows "sort_key fst es = sort_key fst gs"
proof (rule map_sorted_distinct_set_unique [of fst])
  have eq: "set es = set gs" by (rule mset_eq_setD [OF assms(1)])
  have keys: "mset (map fst es) = mset (map fst gs)" using assms(1) by simp
  have d: "distinct (map fst gs)" using mset_eq_imp_distinct_iff [OF keys] assms(2) by blast
  show "inj_on fst (set (sort_key fst es) \<union> set (sort_key fst gs))"
    using assms(2) by (simp add: distinct_map eq)
  have "mset (map fst (sort_key fst xs)) = mset (map fst xs)" for xs :: "(bytes \<times> 'v) list" by simp
  then show "distinct (map fst (sort_key fst es))" "distinct (map fst (sort_key fst gs))"
    using assms(2) d by (metis mset_eq_imp_distinct_iff)+
  show "set (sort_key fst es) = set (sort_key fst gs)" using eq by simp
qed simp_all

lemma sort_related:
  fixes es fs :: "(bytes \<times> 'n json) list"
  assumes "list_all2 (rel_prod (=) R) es fs"
  shows "list_all2 (rel_prod (=) R) (sort_key fst es) (sort_key fst fs)"
  using assms
proof (induction rule: list_all2_induct)
  case (Cons e es f fs)
  have ins: "list_all2 (rel_prod (=) R) (insort_key fst e xs) (insort_key fst f ys)"
    if "list_all2 (rel_prod (=) R) xs ys" for xs ys
    using that Cons(1) by (induction rule: list_all2_induct) (auto simp: rel_prod_sel)
  show ?case using ins [OF Cons.IH] by simp
qed simp

lemma sorted_value_reorders: "reorders v w \<Longrightarrow> sorted_value v = sorted_value w"
proof (induction rule: reorders.induct)
  case (items xs ys)
  then show ?case by (induction rule: list_all2_induct) auto
next
  case (entries es fs gs)
  have "list_all2 (rel_prod (=) (\<lambda>v w. sorted_value v = sorted_value w)) es fs"
    using entries.IH by (rule list_all2_mono) auto
  from sort_related [OF this]
  have "map (\<lambda>(k, v). (k, sorted_value v)) (sort_key fst es) = map (\<lambda>(k, v). (k, sorted_value v)) (sort_key fst fs)"
    by (induction rule: list_all2_induct) (auto simp: rel_prod_sel)
  moreover have "map fst es = map fst fs" using entries.IH by (induction rule: list_all2_induct) (auto simp: rel_prod_sel)
  ultimately show ?case using sort_entries [of fs gs] entries.hyps by simp
qed simp

text \<open>The canonical encoding does not depend on the order in which the serializer lists the
  entries of an object, at any depth, and the value handed to the printer has every object sorted.\<close>

theorem canonical_json_order_free:
  assumes "sd_to_value D x = Inr v" "sd_to_value E y = Inr w" and "reorders v w"
  shows "canonical_json S D x = canonical_json S E y \<and> key_sorted (sorted_value v)"
  using assms sorted_value_reorders [OF assms(3)] sorted_value_sorted [of v]
  by (simp add: canonical_json_def map_canonical_def)

section \<open>Services for examples\<close>

definition hex_digit :: "nat \<Rightarrow> byte" where
  "hex_digit n = of_nat (if n < 10 then 48 + n else 87 + n)"

definition hex_value :: "byte \<Rightarrow> nat" where
  "hex_value b = (if unat b < 58 then unat b - 48 else unat b - 87)"

fun sample_hex :: "bytes \<Rightarrow> bytes" where
  "sample_hex [] = []"
| "sample_hex (b # bs) = hex_digit (unat b div 16) # hex_digit (unat b mod 16) # sample_hex bs"

fun sample_unhex :: "bytes \<Rightarrow> bytes option" where
  "sample_unhex [] = Some []"
| "sample_unhex (h # l # bs) = map_option ((#) (of_nat (16 * hex_value h + hex_value l))) (sample_unhex bs)"
| "sample_unhex _ = None"

lemma hex_digit_value: "n < 16 \<Longrightarrow> hex_value (hex_digit n) = n \<and> is_lower_hex (hex_digit n)"
  by (auto simp: hex_digit_def hex_value_def is_lower_hex_def unat_of_nat word_le_nat_alt)

definition sample_services :: "nat services" where
  "sample_services = \<lparr>sv_crypto = sample_crypto, sv_hex_encode = sample_hex, sv_hex_decode = sample_unhex,
     sv_to_vec = (\<lambda>v. Inr (case v of Object es \<Rightarrow> concat (map fst es) | _ \<Rightarrow> [0]))\<rparr>"

lemma sample_hex_ok: "hex_ok sample_services"
proof -
  have "unat b div 16 < 16" "unat b mod 16 < 16" for b :: byte using unat_bound [of b] by simp_all
  note d = hex_digit_value [OF this(1)] hex_digit_value [OF this(2)]
  have "sample_unhex (sample_hex bs) = Some bs \<and> length (sample_hex bs) = 2 * length bs \<and> list_all is_lower_hex (sample_hex bs)" for bs
    by (induction bs) (simp_all add: d)
  then show ?thesis by (simp add: hex_ok_def sample_services_def)
qed

definition sample_object :: "bool \<Rightarrow> nat json" where
  "sample_object flip = Object (if flip then [([98], Number 1), ([97], Array [Null])] else [([97], Array [Null]), ([98], Number 1)])"

theorem canonical_json_order_free_witness:
  "canonical_json sample_services \<lparr>sd_to_value = \<lambda>flip. Inr (sample_object flip), sd_from_slice = \<lambda>_. Inl []\<rparr> True
   = canonical_json sample_services \<lparr>sd_to_value = \<lambda>flip. Inr (sample_object flip), sd_from_slice = \<lambda>_. Inl []\<rparr> False"
proof -
  have "reorders (sample_object True) (sample_object False)"
    unfolding sample_object_def by (auto intro!: reorders.entries [OF list_all2_refl] reorders.same simp: rel_prod_sel)
  then show ?thesis
    by (intro canonical_json_order_free [THEN conjunct1]) simp_all
qed

section \<open>Domain separation\<close>



end
