(* ===== verification/Handoff_V2.thy ===== *)
theory Handoff_V2
  imports Handoff_Base
begin

text \<open>
  The second handoff protocol (\<^verbatim>\<open>kvpack-handoff/src/handoff_v2.rs\<close>): begin manifests of ordered
  components and segments, the signed seal, and the atomic receiver.  An engine's sink is a
  parameter; a running SHA-256 is the bytes absorbed so far.
\<close>

section \<open>Manifests\<close>

definition LIVE_HANDOFF_PROTOCOL_V2 :: bytes where "LIVE_HANDOFF_PROTOCOL_V2 = ascii ''kvpack-live-handoff-v2''"

record exact_identity =
  ei_adapter_sha256 :: bytes
  ei_chat_template_sha256 :: bytes
  ei_context_policy_sha256 :: bytes
  ei_model_revision :: bytes
  ei_model_sha256 :: bytes
  ei_tokenizer_revision :: bytes
  ei_tokenizer_sha256 :: bytes

datatype component_kind = TargetKv | DflashContext | VisionContext

record component =
  cp_id :: bytes
  cp_kind :: component_kind
  cp_required :: bool
  cp_identity_sha256 :: bytes

record hmac_identity =
  hi_key_id :: bytes
  hi_epoch :: u64

record multimodal_identity =
  mi_projector_sha256 :: bytes
  mi_preprocessing_sha256 :: bytes
  mi_image_sequence_sha256 :: bytes

datatype segment_role =
    NopeKey | NopeValue | SwaKey | SwaValue | NopeTile | SwaTile | DflashKey | DflashValue | Auxiliary

type_synonym range_key = "bytes \<times> segment_role \<times> u32 option"
type_synonym segment_ranges = "range_key \<Rightarrow> (u64 \<times> u64) list"

record segment_descriptor =
  sg_sequence :: u32
  sg_component_id :: bytes
  sg_role :: segment_role
  sg_layer :: "u32 option"
  sg_logical_start :: u64
  sg_logical_count :: u64
  sg_element_type :: bytes
  sg_elements_per_token :: u32
  sg_byte_len :: u64
  sg_sha256 :: bytes

record begin_manifest_v2 =
  b2_protocol :: bytes
  b2_transfer_id :: bytes
  b2_generation :: u64
  b2_created_unix_ms :: u64
  b2_expires_unix_ms :: u64
  b2_identity :: exact_identity
  b2_prompt_token_ids :: "u32 list"
  b2_multimodal :: "multimodal_identity option"
  b2_hmac :: hmac_identity
  b2_components :: "component list"
  b2_deferred_segments :: bool
  b2_segments :: "segment_descriptor list"

record seal_core_v2 =
  s2_transfer_id :: bytes
  s2_generation :: u64
  s2_begin_sha256 :: bytes
  s2_descriptor_sha256 :: bytes
  s2_payload_sha256 :: bytes
  s2_segment_count :: u32
  s2_total_bytes :: u64

record seal_manifest_v2 =
  sm_core :: seal_core_v2
  sm_hmac_sha256 :: bytes

text \<open>The serializers of the three signed types.\<close>

record 'n codecs_v2 =
  cv_begin :: "(begin_manifest_v2, 'n) serde"
  cv_segment :: "(segment_descriptor, 'n) serde"
  cv_core :: "(seal_core_v2, 'n) serde"

section \<open>Validation\<close>

definition validate_hex :: "string \<Rightarrow> bytes \<Rightarrow> unit hresult" where
  "validate_hex lbl s =
     (if \<not> valid_sha256 s then Inl (Validation (lbl @ '' digest must be lowercase SHA-256'')) else Inr ())"

definition element_width :: "bytes \<Rightarrow> u64 option" where
  "element_width ty = (if ty = ascii ''f16_le'' then Some 2 else if ty = ascii ''f32_le'' then Some 4 else None)"

definition range_key :: "segment_descriptor \<Rightarrow> range_key" where
  "range_key s = (sg_component_id s, sg_role s, sg_layer s)"

definition validate_segment_descriptor ::
  "segment_descriptor \<Rightarrow> bytes set \<Rightarrow> segment_ranges \<Rightarrow> segment_ranges hresult" where
  "validate_segment_descriptor s ids ranges =
     (if sg_component_id s \<notin> ids \<or> sg_logical_count s = 0 \<or> sg_elements_per_token s = 0 \<or> sg_byte_len s = 0
      then Inl (Validation ''segment has unknown component or empty range'')
      else rbind (validate_hex ''segment'' (sg_sha256 s)) (\<lambda>_.
      rbind (ok_or (element_width (sg_element_type s)) (Validation ''unsupported segment element type'')) (\<lambda>width.
      rbind (ok_or (case checked_mul (sg_logical_count s) (ucast (sg_elements_per_token s)) of
            None \<Rightarrow> None | Some n \<Rightarrow> checked_mul n width)
          (Validation ''segment byte geometry overflow'')) (\<lambda>expected_bytes.
      if sg_byte_len s \<noteq> expected_bytes then Inl (Validation ''segment byte length disagrees with row geometry'')
      else rbind (ok_or (checked_add (sg_logical_start s) (sg_logical_count s))
          (Validation ''segment logical range overflow'')) (\<lambda>end.
      let entry = ranges (range_key s) in
      if list_ex (\<lambda>(start, stop). sg_logical_start s < stop \<and> start < end) entry
      then Inl (Validation ''overlapping segment logical ranges'')
      else Inr (ranges(range_key s := entry @ [(sg_logical_start s, end)])))))))"

definition is_transfer_char :: "byte \<Rightarrow> bool" where
  "is_transfer_char b \<longleftrightarrow> 48 \<le> b \<and> b \<le> 57 \<or> 65 \<le> b \<and> b \<le> 90 \<or> 97 \<le> b \<and> b \<le> 122 \<or> b \<in> set (ascii ''-_.'')"

definition component_step :: "bytes set \<times> bool \<times> bool \<Rightarrow> component \<Rightarrow> (bytes set \<times> bool \<times> bool) hresult" where
  "component_step = (\<lambda>(ids, target, dflash_required) c.
     if cp_id c = [] \<or> cp_id c \<in> ids then Inl (Validation ''empty or duplicate component id'')
     else rbind (validate_hex ''component identity'' (cp_identity_sha256 c)) (\<lambda>_.
     Inr (insert (cp_id c) ids, target \<or> cp_kind c = TargetKv \<and> cp_required c,
          dflash_required \<or> cp_kind c = DflashContext \<and> cp_required c)))"

definition segment_step :: "bytes set \<Rightarrow> segment_ranges \<Rightarrow> nat \<times> segment_descriptor \<Rightarrow> segment_ranges hresult" where
  "segment_step ids ranges = (\<lambda>(index, s).
     if unat (sg_sequence s) \<noteq> index
     then Inl (Validation ''segment sequences must be contiguous in declared wire order'')
     else validate_segment_descriptor s ids ranges)"

record validated_begin_v2 =
  vb_manifest :: begin_manifest_v2
  vb_canonical :: bytes

definition validate_begin_v2 :: "'n services \<Rightarrow> 'n codecs_v2 \<Rightarrow> begin_manifest_v2 \<Rightarrow> u64 \<Rightarrow> bytes \<Rightarrow> u64
    \<Rightarrow> validated_begin_v2 hresult" where
  "validate_begin_v2 S V m now_unix_ms expected_key_id minimum_epoch =
     (if b2_protocol m \<noteq> LIVE_HANDOFF_PROTOCOL_V2 then Inl (Validation ''wrong V2 protocol'')
      else if b2_transfer_id m = [] \<or> length (b2_transfer_id m) > 128 \<or> \<not> list_all is_transfer_char (b2_transfer_id m)
      then Inl (Validation ''invalid transfer id'')
      else if b2_expires_unix_ms m \<le> b2_created_unix_ms m \<or> now_unix_ms > b2_expires_unix_ms m
      then Inl (Validation ''expired or invalid handoff lifetime'')
      else if hi_key_id (b2_hmac m) \<noteq> expected_key_id \<or> hi_epoch (b2_hmac m) < minimum_epoch
      then Inl (Validation ''wrong HMAC key id or replayed epoch'')
      else rbind (for_each (\<lambda>(lbl, s). validate_hex lbl s)
          [(''model identity'', ei_model_sha256 (b2_identity m)),
           (''adapter identity'', ei_adapter_sha256 (b2_identity m)),
           (''chat template identity'', ei_chat_template_sha256 (b2_identity m)),
           (''context policy identity'', ei_context_policy_sha256 (b2_identity m)),
           (''tokenizer identity'', ei_tokenizer_sha256 (b2_identity m))]) (\<lambda>_.
      rbind (case b2_multimodal m of None \<Rightarrow> Inr ()
        | Some mm \<Rightarrow> for_each (\<lambda>(lbl, s). validate_hex lbl s)
            [(''projector'', mi_projector_sha256 mm), (''preprocessing'', mi_preprocessing_sha256 mm),
             (''image sequence'', mi_image_sequence_sha256 mm)]) (\<lambda>_.
      if b2_components m = [] \<or> b2_deferred_segments m \<and> b2_segments m \<noteq> [] \<or> \<not> b2_deferred_segments m \<and> b2_segments m = []
      then Inl (Validation ''V2 requires components and exactly one declared/deferred segment mode'')
      else if b2_prompt_token_ids m = [] then Inl (Validation ''V2 prompt token sequence is empty'')
      else rbind (try_fold component_step ({}, False, False) (b2_components m)) (\<lambda>(ids, target, dflash_required).
      if \<not> target then Inl (Validation ''a required target KV component is mandatory'')
      else rbind (try_fold (segment_step ids) (\<lambda>_. []) (enumerate 0 (b2_segments m))) (\<lambda>_.
      if \<not> b2_deferred_segments m \<and> dflash_required
         \<and> \<not> list_ex (\<lambda>s. list_ex (\<lambda>c. cp_id c = sg_component_id s \<and> cp_kind c = DflashContext) (b2_components m)) (b2_segments m)
      then Inl (Validation ''required DFlash component has no segments'')
      else rbind (canonical_json S (cv_begin V) m) (\<lambda>canonical.
      Inr \<lparr>vb_manifest = m, vb_canonical = canonical\<rparr>))))))"

section \<open>Segments and seals\<close>

record verified_segment_v2 =
  vs_descriptor :: segment_descriptor
  vs_payload :: bytes

definition verify_segment :: "'n services \<Rightarrow> segment_descriptor \<Rightarrow> bytes \<Rightarrow> verified_segment_v2 hresult" where
  "verify_segment S d payload =
     (if of_nat (length payload) \<noteq> sg_byte_len d \<or> sha256_hex S payload \<noteq> sg_sha256 d
      then Inl (Validation ''segment length or digest mismatch'')
      else Inr \<lparr>vs_descriptor = d, vs_payload = payload\<rparr>)"

definition sign_step :: "'n services \<Rightarrow> 'n codecs_v2 \<Rightarrow> bytes \<times> bytes \<times> u64 \<Rightarrow> nat \<times> segment_descriptor \<times> bytes
    \<Rightarrow> (bytes \<times> bytes \<times> u64) hresult" where
  "sign_step S V = (\<lambda>(descriptor_hash, payload_hash, total) (index, d, payload).
     if unat (sg_sequence d) \<noteq> index \<or> sg_byte_len d \<noteq> of_nat (length payload) \<or> sg_sha256 d \<noteq> sha256_hex S payload
     then Inl (Validation ''cannot sign mismatched segment material'')
     else rbind (canonical_json S (cv_segment V) d) (\<lambda>json.
     rbind (ok_or (checked_add total (sg_byte_len d)) (Validation ''total byte count overflow'')) (\<lambda>total'.
     Inr (descriptor_hash @ json, payload_hash @ payload, total'))))"

definition sign_seal :: "'n services \<Rightarrow> 'n codecs_v2 \<Rightarrow> validated_begin_v2 \<Rightarrow> segment_descriptor list \<Rightarrow> bytes list
    \<Rightarrow> mac_key \<Rightarrow> seal_manifest_v2 hresult" where
  "sign_seal S V b descriptors payloads key =
     (if length descriptors \<noteq> length payloads then Inl (Validation ''descriptor/payload count mismatch'')
      else rbind (try_fold (sign_step S V) ([], [], 0) (enumerate 0 (zip descriptors payloads)))
        (\<lambda>(descriptor_hash, payload_hash, total).
      if length descriptors \<ge> 2 ^ 32 then Inl (Validation ''segment count exceeds u32'')
      else let core = \<lparr>s2_transfer_id = b2_transfer_id (vb_manifest b), s2_generation = b2_generation (vb_manifest b),
             s2_begin_sha256 = sha256_hex S (vb_canonical b), s2_descriptor_sha256 = sha256_hex S descriptor_hash,
             s2_payload_sha256 = sha256_hex S payload_hash, s2_segment_count = of_nat (length descriptors),
             s2_total_bytes = total\<rparr> in
      rbind (canonical_json S (cv_core V) core) (\<lambda>json.
      rbind (tag_hex S key json) (\<lambda>tag.
      Inr \<lparr>sm_core = core, sm_hmac_sha256 = tag\<rparr>))))"

section \<open>The receiver\<close>

record committed_generation =
  cg_transfer_id :: bytes
  cg_generation :: u64
  cg_installed_segments :: u32
  cg_installed_bytes :: u64

text \<open>The trait \<^verbatim>\<open>HandoffSinkV2\<close>: every method may change the sink, also when it fails.\<close>

record 's sink_v2 =
  sk_begin :: "'s \<Rightarrow> validated_begin_v2 \<Rightarrow> 's \<times> unit hresult"
  sk_segment_ready :: "'s \<Rightarrow> verified_segment_v2 \<Rightarrow> 's \<times> unit hresult"
  sk_prepare_commit :: "'s \<Rightarrow> seal_manifest_v2 \<Rightarrow> 's \<times> unit hresult"
  sk_commit :: "'s \<Rightarrow> 's \<times> committed_generation hresult"
  sk_abort :: "'s \<Rightarrow> 's"

datatype receiver_state = Receiving | Prepared | Committed | Aborted

record 's atomic_receiver =
  ar_begin :: validated_begin_v2
  ar_sink :: 's
  ar_key :: mac_key
  ar_next :: nat
  ar_deferred_ranges :: segment_ranges
  ar_seen_components :: "bytes set"
  ar_descriptor_hash :: bytes
  ar_payload_hash :: bytes
  ar_total :: u64
  ar_state :: receiver_state

definition receiver_begin :: "'s sink_v2 \<Rightarrow> validated_begin_v2 \<Rightarrow> mac_key \<Rightarrow> 's \<Rightarrow> 's atomic_receiver hresult" where
  "receiver_begin K b key sink = (case sk_begin K sink b of (sink', r) \<Rightarrow>
     rbind r (\<lambda>_. Inr \<lparr>ar_begin = b, ar_sink = sink', ar_key = key, ar_next = 0, ar_deferred_ranges = (\<lambda>_. []),
       ar_seen_components = {}, ar_descriptor_hash = [], ar_payload_hash = [], ar_total = 0, ar_state = Receiving\<rparr>))"

definition receiver_abort :: "'s sink_v2 \<Rightarrow> 's atomic_receiver \<Rightarrow> 's atomic_receiver" where
  "receiver_abort K r =
     (if ar_state r = Committed \<or> ar_state r = Aborted then r
      else r\<lparr>ar_sink := sk_abort K (ar_sink r), ar_state := Aborted\<rparr>)"

definition receiver_fail :: "'s sink_v2 \<Rightarrow> 's atomic_receiver \<Rightarrow> string \<Rightarrow> 's atomic_receiver \<times> 'a hresult" where
  "receiver_fail K r message = (receiver_abort K r, Inl (Validation message))"

definition accept_segment :: "'n services \<Rightarrow> 'n codecs_v2 \<Rightarrow> 's sink_v2 \<Rightarrow> 's atomic_receiver \<Rightarrow> segment_descriptor \<Rightarrow> bytes
    \<Rightarrow> 's atomic_receiver \<times> unit hresult" where
  "accept_segment S V K r d payload =
     (case verify_segment S d payload of
        Inl e \<Rightarrow> (receiver_abort K r, Inl e)
      | Inr verified \<Rightarrow>
      (case canonical_json S (cv_segment V) d of
        Inl e \<Rightarrow> (r, Inl e)
      | Inr json \<Rightarrow>
      let r = r\<lparr>ar_descriptor_hash := ar_descriptor_hash r @ json, ar_payload_hash := ar_payload_hash r @ vs_payload verified\<rparr> in
      (case checked_add (ar_total r) (sg_byte_len d) of
        None \<Rightarrow> (r, Inl (Validation ''total byte count overflow''))
      | Some total' \<Rightarrow>
      let r = r\<lparr>ar_total := total'\<rparr> in
      (case sk_segment_ready K (ar_sink r) verified of
        (sink, Inl e) \<Rightarrow> (receiver_abort K (r\<lparr>ar_sink := sink\<rparr>), Inl e)
      | (sink, Inr _) \<Rightarrow>
          (r\<lparr>ar_sink := sink, ar_seen_components := insert (sg_component_id d) (ar_seen_components r),
             ar_next := ar_next r + 1\<rparr>, Inr ())))))"

definition segment_ready :: "'n services \<Rightarrow> 'n codecs_v2 \<Rightarrow> 's sink_v2 \<Rightarrow> 's atomic_receiver \<Rightarrow> u32 \<Rightarrow> bytes
    \<Rightarrow> 's atomic_receiver \<times> unit hresult" where
  "segment_ready S V K r sequence payload =
     (if ar_state r \<noteq> Receiving then receiver_fail K r ''segment outside receiving state''
      else let segments = b2_segments (vb_manifest (ar_begin r)) in
      if \<not> ar_next r < length segments then receiver_fail K r ''extra segment''
      else let d = segments ! ar_next r in
      if sg_sequence d \<noteq> sequence then receiver_fail K r ''dropped, duplicate, or reordered segment''
      else accept_segment S V K r d payload)"

definition component_ids :: "begin_manifest_v2 \<Rightarrow> bytes set" where
  "component_ids m = set (map cp_id (b2_components m))"

definition segment_ready_deferred :: "'n services \<Rightarrow> 'n codecs_v2 \<Rightarrow> 's sink_v2 \<Rightarrow> 's atomic_receiver \<Rightarrow> segment_descriptor
    \<Rightarrow> bytes \<Rightarrow> 's atomic_receiver \<times> unit hresult" where
  "segment_ready_deferred S V K r d payload =
     (if ar_state r \<noteq> Receiving \<or> \<not> b2_deferred_segments (vb_manifest (ar_begin r))
      then receiver_fail K r ''deferred segment outside deferred receiving mode''
      else if unat (sg_sequence d) \<noteq> ar_next r
      then receiver_fail K r ''dropped, duplicate, or reordered deferred segment''
      else case validate_segment_descriptor d (component_ids (vb_manifest (ar_begin r))) (ar_deferred_ranges r) of
        Inl e \<Rightarrow> (receiver_abort K r, Inl e)
      | Inr ranges \<Rightarrow> accept_segment S V K (r\<lparr>ar_deferred_ranges := ranges\<rparr>) d payload)"

definition prepare_commit :: "'n services \<Rightarrow> 'n codecs_v2 \<Rightarrow> 's sink_v2 \<Rightarrow> 's atomic_receiver \<Rightarrow> seal_manifest_v2
    \<Rightarrow> 's atomic_receiver \<times> unit hresult" where
  "prepare_commit S V K r seal =
     (let m = vb_manifest (ar_begin r);
          all_segments = (if b2_deferred_segments m then ar_next r > 0 else ar_next r = length (b2_segments m));
          core = sm_core seal in
      if ar_state r \<noteq> Receiving \<or> \<not> all_segments then receiver_fail K r ''seal before every segment''
      else if b2_deferred_segments m
         \<and> list_ex (\<lambda>c. cp_required c \<and> cp_id c \<notin> ar_seen_components r) (b2_components m)
      then receiver_fail K r ''required component has no deferred segment''
      else if s2_transfer_id core \<noteq> b2_transfer_id m \<or> s2_generation core \<noteq> b2_generation m
         \<or> unat (s2_segment_count core) \<noteq> ar_next r \<or> s2_total_bytes core \<noteq> ar_total r
         \<or> s2_begin_sha256 core \<noteq> sha256_hex S (vb_canonical (ar_begin r))
         \<or> s2_descriptor_sha256 core \<noteq> sha256_hex S (ar_descriptor_hash r)
         \<or> s2_payload_sha256 core \<noteq> sha256_hex S (ar_payload_hash r)
      then receiver_fail K r ''seal identity or digest mismatch''
      else case validate_hex ''seal HMAC'' (sm_hmac_sha256 seal) of
        Inl e \<Rightarrow> (r, Inl e)
      | Inr _ \<Rightarrow>
      (case canonical_json S (cv_core V) core of
        Inl e \<Rightarrow> (r, Inl e)
      | Inr stream \<Rightarrow>
      (case verify_hex S (ar_key r) stream (sm_hmac_sha256 seal) of
        Inl e \<Rightarrow> (receiver_abort K r, Inl e)
      | Inr _ \<Rightarrow>
      (case sk_prepare_commit K (ar_sink r) seal of
        (sink, Inl e) \<Rightarrow> (receiver_abort K (r\<lparr>ar_sink := sink\<rparr>), Inl e)
      | (sink, Inr _) \<Rightarrow> (r\<lparr>ar_sink := sink, ar_state := Prepared\<rparr>, Inr ())))))"

definition receiver_commit :: "'s sink_v2 \<Rightarrow> 's atomic_receiver \<Rightarrow> 's atomic_receiver \<times> committed_generation hresult" where
  "receiver_commit K r =
     (if ar_state r \<noteq> Prepared then receiver_fail K r ''commit before prepared seal''
      else case sk_commit K (ar_sink r) of
        (sink, Inr g) \<Rightarrow> (r\<lparr>ar_sink := sink, ar_state := Committed\<rparr>, Inr g)
      | (sink, Inl e) \<Rightarrow> (receiver_abort K (r\<lparr>ar_sink := sink\<rparr>), Inl e))"

end
