(* ===== verification/Handoff_V2_Run.thy ===== *)
theory Handoff_V2_Run
  imports Handoff_V2
begin

text \<open>
  Sessions of the atomic receiver: what an accepted stream of segments satisfies, what a prepared
  seal has authenticated, which calls reach the sink, and that a signed stream commits.
\<close>

section \<open>Runs\<close>

text \<open>The calls a session makes on a receiver, and the segments it accepted.  Dropping a receiver aborts it.\<close>

datatype receiver_op =
    Segment u32 bytes
  | Deferred segment_descriptor bytes
  | Prepare seal_manifest_v2
  | Commit
  | Abort

fun receiver_step :: "'n services \<Rightarrow> 'n codecs_v2 \<Rightarrow> 's sink_v2 \<Rightarrow> 's atomic_receiver \<Rightarrow> receiver_op
    \<Rightarrow> 's atomic_receiver \<times> unit hresult" where
  "receiver_step S V K r (Segment sequence payload) = segment_ready S V K r sequence payload"
| "receiver_step S V K r (Deferred d payload) = segment_ready_deferred S V K r d payload"
| "receiver_step S V K r (Prepare seal) = prepare_commit S V K r seal"
| "receiver_step S V K r Commit = (case receiver_commit K r of (r', g) \<Rightarrow> (r', rbind g (\<lambda>_. Inr ())))"
| "receiver_step S V K r Abort = (receiver_abort K r, Inr ())"

definition receiver_run :: "'n services \<Rightarrow> 'n codecs_v2 \<Rightarrow> 's sink_v2 \<Rightarrow> 's atomic_receiver \<Rightarrow> receiver_op list
    \<Rightarrow> 's atomic_receiver" where
  "receiver_run S V K = foldl (\<lambda>r op. fst (receiver_step S V K r op))"

lemma receiver_run_simps [simp]:
  "receiver_run S V K r [] = r"
  "receiver_run S V K r (op # ops) = receiver_run S V K (fst (receiver_step S V K r op)) ops"
  "receiver_run S V K r (ops @ ops') = receiver_run S V K (receiver_run S V K r ops) ops'"
  by (simp_all add: receiver_run_def)

fun op_segment :: "'s atomic_receiver \<Rightarrow> receiver_op \<Rightarrow> (segment_descriptor \<times> bytes) list" where
  "op_segment r (Segment sequence payload) = [(b2_segments (vb_manifest (ar_begin r)) ! ar_next r, payload)]"
| "op_segment r (Deferred d payload) = [(d, payload)]"
| "op_segment r _ = []"

fun accepted :: "'n services \<Rightarrow> 'n codecs_v2 \<Rightarrow> 's sink_v2 \<Rightarrow> 's atomic_receiver \<Rightarrow> receiver_op list
    \<Rightarrow> (segment_descriptor \<times> bytes) list" where
  "accepted S V K r [] = []"
| "accepted S V K r (op # ops) =
     (if is_ok (snd (receiver_step S V K r op)) then op_segment r op else [])
       @ accepted S V K (fst (receiver_step S V K r op)) ops"

lemma accepted_append:
  "accepted S V K r (ops @ ops') = accepted S V K r ops @ accepted S V K (receiver_run S V K r ops) ops'"
  by (induction ops arbitrary: r) simp_all

fun op_bytes :: "receiver_op \<Rightarrow> nat" where
  "op_bytes (Segment _ payload) = length payload"
| "op_bytes (Deferred _ payload) = length payload"
| "op_bytes _ = 0"

definition offered :: "receiver_op list \<Rightarrow> nat" where
  "offered ops = sum_list (map op_bytes ops)"

section \<open>Declared ranges\<close>

definition segment_end :: "segment_descriptor \<Rightarrow> nat" where
  "segment_end s = unat (sg_logical_start s) + unat (sg_logical_count s)"

definition apart :: "segment_descriptor \<Rightarrow> segment_descriptor \<Rightarrow> bool" where
  "apart s t \<longleftrightarrow> range_key s = range_key t \<longrightarrow>
     segment_end s \<le> unat (sg_logical_start t) \<or> segment_end t \<le> unat (sg_logical_start s)"

definition sound_segment :: "bytes set \<Rightarrow> segment_descriptor \<Rightarrow> bool" where
  "sound_segment ids s \<longleftrightarrow> sg_component_id s \<in> ids \<and> 0 < unat (sg_logical_count s) \<and> segment_end s < 2 ^ 64
     \<and> (\<exists>width. element_width (sg_element_type s) = Some width
        \<and> unat (sg_byte_len s) = unat (sg_logical_count s) * unat (sg_elements_per_token s) * unat width)"

text \<open>The ranges recorded so far include those of the accepted segments.\<close>

definition records :: "segment_ranges \<Rightarrow> segment_descriptor list \<Rightarrow> bool" where
  "records ranges ds \<longleftrightarrow>
     (\<forall>s \<in> set ds. (sg_logical_start s, sg_logical_start s + sg_logical_count s) \<in> set (ranges (range_key s)))"

lemma validate_segment_ok:
  assumes "validate_segment_descriptor s ids ranges = Inr ranges'" and "records ranges ds" "\<forall>t \<in> set ds. segment_end t < 2 ^ 64"
  shows "sound_segment ids s" "\<forall>t \<in> set ds. apart t s" "records ranges' (ds @ [s])"
proof -
  obtain width stop where w: "element_width (sg_element_type s) = Some width"
    and b: "unat (sg_byte_len s) = unat (sg_logical_count s) * unat (sg_elements_per_token s) * unat width"
    and stop: "unat stop = segment_end s" and ids: "sg_component_id s \<in> ids" and c: "sg_logical_count s \<noteq> 0"
    and free: "\<not> list_ex (\<lambda>(start, e). sg_logical_start s < e \<and> start < stop) (ranges (range_key s))"
    and r': "ranges' = ranges(range_key s := ranges (range_key s) @ [(sg_logical_start s, stop)])"
    using assms(1) unfolding validate_segment_descriptor_def Let_def
    by (auto simp: ok_iff segment_end_def split: option.splits if_splits)
  with b w ids c stop unat_bound [of stop] show "sound_segment ids s"
    by (auto simp: sound_segment_def unat_gt_0)
  have end': "unat (sg_logical_start t + sg_logical_count t) = segment_end t" if "segment_end t < 2 ^ 64" for t
    using that by (simp add: segment_end_def unat_word_ariths)
  show "\<forall>t \<in> set ds. apart t s"
  proof
    fix t assume t: "t \<in> set ds"
    show "apart t s" unfolding apart_def
    proof
      assume "range_key t = range_key s"
      then have "(sg_logical_start t, sg_logical_start t + sg_logical_count t) \<in> set (ranges (range_key s))"
        using assms(2) t by (fastforce simp: records_def)
      then have "\<not> (sg_logical_start s < sg_logical_start t + sg_logical_count t \<and> sg_logical_start t < stop)"
        using free by (auto simp: list_ex_iff)
      then show "segment_end t \<le> unat (sg_logical_start s) \<or> segment_end s \<le> unat (sg_logical_start t)"
        using end' [of t] assms(3) t stop by (auto simp: word_less_nat_alt not_less)
    qed
  qed
  have "stop = sg_logical_start s + sg_logical_count s"
    using end' [of s] stop unat_bound [of stop] by (simp add: word_unat_eq_iff)
  then show "records ranges' (ds @ [s])" using assms(2) by (auto simp: records_def r')
qed

definition sound_segments :: "bytes set \<Rightarrow> segment_descriptor list \<Rightarrow> bool" where
  "sound_segments ids ds \<longleftrightarrow> list_all (sound_segment ids) ds
     \<and> (\<forall>i < length ds. unat (sg_sequence (ds ! i)) = i)
     \<and> (\<forall>i j. i < j \<longrightarrow> j < length ds \<longrightarrow> apart (ds ! i) (ds ! j))"

lemma sound_segments_Nil [simp]: "sound_segments ids []" by (simp add: sound_segments_def)

lemma sound_segments_snoc:
  assumes "sound_segments ids ds" "records ranges ds" "unat (sg_sequence s) = length ds"
    and "validate_segment_descriptor s ids ranges = Inr ranges'"
  shows "sound_segments ids (ds @ [s])" "records ranges' (ds @ [s])"
proof -
  have "\<forall>t \<in> set ds. segment_end t < 2 ^ 64" using assms(1) by (auto simp: sound_segments_def list_all_iff sound_segment_def)
  note ok = validate_segment_ok [OF assms(4,2) this]
  show "records ranges' (ds @ [s])" by (rule ok)
  have "apart ((ds @ [s]) ! i) ((ds @ [s]) ! j)" if "i < j" "j < length (ds @ [s])" for i j
    using that assms(1) ok(2) by (cases "j = length ds") (auto simp: sound_segments_def nth_append)
  then show "sound_segments ids (ds @ [s])"
    using assms(1,3) ok(1) by (auto simp: sound_segments_def nth_append less_Suc_eq)
qed

lemma segment_step_ok: "segment_step ids ranges (i, s) = Inr ranges'
    \<longleftrightarrow> unat (sg_sequence s) = i \<and> validate_segment_descriptor s ids ranges = Inr ranges'"
  by (simp add: segment_step_def)

lemma declared_segments:
  assumes "try_fold (segment_step ids) ranges (enumerate (length ds) es) = Inr ranges'"
    and "sound_segments ids ds" "records ranges ds"
  shows "sound_segments ids (ds @ es) \<and> records ranges' (ds @ es)"
  using assms
proof (induction es arbitrary: ds ranges)
  case (Cons e es)
  then obtain r where "unat (sg_sequence e) = length ds" "validate_segment_descriptor e ids ranges = Inr r"
    and rest: "try_fold (segment_step ids) r (enumerate (length (ds @ [e])) es) = Inr ranges'"
    by (auto simp: segment_step_ok ok_iff)
  with sound_segments_snoc [OF Cons.prems(2,3)] Cons.IH [OF rest] show ?case by simp
qed simp

section \<open>One call\<close>

definition payload_ok :: "'n services \<Rightarrow> segment_descriptor \<Rightarrow> bytes \<Rightarrow> bool" where
  "payload_ok S d p \<longleftrightarrow> of_nat (length p) = sg_byte_len d \<and> sha256_hex S p = sg_sha256 d"

lemma abort_state: "ar_state (receiver_abort K r) = (if ar_state r = Committed then Committed else Aborted)"
  by (simp add: receiver_abort_def)

lemma accept_segment_cases:
  assumes "accept_segment S V K r d p = (r', res)" "ar_state r = Receiving"
  obtains (ok) json total' sink where "res = Inr ()" "payload_ok S d p" "canonical_json S (cv_segment V) d = Inr json"
      "checked_add (ar_total r) (sg_byte_len d) = Some total'"
      "sk_segment_ready K (ar_sink r) \<lparr>vs_descriptor = d, vs_payload = p\<rparr> = (sink, Inr ())"
      "r' = r\<lparr>ar_descriptor_hash := ar_descriptor_hash r @ json, ar_payload_hash := ar_payload_hash r @ p, ar_total := total',
        ar_sink := sink, ar_seen_components := insert (sg_component_id d) (ar_seen_components r), ar_next := ar_next r + 1\<rparr>"
  | (aborted) e where "res = Inl e" "ar_state r' = Aborted"
  | (canonical) e where "res = Inl e" "canonical_json S (cv_segment V) d = Inl e" "r' = r"
  | (overflow) "res = Inl (Validation ''total byte count overflow'')" "payload_ok S d p"
      "checked_add (ar_total r) (sg_byte_len d) = None" "ar_state r' = Receiving"
proof (cases "payload_ok S d p")
  case False
  then have "verify_segment S d p = Inl (Validation ''segment length or digest mismatch'')"
    by (simp add: verify_segment_def payload_ok_def)
  then show thesis using assms aborted by (auto simp: accept_segment_def abort_state)
next
  case True
  then have v: "verify_segment S d p = Inr \<lparr>vs_descriptor = d, vs_payload = p\<rparr>"
    by (auto simp: verify_segment_def payload_ok_def)
  show thesis
  proof (cases "canonical_json S (cv_segment V) d")
    case (Inl e)
    then show thesis using assms canonical v by (auto simp: accept_segment_def)
  next
    case (Inr json)
    show thesis
    proof (cases "checked_add (ar_total r) (sg_byte_len d)")
      case None
      then show thesis using assms overflow v Inr True by (auto simp: accept_segment_def)
    next
      case (Some total')
      obtain sink x where k: "sk_segment_ready K (ar_sink r) \<lparr>vs_descriptor = d, vs_payload = p\<rparr> = (sink, x)" by fastforce
      show thesis
      proof (cases x)
        case (Inl e)
        then show thesis using assms aborted v Inr Some k by (auto simp: accept_segment_def abort_state)
      next
        case Inr': (Inr u)
        then show thesis using assms ok [OF _ True Inr Some] v Inr Some k by (auto simp: accept_segment_def)
      qed
    qed
  qed
qed

lemma segment_ready_cases:
  assumes "segment_ready S V K r sequence p = (r', res)"
  obtains (refused) e where "res = Inl e" "ar_state r' = Aborted \<or> ar_state r' = Committed \<and> r' = r"
  | (accept) "ar_state r = Receiving" "ar_next r < length (b2_segments (vb_manifest (ar_begin r)))"
      "sg_sequence (b2_segments (vb_manifest (ar_begin r)) ! ar_next r) = sequence"
      "accept_segment S V K r (b2_segments (vb_manifest (ar_begin r)) ! ar_next r) p = (r', res)"
  using assms refused accept
  by (auto simp: segment_ready_def receiver_fail_def Let_def receiver_abort_def split: if_splits)

lemma segment_ready_deferred_cases:
  assumes "segment_ready_deferred S V K r d p = (r', res)"
  obtains (refused) e where "res = Inl e" "ar_state r' = Aborted \<or> ar_state r' = Committed \<and> r' = r"
  | (accept) ranges where "ar_state r = Receiving" "b2_deferred_segments (vb_manifest (ar_begin r))" "unat (sg_sequence d) = ar_next r"
      "validate_segment_descriptor d (component_ids (vb_manifest (ar_begin r))) (ar_deferred_ranges r) = Inr ranges"
      "accept_segment S V K (r\<lparr>ar_deferred_ranges := ranges\<rparr>) d p = (r', res)"
  using assms refused accept
  by (auto simp: segment_ready_deferred_def receiver_fail_def Let_def receiver_abort_def split: if_splits sum.splits)

text \<open>What a seal has to agree with to be accepted.\<close>

definition seal_matches :: "'n services \<Rightarrow> 'n codecs_v2 \<Rightarrow> 's atomic_receiver \<Rightarrow> seal_manifest_v2 \<Rightarrow> bool" where
  "seal_matches S V r seal \<longleftrightarrow>
     (let m = vb_manifest (ar_begin r); core = sm_core seal in
      (if b2_deferred_segments m
       then ar_next r > 0 \<and> (\<forall>c \<in> set (b2_components m). cp_required c \<longrightarrow> cp_id c \<in> ar_seen_components r)
       else ar_next r = length (b2_segments m))
      \<and> s2_transfer_id core = b2_transfer_id m \<and> s2_generation core = b2_generation m
      \<and> unat (s2_segment_count core) = ar_next r \<and> s2_total_bytes core = ar_total r
      \<and> s2_begin_sha256 core = sha256_hex S (vb_canonical (ar_begin r))
      \<and> s2_descriptor_sha256 core = sha256_hex S (ar_descriptor_hash r)
      \<and> s2_payload_sha256 core = sha256_hex S (ar_payload_hash r)
      \<and> valid_sha256 (sm_hmac_sha256 seal)
      \<and> (\<exists>json. canonical_json S (cv_core V) core = Inr json \<and> verify_hex S (ar_key r) json (sm_hmac_sha256 seal) = Inr ()))"

lemma guarded: "a \<or> b \<or> c \<Longrightarrow> \<exists>message. (if a then f m\<^sub>1 else if b then f m\<^sub>2 else if c then f m\<^sub>3 else x) = f message"
  by auto

lemma prepare_commit_cases:
  assumes "prepare_commit S V K r seal = (r', res)"
  obtains (ok) sink where "ar_state r = Receiving" "seal_matches S V r seal" "res = Inr ()"
      "sk_prepare_commit K (ar_sink r) seal = (sink, Inr ())" "r' = r\<lparr>ar_sink := sink, ar_state := Prepared\<rparr>"
  | (refused) e where "res = Inl e" "ar_state r' = Aborted \<or> ar_state r' = Committed \<and> r' = r"
  | (retry) e where "res = Inl e" "r' = r" "ar_state r = Receiving"
      "e = Validation ''seal HMAC digest must be lowercase SHA-256'' \<or> canonical_json S (cv_core V) (sm_core seal) = Inl e"
proof -
  let ?m = "vb_manifest (ar_begin r)" and ?core = "sm_core seal"
  let ?all = "if b2_deferred_segments ?m then ar_next r > 0 else ar_next r = length (b2_segments ?m)"
  let ?missing = "b2_deferred_segments ?m \<and> list_ex (\<lambda>c. cp_required c \<and> cp_id c \<notin> ar_seen_components r) (b2_components ?m)"
  let ?differs = "s2_transfer_id ?core \<noteq> b2_transfer_id ?m \<or> s2_generation ?core \<noteq> b2_generation ?m
         \<or> unat (s2_segment_count ?core) \<noteq> ar_next r \<or> s2_total_bytes ?core \<noteq> ar_total r
         \<or> s2_begin_sha256 ?core \<noteq> sha256_hex S (vb_canonical (ar_begin r))
         \<or> s2_descriptor_sha256 ?core \<noteq> sha256_hex S (ar_descriptor_hash r)
         \<or> s2_payload_sha256 ?core \<noteq> sha256_hex S (ar_payload_hash r)"
  show thesis
  proof (cases "(ar_state r \<noteq> Receiving \<or> \<not> ?all) \<or> ?missing \<or> ?differs")
    case True
    then have "\<exists>message. prepare_commit S V K r seal = receiver_fail K r message"
      unfolding prepare_commit_def Let_def by (rule guarded)
    then show thesis using assms refused by (auto simp: receiver_fail_def receiver_abort_def split: if_splits)
  next
    case False
    then have n: "\<not> (ar_state r \<noteq> Receiving \<or> \<not> ?all)" "\<not> ?missing" "\<not> ?differs" by blast+
    have eq: "prepare_commit S V K r seal = (case validate_hex ''seal HMAC'' (sm_hmac_sha256 seal) of
        Inl e \<Rightarrow> (r, Inl e)
      | Inr _ \<Rightarrow> (case canonical_json S (cv_core V) ?core of
        Inl e \<Rightarrow> (r, Inl e)
      | Inr stream \<Rightarrow> (case verify_hex S (ar_key r) stream (sm_hmac_sha256 seal) of
        Inl e \<Rightarrow> (receiver_abort K r, Inl e)
      | Inr _ \<Rightarrow> (case sk_prepare_commit K (ar_sink r) seal of
        (sink, Inl e) \<Rightarrow> (receiver_abort K (r\<lparr>ar_sink := sink\<rparr>), Inl e)
      | (sink, Inr _) \<Rightarrow> (r\<lparr>ar_sink := sink, ar_state := Prepared\<rparr>, Inr ())))))"
      unfolding prepare_commit_def Let_def if_not_P [OF n(1)] if_not_P [OF n(2)] if_not_P [OF n(3)] ..
    show thesis
    proof (cases "valid_sha256 (sm_hmac_sha256 seal)")
      case False
      then show thesis using assms eq retry n(1) by (auto simp: validate_hex_def)
    next
      case hex: True
      show thesis
      proof (cases "canonical_json S (cv_core V) ?core")
        case (Inl e)
        then show thesis using assms eq retry hex False by (auto simp: validate_hex_def)
      next
        case json: (Inr json)
        show thesis
        proof (cases "verify_hex S (ar_key r) json (sm_hmac_sha256 seal)")
          case (Inl e)
          then have "r' = receiver_abort K r" "res = Inl e" using assms eq hex json by (simp_all add: validate_hex_def)
          then show thesis using refused False by (simp add: abort_state)
        next
          case tag: (Inr u)
          obtain sink x where k: "sk_prepare_commit K (ar_sink r) seal = (sink, x)" by fastforce
          show thesis
          proof (cases x)
            case (Inl e)
            then have "r' = receiver_abort K (r\<lparr>ar_sink := sink\<rparr>)" "res = Inl e"
              using assms eq hex json tag k by (simp_all add: validate_hex_def)
            then show thesis using refused False by (simp add: abort_state)
          next
            case (Inr w)
            have "seal_matches S V r seal"
              using False hex json tag by (auto simp: seal_matches_def Let_def list_ex_iff)
            then show thesis using assms eq ok hex json tag k Inr False by (auto simp: validate_hex_def)
          qed
        qed
      qed
    qed
  qed
qed

lemma receiver_commit_cases:
  assumes "receiver_commit K r = (r', res)"
  obtains (ok) g sink where "ar_state r = Prepared" "sk_commit K (ar_sink r) = (sink, Inr g)" "res = Inr g"
      "r' = r\<lparr>ar_sink := sink, ar_state := Committed\<rparr>"
  | (refused) e where "res = Inl e" "ar_state r' = Aborted \<or> ar_state r' = Committed \<and> r' = r"
  using assms ok refused
  by (auto simp: receiver_commit_def receiver_fail_def receiver_abort_def split: if_splits prod.splits sum.splits)

section \<open>The invariant of a session\<close>

definition descriptor_bytes :: "'n services \<Rightarrow> 'n codecs_v2 \<Rightarrow> segment_descriptor list \<Rightarrow> bytes" where
  "descriptor_bytes S V ds = concat (map (\<lambda>d. case canonical_json S (cv_segment V) d of Inl _ \<Rightarrow> [] | Inr json \<Rightarrow> json) ds)"

definition deliver :: "'s sink_v2 \<Rightarrow> (segment_descriptor \<times> bytes) list \<Rightarrow> 's \<Rightarrow> 's" where
  "deliver K acc sink = foldl (\<lambda>s (d, p). fst (sk_segment_ready K s \<lparr>vs_descriptor = d, vs_payload = p\<rparr>)) sink acc"

definition absorbed :: "'n services \<Rightarrow> 'n codecs_v2 \<Rightarrow> validated_begin_v2 \<Rightarrow> mac_key
    \<Rightarrow> (segment_descriptor \<times> bytes) list \<Rightarrow> 's atomic_receiver \<Rightarrow> bool" where
  "absorbed S V b key acc r \<longleftrightarrow> ar_begin r = b \<and> ar_key r = key \<and> ar_next r = length acc
     \<and> (\<forall>(d, p) \<in> set acc. payload_ok S d p \<and> is_ok (canonical_json S (cv_segment V) d))
     \<and> ar_descriptor_hash r = descriptor_bytes S V (map fst acc) \<and> ar_payload_hash r = concat (map snd acc)
     \<and> unat (ar_total r) = length (concat (map snd acc))
     \<and> ar_seen_components r = sg_component_id ` fst ` set acc"

definition in_order :: "validated_begin_v2 \<Rightarrow> (segment_descriptor \<times> bytes) list \<Rightarrow> segment_ranges \<Rightarrow> bool" where
  "in_order b acc ranges \<longleftrightarrow>
     (if b2_deferred_segments (vb_manifest b)
      then b2_segments (vb_manifest b) = [] \<and> sound_segments (component_ids (vb_manifest b)) (map fst acc) \<and> records ranges (map fst acc)
      else length acc \<le> length (b2_segments (vb_manifest b)) \<and> map fst acc = take (length acc) (b2_segments (vb_manifest b)))"

definition streamed :: "'n services \<Rightarrow> 'n codecs_v2 \<Rightarrow> validated_begin_v2 \<Rightarrow> mac_key
    \<Rightarrow> (segment_descriptor \<times> bytes) list \<Rightarrow> 's atomic_receiver \<Rightarrow> bool" where
  "streamed S V b key acc r \<longleftrightarrow> absorbed S V b key acc r \<and> in_order b acc (ar_deferred_ranges r)"

definition session :: "'n services \<Rightarrow> 'n codecs_v2 \<Rightarrow> 's sink_v2 \<Rightarrow> validated_begin_v2 \<Rightarrow> mac_key \<Rightarrow> 's
    \<Rightarrow> (segment_descriptor \<times> bytes) list \<Rightarrow> 's atomic_receiver \<Rightarrow> bool" where
  "session S V K b key sink acc r \<longleftrightarrow>
     (case ar_state r of
        Receiving \<Rightarrow> streamed S V b key acc r \<and> ar_sink r = deliver K acc sink
      | Prepared \<Rightarrow> streamed S V b key acc r \<and> (\<exists>seal. seal_matches S V r seal \<and> ar_sink r = fst (sk_prepare_commit K (deliver K acc sink) seal))
      | Committed \<Rightarrow> streamed S V b key acc r \<and> (\<exists>seal. seal_matches S V r seal
          \<and> ar_sink r = fst (sk_commit K (fst (sk_prepare_commit K (deliver K acc sink) seal))))
      | Aborted \<Rightarrow> True)"

lemma seal_matches_cong:
  assumes "ar_begin r' = ar_begin r" "ar_next r' = ar_next r" "ar_seen_components r' = ar_seen_components r"
    "ar_descriptor_hash r' = ar_descriptor_hash r" "ar_payload_hash r' = ar_payload_hash r" "ar_total r' = ar_total r" "ar_key r' = ar_key r"
  shows "seal_matches S V r' seal = seal_matches S V r seal"
  using assms by (simp add: seal_matches_def)

lemma absorbed_accept:
  assumes step: "accept_segment S V K r d p = (r', res)" and st: "ar_state r = Receiving"
    and abs: "absorbed S V b key acc r" and sink: "ar_sink r = deliver K acc sink"
    and fits: "length (concat (map snd acc)) + length p < 2 ^ 64"
  obtains (ok) "res = Inr ()" "ar_state r' = Receiving" "absorbed S V b key (acc @ [(d, p)]) r'"
      "ar_sink r' = deliver K (acc @ [(d, p)]) sink" "ar_deferred_ranges r' = ar_deferred_ranges r"
  | (failed) e where "res = Inl e" "ar_state r' = Aborted \<or> r' = r"
  using step st
proof (cases rule: accept_segment_cases)
  case (ok json total' sink')
  have t: "unat total' = unat (ar_total r) + unat (sg_byte_len d)" using ok(4) by (simp add: ok_iff)
  have "unat (of_nat (length p) :: u64) = length p" using fits by (simp add: unat_of_nat)
  then have "unat (sg_byte_len d) = length p" using ok(2) by (simp add: payload_ok_def)
  then have "absorbed S V b key (acc @ [(d, p)]) r'"
    using abs t ok by (auto simp: absorbed_def descriptor_bytes_def is_ok_def)
  then show thesis using that(1) ok sink st by (simp add: deliver_def)
next
  case (aborted e)
  then show thesis using that(2) by blast
next
  case (canonical e)
  then show thesis using that(2) by blast
next
  case overflow
  have "unat (of_nat (length p) :: u64) = length p" using fits by (simp add: unat_of_nat)
  then have "unat (sg_byte_len d) = length p" using overflow(2) by (simp add: payload_ok_def)
  then show thesis using overflow(3) abs fits by (auto simp: checked_add_def absorbed_def split: if_splits)
qed

lemma session_refused:
  "session S V K b key sink acc r \<Longrightarrow> ar_state r' = Aborted \<or> r' = r \<Longrightarrow> session S V K b key sink acc r'"
  by (auto simp: session_def)

lemma session_segment:
  assumes "session S V K b key sink acc r" and "length (concat (map snd acc)) + length p < 2 ^ 64"
    and "segment_ready S V K r sequence p = (r', res)"
  shows "session S V K b key sink (acc @ (if is_ok res then op_segment r (Segment sequence p) else [])) r'"
  using assms(3)
proof (cases rule: segment_ready_cases)
  case (refused e)
  then show ?thesis using session_refused [OF assms(1), of r'] by (auto simp: is_ok_def)
next
  case accept
  then have st: "absorbed S V b key acc r" "in_order b acc (ar_deferred_ranges r)" "ar_sink r = deliver K acc sink"
    using assms(1) by (simp_all add: session_def streamed_def)
  then have b: "ar_begin r = b" "ar_next r = length acc" by (simp_all add: absorbed_def)
  from accept(4,1) st(1,3) assms(2) show ?thesis
  proof (cases rule: absorbed_accept)
    case ok
    have "in_order b (acc @ [(b2_segments (vb_manifest b) ! length acc, p)]) (ar_deferred_ranges r')"
      using st(2) accept(2) b by (auto simp: in_order_def take_Suc_conv_app_nth)
    then show ?thesis using ok b by (simp add: session_def streamed_def is_ok_def)
  next
    case (failed e)
    then show ?thesis using session_refused [OF assms(1), of r'] by (auto simp: is_ok_def)
  qed
qed

lemma session_deferred:
  assumes "session S V K b key sink acc r" and "length (concat (map snd acc)) + length p < 2 ^ 64"
    and "segment_ready_deferred S V K r d p = (r', res)"
  shows "session S V K b key sink (acc @ (if is_ok res then [(d, p)] else [])) r'"
  using assms(3)
proof (cases rule: segment_ready_deferred_cases)
  case (refused e)
  then show ?thesis using session_refused [OF assms(1), of r'] by (auto simp: is_ok_def)
next
  case (accept ranges)
  then have st: "absorbed S V b key acc r" "in_order b acc (ar_deferred_ranges r)" "ar_sink r = deliver K acc sink"
    using assms(1) by (simp_all add: session_def streamed_def)
  then have b: "ar_begin r = b" "ar_next r = length acc" by (simp_all add: absorbed_def)
  have order: "b2_segments (vb_manifest b) = []" "sound_segments (component_ids (vb_manifest b)) (map fst acc)"
    "records (ar_deferred_ranges r) (map fst acc)"
    using st(2) accept(2) b by (simp_all add: in_order_def)
  have seq: "unat (sg_sequence d) = length (map fst acc)" using accept(3) b by simp
  note sound = sound_segments_snoc [OF order(2,3) seq accept(4) [unfolded b(1)]]
  let ?r = "r\<lparr>ar_deferred_ranges := ranges\<rparr>"
  have "absorbed S V b key acc ?r" "ar_sink ?r = deliver K acc sink" "ar_state ?r = Receiving"
    using st(1,3) accept(1) by (simp_all add: absorbed_def)
  from accept(5) this(3,1,2) assms(2) show ?thesis
  proof (cases rule: absorbed_accept)
    case ok
    then show ?thesis using sound order(1) accept(2) b by (simp add: session_def streamed_def in_order_def is_ok_def)
  next
    case (failed e)
    have "session S V K b key sink acc ?r"
      using st sound(2) order accept(1,2) b by (simp add: session_def streamed_def absorbed_def in_order_def records_def)
    with failed session_refused [of S V K b key sink acc ?r r'] show ?thesis by (auto simp: is_ok_def)
  qed
qed

lemma session_step:
  assumes "session S V K b key sink acc r" and "length (concat (map snd acc)) + op_bytes op < 2 ^ 64"
    and "receiver_step S V K r op = (r', res)"
  shows "session S V K b key sink (acc @ (if is_ok res then op_segment r op else [])) r'"
proof (cases op)
  case (Segment sequence p)
  then show ?thesis using session_segment [OF assms(1), of p sequence r' res] assms(2,3) by (simp split: if_splits)
next
  case (Deferred d p)
  then show ?thesis using session_deferred [OF assms(1), of p d r' res] assms(2,3) by (simp split: if_splits)
next
  case (Prepare seal)
  with assms(3) have "prepare_commit S V K r seal = (r', res)" by simp
  then have "session S V K b key sink acc r'"
  proof (cases rule: prepare_commit_cases)
    case (ok sink')
    have "seal_matches S V r' seal = seal_matches S V r seal" by (rule seal_matches_cong) (simp_all add: ok)
    then show ?thesis using ok assms(1) by (auto simp: session_def streamed_def absorbed_def)
  qed (use session_refused [OF assms(1)] in auto)
  then show ?thesis using Prepare by simp
next
  case Commit
  obtain res' where "receiver_commit K r = (r', res')" using assms(3) Commit by (auto split: prod.splits)
  then have "session S V K b key sink acc r'"
  proof (cases rule: receiver_commit_cases)
    case (ok g sink')
    have "seal_matches S V r' seal = seal_matches S V r seal" for seal by (rule seal_matches_cong) (simp_all add: ok)
    then show ?thesis using ok assms(1) by (auto simp: session_def streamed_def absorbed_def)
  qed (use session_refused [OF assms(1)] in auto)
  then show ?thesis using Commit by simp
next
  case Abort
  then show ?thesis using assms(1,3) by (auto simp: session_def receiver_abort_def split: if_splits)
qed

lemma session_run:
  assumes "session S V K b key sink acc r" and "length (concat (map snd acc)) + offered ops < 2 ^ 64"
  shows "session S V K b key sink (acc @ accepted S V K r ops) (receiver_run S V K r ops)"
  using assms
proof (induction ops arbitrary: r acc)
  case (Cons op ops)
  obtain r' res where step: "receiver_step S V K r op = (r', res)" by fastforce
  let ?acc = "acc @ (if is_ok res then op_segment r op else [])"
  have o: "offered (op # ops) = op_bytes op + offered ops" by (simp add: offered_def)
  have "length (concat (map snd (op_segment r op))) \<le> op_bytes op" by (cases op) simp_all
  then have "length (concat (map snd ?acc)) + offered ops < 2 ^ 64" using Cons.prems(2) o by simp
  moreover have "session S V K b key sink ?acc r'" using Cons.prems o by (intro session_step [OF _ _ step]) simp_all
  ultimately show ?case using Cons.IH [of ?acc r'] step by simp
qed simp

lemma session_begin:
  assumes "receiver_begin K b key sink = Inr r" and "b2_deferred_segments (vb_manifest b) \<Longrightarrow> b2_segments (vb_manifest b) = []"
  shows "session S V K b key (fst (sk_begin K sink b)) [] r"
proof -
  obtain sink' where "sk_begin K sink b = (sink', Inr ())" using assms(1)
    by (cases "sk_begin K sink b") (auto simp: receiver_begin_def ok_iff)
  then show ?thesis using assms
    by (auto simp: receiver_begin_def session_def streamed_def absorbed_def in_order_def records_def descriptor_bytes_def deliver_def)
qed

lemma validated_begin:
  assumes "validate_begin_v2 S V m now kid ep = Inr b"
  shows "vb_manifest b = m" "b2_deferred_segments m \<Longrightarrow> b2_segments m = []" "canonical_json S (cv_begin V) m = Inr (vb_canonical b)"
    "\<exists>ids t d ranges. try_fold component_step ({}, False, False) (b2_components m) = Inr (ids, t, d) \<and> t
       \<and> try_fold (segment_step ids) (\<lambda>_. []) (enumerate 0 (b2_segments m)) = Inr ranges"
  using assms unfolding validate_begin_v2_def by (auto simp: ok_iff split: prod.splits if_splits)

text \<open>Property C7.  A receiver that has committed authenticated the whole handoff.  In declared mode it
  accepted exactly the declared segments in order; in deferred mode at least one segment, in
  sequence, within the declared geometry, without overlap, and one for every required component.
  Every payload has its declared length and digest, the seal verified under the receiver's key and
  binds the begin manifest and the digests of all descriptors and payloads, and the sink saw
  exactly these segments, then this seal, then one commit.\<close>

theorem v2_commit_authentic:
  assumes "validate_begin_v2 S V m now kid ep = Inr b" and "receiver_begin K b key sink = Inr r"
    and "offered ops < 2 ^ 64" and "ar_state (receiver_run S V K r ops) = Committed"
  shows "let acc = accepted S V K r ops in
    (if b2_deferred_segments m
     then acc \<noteq> [] \<and> sound_segments (component_ids m) (map fst acc)
       \<and> (\<forall>c \<in> set (b2_components m). cp_required c \<longrightarrow> cp_id c \<in> sg_component_id ` fst ` set acc)
     else map fst acc = b2_segments m)
    \<and> (\<forall>(d, p) \<in> set acc. payload_ok S d p)
    \<and> (\<exists>seal json. canonical_json S (cv_core V) (sm_core seal) = Inr json
        \<and> verify_hex S key json (sm_hmac_sha256 seal) = Inr ()
        \<and> s2_transfer_id (sm_core seal) = b2_transfer_id m \<and> s2_generation (sm_core seal) = b2_generation m
        \<and> s2_begin_sha256 (sm_core seal) = sha256_hex S (vb_canonical b)
        \<and> s2_descriptor_sha256 (sm_core seal) = sha256_hex S (descriptor_bytes S V (map fst acc))
        \<and> s2_payload_sha256 (sm_core seal) = sha256_hex S (concat (map snd acc))
        \<and> unat (s2_segment_count (sm_core seal)) = length acc
        \<and> unat (s2_total_bytes (sm_core seal)) = length (concat (map snd acc))
        \<and> ar_sink (receiver_run S V K r ops)
            = fst (sk_commit K (fst (sk_prepare_commit K (deliver K acc (fst (sk_begin K sink b))) seal))))"
proof -
  note vb = validated_begin [OF assms(1)]
  let ?acc = "accepted S V K r ops" and ?r = "receiver_run S V K r ops"
  have "session S V K b key (fst (sk_begin K sink b)) ([] @ ?acc) ?r"
    using assms(3) vb(2) by (intro session_run session_begin [OF assms(2)]) (simp_all add: vb(1))
  then obtain seal where st: "absorbed S V b key ?acc ?r" "in_order b ?acc (ar_deferred_ranges ?r)"
    and seal: "seal_matches S V ?r seal"
    "ar_sink ?r = fst (sk_commit K (fst (sk_prepare_commit K (deliver K ?acc (fst (sk_begin K sink b))) seal)))"
    using assms(4) by (auto simp: session_def streamed_def)
  have "ar_begin ?r = b" "ar_key ?r = key" "ar_next ?r = length ?acc" using st(1) by (simp_all add: absorbed_def)
  moreover obtain json where "canonical_json S (cv_core V) (sm_core seal) = Inr json"
    "verify_hex S (ar_key ?r) json (sm_hmac_sha256 seal) = Inr ()"
    using seal(1) by (auto simp: seal_matches_def Let_def)
  ultimately show ?thesis using st seal vb(1) unfolding Let_def
    by (intro conjI exI [of _ seal] exI [of _ json]) (auto simp: absorbed_def in_order_def seal_matches_def Let_def split: if_splits)
qed

section \<open>Errors and the live generation\<close>

lemma canonical_json_error: "canonical_json S D x = Inl e \<Longrightarrow> \<exists>message. e = Canonical message"
  by (auto simp: canonical_json_def map_canonical_def rbind_def split: sum.splits)

lemma step_error_cases:
  assumes "receiver_step S V K r op = (r', Inl e)"
  shows "ar_state r' = Aborted \<or> ar_state r' = Committed \<and> r' = r
    \<or> ar_state r' = Receiving \<and> ((\<exists>message. e = Canonical message) \<or> e = Validation ''total byte count overflow''
        \<or> e = Validation ''seal HMAC digest must be lowercase SHA-256'')"
proof -
  have accept: ?thesis if "accept_segment S V K r0 d p = (r', Inl e)" "ar_state r0 = Receiving" for r0 d p
    using that by (cases rule: accept_segment_cases) (use that(2) in \<open>auto dest: canonical_json_error\<close>)
  show ?thesis
  proof (cases op)
    case (Segment sequence p)
    with assms have "segment_ready S V K r sequence p = (r', Inl e)" by simp
    then show ?thesis by (cases rule: segment_ready_cases) (use accept in auto)
  next
    case (Deferred d p)
    with assms have "segment_ready_deferred S V K r d p = (r', Inl e)" by simp
    then show ?thesis by (cases rule: segment_ready_deferred_cases) (use accept in auto)
  next
    case (Prepare seal)
    with assms have "prepare_commit S V K r seal = (r', Inl e)" by simp
    then show ?thesis by (cases rule: prepare_commit_cases) (auto dest: canonical_json_error)
  next
    case Commit
    with assms obtain x where "receiver_commit K r = (r', x)" "\<not> is_ok x" by (auto simp: is_ok_def rbind_def split: prod.splits sum.splits)
    then show ?thesis by (cases rule: receiver_commit_cases) (auto simp: is_ok_def)
  next
    case Abort
    with assms show ?thesis by simp
  qed
qed

text \<open>Property C33.  A failing call leaves the receiver aborted (or, after a commit, unchanged), except in three
  cases where it stays open: a value that cannot be serialized, an overflowing byte count, and a
  seal whose HMAC is not lowercase hexadecimal.\<close>

theorem v2_error_aborts:
  assumes "receiver_step S V K r op = (r', Inl e)"
  shows "ar_state r' = Aborted \<or> ar_state r' = Committed \<and> r' = r
    \<or> ar_state r' = Receiving \<and> ((\<exists>message. e = Canonical message) \<or> e = Validation ''total byte count overflow''
        \<or> e = Validation ''seal HMAC digest must be lowercase SHA-256'')"
  using assms by (rule step_error_cases)

text \<open>The contract of \<^verbatim>\<open>HandoffSinkV2\<close>: only \<^verbatim>\<open>commit\<close> touches the live generation.\<close>

definition detached :: "'s sink_v2 \<Rightarrow> ('s \<Rightarrow> 'g) \<Rightarrow> bool" where
  "detached K live \<longleftrightarrow> (\<forall>s b. live (fst (sk_begin K s b)) = live s) \<and> (\<forall>s v. live (fst (sk_segment_ready K s v)) = live s)
     \<and> (\<forall>s seal. live (fst (sk_prepare_commit K s seal)) = live s) \<and> (\<forall>s. live (sk_abort K s) = live s)"

lemma abort_live: "detached K live \<Longrightarrow> live (ar_sink (receiver_abort K r)) = live (ar_sink r)"
  by (simp add: receiver_abort_def detached_def)

lemma accept_live:
  "detached K live \<Longrightarrow> live (ar_sink (fst (accept_segment S V K r d p))) = live (ar_sink r)"
proof -
  assume K: "detached K live"
  obtain sink x where k: "sk_segment_ready K (ar_sink r) \<lparr>vs_descriptor = d, vs_payload = p\<rparr> = (sink, x)" by fastforce
  with K have "live sink = live (ar_sink r)" unfolding detached_def by (metis fst_conv)
  with K k show ?thesis
    by (auto simp: accept_segment_def verify_segment_def Let_def abort_live split: sum.splits option.splits)
qed

lemma step_live:
  assumes K: "detached K live" and "op = Commit \<Longrightarrow> ar_state r \<noteq> Prepared"
  shows "live (ar_sink (fst (receiver_step S V K r op))) = live (ar_sink r)"
proof (cases op)
  case (Segment sequence p)
  then show ?thesis using accept_live [OF K] abort_live [OF K]
    by (auto simp: segment_ready_def receiver_fail_def Let_def)
next
  case (Deferred d p)
  have "live (ar_sink (fst (accept_segment S V K (r\<lparr>ar_deferred_ranges := ranges\<rparr>) d p))) = live (ar_sink r)" for ranges
    using accept_live [OF K, of S V "r\<lparr>ar_deferred_ranges := ranges\<rparr>"] by simp
  then show ?thesis using Deferred abort_live [OF K]
    by (auto simp: segment_ready_deferred_def receiver_fail_def split: sum.splits)
next
  case (Prepare seal)
  obtain sink x where k: "sk_prepare_commit K (ar_sink r) seal = (sink, x)" by fastforce
  with K have "live sink = live (ar_sink r)" unfolding detached_def by (metis fst_conv)
  then show ?thesis using Prepare k abort_live [OF K]
    by (auto simp: prepare_commit_def receiver_fail_def Let_def split: sum.splits)
next
  case Commit
  then show ?thesis using assms(2) abort_live [OF K] by (simp add: receiver_commit_def receiver_fail_def)
next
  case Abort
  then show ?thesis using abort_live [OF K] by simp
qed

text \<open>Property C13.  Atomicity.  With a sink that touches its live generation only in \<^verbatim>\<open>commit\<close>, every sequence
  of calls leaves the live generation as it was before the session, unless it contains a commit
  made when the receiver was prepared.\<close>

theorem v2_live_untouched:
  assumes "detached K live" and "receiver_begin K b key sink = Inr r"
    and "\<forall>before after. ops = before @ Commit # after \<longrightarrow> ar_state (receiver_run S V K r before) \<noteq> Prepared"
  shows "live (ar_sink (receiver_run S V K r ops)) = live sink"
proof -
  obtain sink' where "sk_begin K sink b = (sink', Inr ())" "ar_sink r = sink'" using assms(2)
    by (cases "sk_begin K sink b") (auto simp: receiver_begin_def ok_iff)
  then have start: "live (ar_sink r) = live sink" using assms(1) unfolding detached_def by (metis fst_conv)
  from assms(3) show ?thesis
  proof (induction ops rule: rev_induct)
    case (snoc op ops)
    have "op = Commit \<Longrightarrow> ar_state (receiver_run S V K r ops) \<noteq> Prepared" using snoc.prems by blast
    from step_live [OF assms(1) this] snoc show ?case by simp
  qed (simp add: start)
qed

section \<open>A signed stream commits\<close>

definition accepting :: "'s sink_v2 \<Rightarrow> bool" where
  "accepting K \<longleftrightarrow> (\<forall>s v. is_ok (snd (sk_segment_ready K s v))) \<and> (\<forall>s seal. is_ok (snd (sk_prepare_commit K s seal)))
     \<and> (\<forall>s. is_ok (snd (sk_commit K s)))"

definition stream_ops :: "begin_manifest_v2 \<Rightarrow> (segment_descriptor \<times> bytes) list \<Rightarrow> receiver_op list" where
  "stream_ops m dps = map (\<lambda>(d, p). if b2_deferred_segments m then Deferred d p else Segment (sg_sequence d) p) dps"

text \<open>The segments a producer sends: the declared ones, or a valid deferred stream that covers every
  required component.\<close>

definition valid_stream :: "begin_manifest_v2 \<Rightarrow> segment_descriptor list \<Rightarrow> bool" where
  "valid_stream m ds \<longleftrightarrow>
     (if b2_deferred_segments m
      then ds \<noteq> [] \<and> is_ok (try_fold (segment_step (component_ids m)) (\<lambda>_. []) (enumerate 0 ds))
        \<and> (\<forall>c \<in> set (b2_components m). cp_required c \<longrightarrow> cp_id c \<in> sg_component_id ` set ds)
      else ds = b2_segments m)"

lemma is_okD: "is_ok x \<Longrightarrow> \<exists>y. x = Inr y"
  by (cases x) (auto simp: is_ok_def)

lemma accept_progress:
  assumes "ar_state r = Receiving" "payload_ok S d p" "is_ok (canonical_json S (cv_segment V) d)" "accepting K"
    and "absorbed S V b key acc r" "ar_sink r = deliver K acc sink" "length (concat (map snd acc)) + length p < 2 ^ 64"
  obtains r' where "accept_segment S V K r d p = (r', Inr ())" "ar_state r' = Receiving" "absorbed S V b key (acc @ [(d, p)]) r'"
    "ar_sink r' = deliver K (acc @ [(d, p)]) sink" "ar_deferred_ranges r' = ar_deferred_ranges r"
proof -
  obtain json where json: "canonical_json S (cv_segment V) d = Inr json" using is_okD [OF assms(3)] by blast
  have v: "verify_segment S d p = Inr \<lparr>vs_descriptor = d, vs_payload = p\<rparr>"
    using assms(2) by (auto simp: verify_segment_def payload_ok_def)
  have "unat (of_nat (length p) :: u64) = length p" using assms(7) by (simp add: unat_of_nat)
  then have "unat (sg_byte_len d) = length p" using assms(2) by (simp add: payload_ok_def)
  then have "unat (ar_total r) + unat (sg_byte_len d) < 2 ^ 64" using assms(5,7) by (simp add: absorbed_def)
  then have "checked_add (ar_total r) (sg_byte_len d) = Some (ar_total r + sg_byte_len d)" by (simp add: checked_add_def)
  moreover obtain sink' where "sk_segment_ready K (ar_sink r) \<lparr>vs_descriptor = d, vs_payload = p\<rparr> = (sink', Inr ())"
    using assms(4) is_okD by (metis (full_types) accepting_def old.unit.exhaust prod.collapse)
  ultimately obtain r' where step: "accept_segment S V K r d p = (r', Inr ())"
    by (simp add: accept_segment_def v json Let_def)
  from step assms(1,5,6,7) show thesis
    by (cases rule: absorbed_accept) (use that step in auto)
qed

lemma stream_progress:
  assumes "ar_state r = Receiving" "absorbed S V b key acc r" "ar_sink r = deliver K acc sink" "accepting K"
    and "\<forall>(d, p) \<in> set dps. payload_ok S d p \<and> is_ok (canonical_json S (cv_segment V) d)"
    and "length (concat (map snd acc)) + length (concat (map snd dps)) < 2 ^ 64"
    and "if b2_deferred_segments (vb_manifest b)
      then is_ok (try_fold (segment_step (component_ids (vb_manifest b))) (ar_deferred_ranges r) (enumerate (length acc) (map fst dps)))
      else drop (length acc) (b2_segments (vb_manifest b)) = map fst dps"
  shows "\<exists>r'. receiver_run S V K r (stream_ops (vb_manifest b) dps) = r' \<and> ar_state r' = Receiving
    \<and> absorbed S V b key (acc @ dps) r' \<and> ar_sink r' = deliver K (acc @ dps) sink"
  using assms
proof (induction dps arbitrary: r acc)
  case (Cons dp dps)
  obtain d p where dp: "dp = (d, p)" by (cases dp)
  have ok: "payload_ok S d p" "is_ok (canonical_json S (cv_segment V) d)" using Cons.prems(5) dp by auto
  have fits: "length (concat (map snd acc)) + length p < 2 ^ 64" using Cons.prems(6) dp by simp
  have b: "ar_begin r = b" "ar_next r = length acc" using Cons.prems(2) by (simp_all add: absorbed_def)
  show ?case
  proof (cases "b2_deferred_segments (vb_manifest b)")
    case True
    then obtain ranges where v: "unat (sg_sequence d) = length acc"
        "validate_segment_descriptor d (component_ids (vb_manifest b)) (ar_deferred_ranges r) = Inr ranges"
      and rest: "is_ok (try_fold (segment_step (component_ids (vb_manifest b))) ranges (enumerate (Suc (length acc)) (map fst dps)))"
      using is_okD Cons.prems(7) dp by (fastforce simp: ok_iff segment_step_ok is_ok_def)
    let ?r = "r\<lparr>ar_deferred_ranges := ranges\<rparr>"
    have r: "ar_state ?r = Receiving" "absorbed S V b key acc ?r" "ar_sink ?r = deliver K acc sink"
      using Cons.prems(1-3) by (simp_all add: absorbed_def)
    obtain r' where r': "accept_segment S V K ?r d p = (r', Inr ())" "ar_state r' = Receiving" "absorbed S V b key (acc @ [(d, p)]) r'"
      "ar_sink r' = deliver K (acc @ [(d, p)]) sink" "ar_deferred_ranges r' = ranges"
      by (rule accept_progress [OF r(1) ok Cons.prems(4) r(2,3) fits]) auto
    have "fst (receiver_step S V K r (Deferred d p)) = r'"
      using True Cons.prems(1) b v r'(1) by (simp add: segment_ready_deferred_def)
    then show ?thesis using Cons.IH [OF r'(2,3,4) Cons.prems(4)] Cons.prems(5,6) rest r'(5) True dp
      by (simp add: stream_ops_def)
  next
    case False
    then have eq: "drop (length acc) (b2_segments (vb_manifest b)) = d # map fst dps" using Cons.prems(7) dp by simp
    then have lt: "length acc < length (b2_segments (vb_manifest b))" by (cases "length acc < length (b2_segments (vb_manifest b))") simp_all
    from Cons_nth_drop_Suc [OF lt] eq have nth: "b2_segments (vb_manifest b) ! length acc = d"
      and rest: "drop (Suc (length acc)) (b2_segments (vb_manifest b)) = map fst dps" by simp_all
    obtain r' where r': "accept_segment S V K r d p = (r', Inr ())" "ar_state r' = Receiving" "absorbed S V b key (acc @ [(d, p)]) r'"
      "ar_sink r' = deliver K (acc @ [(d, p)]) sink" "ar_deferred_ranges r' = ar_deferred_ranges r"
      by (rule accept_progress [OF Cons.prems(1) ok Cons.prems(4,2,3) fits])
    have "fst (receiver_step S V K r (Segment (sg_sequence d) p)) = r'"
      using Cons.prems(1) b lt nth r'(1) by (simp add: segment_ready_def)
    then show ?thesis using Cons.IH [OF r'(2,3,4) Cons.prems(4)] Cons.prems(5,6) rest False dp
      by (simp add: stream_ops_def)
  qed
qed (simp add: stream_ops_def)

lemma sign_steps:
  assumes "try_fold (sign_step S V) (dh, ph, t) (enumerate n dps) = Inr (dh', ph', t')"
  shows "(\<forall>(d, p) \<in> set dps. payload_ok S d p \<and> is_ok (canonical_json S (cv_segment V) d))
    \<and> dh' = dh @ descriptor_bytes S V (map fst dps) \<and> ph' = ph @ concat (map snd dps)
    \<and> unat t' = unat t + sum_list (map (\<lambda>(d, p). unat (sg_byte_len d)) dps)"
  using assms
proof (induction dps arbitrary: n dh ph t)
  case (Cons dp dps)
  obtain d p where dp: "dp = (d, p)" by (cases dp)
  with Cons.prems obtain json t1 where d: "payload_ok S d p" "canonical_json S (cv_segment V) d = Inr json"
      "checked_add t (sg_byte_len d) = Some t1"
    and rest: "try_fold (sign_step S V) (dh @ json, ph @ p, t1) (enumerate (Suc n) dps) = Inr (dh', ph', t')"
    unfolding sign_step_def payload_ok_def by (auto simp: rbind_eq_Inr ok_or_eq_Inr split: if_splits)
  from Cons.IH [OF rest] d dp show ?case by (auto simp: descriptor_bytes_def is_ok_def ok_iff)
qed (simp add: descriptor_bytes_def)

lemma total_bytes:
  assumes "\<forall>(d, p) \<in> set dps. payload_ok S d p" "length (concat (map snd dps)) < 2 ^ 64"
  shows "sum_list (map (\<lambda>(d, p). unat (sg_byte_len d)) dps) = length (concat (map snd dps))"
  using assms
proof (induction dps)
  case (Cons dp dps)
  obtain d p where dp: "dp = (d, p)" by (cases dp)
  have "unat (of_nat (length p) :: u64) = length p" using Cons.prems(2) dp by (simp add: unat_of_nat)
  then have "unat (sg_byte_len d) = length p" using Cons.prems(1) dp by (auto simp: payload_ok_def)
  then show ?case using Cons dp by simp
qed simp

lemma prepare_progress:
  assumes "seal_matches S V r seal" "ar_state r = Receiving" "accepting K"
  shows "ar_state (receiver_run S V K r [Prepare seal, Commit]) = Committed"
proof -
  obtain sink where k: "sk_prepare_commit K (ar_sink r) seal = (sink, Inr ())"
    using assms(3) is_okD by (metis (full_types) accepting_def old.unit.exhaust prod.collapse)
  obtain sink' g where c: "sk_commit K sink = (sink', Inr g)"
    using assms(3) is_okD by (metis accepting_def prod.collapse)
  have "prepare_commit S V K r seal = (r\<lparr>ar_sink := sink, ar_state := Prepared\<rparr>, Inr ())"
    using assms(1,2) k by (auto simp: prepare_commit_def seal_matches_def Let_def validate_hex_def list_ex_iff)
  then show ?thesis using c by (simp add: receiver_commit_def)
qed

lemma signed_stream_commits:
  assumes "validate_begin_v2 S V m now kid ep = Inr b" and "accepting K" "receiver_begin K b key sink = Inr r"
    and "hex_ok S" "digests_32 (sv_crypto S)" and "sign_seal S V b ds ps key = Inr seal"
    and "valid_stream m ds" "length (concat ps) < 2 ^ 64"
  shows "ar_state (receiver_run S V K r (stream_ops m (zip ds ps) @ [Prepare seal, Commit])) = Committed"
proof -
  note vb = validated_begin [OF assms(1)]
  obtain dh ph t json tag where len: "length ds = length ps" "length ds < 2 ^ 32"
    and run: "try_fold (sign_step S V) ([], [], 0) (enumerate 0 (zip ds ps)) = Inr (dh, ph, t)"
    and seal: "sm_core seal = \<lparr>s2_transfer_id = b2_transfer_id m, s2_generation = b2_generation m,
        s2_begin_sha256 = sha256_hex S (vb_canonical b), s2_descriptor_sha256 = sha256_hex S dh,
        s2_payload_sha256 = sha256_hex S ph, s2_segment_count = of_nat (length ds), s2_total_bytes = t\<rparr>"
      "canonical_json S (cv_core V) (sm_core seal) = Inr json" "tag_hex S key json = Inr (sm_hmac_sha256 seal)"
    using assms(6) by (auto simp: sign_seal_def Let_def ok_iff vb(1) split: prod.splits if_splits)
  have maps: "map fst (zip ds ps) = ds" "map snd (zip ds ps) = ps" using len(1) by simp_all
  note signed = sign_steps [OF run, unfolded maps]
  have b: "session S V K b key (fst (sk_begin K sink b)) [] r" using session_begin [OF assms(3)] vb(1,2) by simp
  have r: "ar_state r = Receiving" "ar_deferred_ranges r = (\<lambda>_. [])" using assms(3)
    by (cases "sk_begin K sink b"; auto simp: receiver_begin_def ok_iff)+
  have start: "absorbed S V b key [] r" "ar_sink r = deliver K [] (fst (sk_begin K sink b))"
    using b r(1) by (simp_all add: session_def streamed_def)
  have order: "if b2_deferred_segments (vb_manifest b)
      then is_ok (try_fold (segment_step (component_ids (vb_manifest b))) (ar_deferred_ranges r) (enumerate (length []) (map fst (zip ds ps))))
      else drop (length []) (b2_segments (vb_manifest b)) = map fst (zip ds ps)"
    using assms(7) unfolding valid_stream_def maps vb(1) r(2) by (auto split: if_splits)
  obtain r' where r': "receiver_run S V K r (stream_ops m (zip ds ps)) = r'" "ar_state r' = Receiving"
    "absorbed S V b key (zip ds ps) r'"
    using stream_progress [OF r(1) start assms(2) _ _ order] signed assms(8) maps vb(1) by auto
  have n: "ar_next r' = length ds" "ar_begin r' = b" "ar_key r' = key" "ar_descriptor_hash r' = dh" "ar_payload_hash r' = ph"
    "unat (ar_total r') = length (concat ps)" "ar_seen_components r' = sg_component_id ` set ds"
    using r'(3) signed len(1) maps by (simp_all add: absorbed_def flip: set_map)
  have "unat t = sum_list (map (\<lambda>(d, p). unat (sg_byte_len d)) (zip ds ps))" using signed by simp
  also have "\<dots> = length (concat ps)" using total_bytes [of "zip ds ps" S] signed assms(8) maps by auto
  finally have t: "t = ar_total r'" using n(6) by (simp add: word_unat_eq_iff)
  have hex: "valid_sha256 (sm_hmac_sha256 seal)" "verify_hex S key json (sm_hmac_sha256 seal) = Inr ()"
    using tag_verifies [OF assms(4,5) seal(3)] by simp_all
  have "seal_matches S V r' seal"
    using n t len(2) seal hex assms(7) by (auto simp: seal_matches_def vb(1) Let_def unat_of_nat valid_stream_def)
  then show ?thesis using prepare_progress [OF _ r'(2) assms(2)] r'(1) by simp
qed

text \<open>Property C8.  A producer that sends the segments of a valid stream in order, then the seal it signed
  over them with the receiver's key, then a commit, always reaches the committed state, whenever
  the sink accepts what it is given.\<close>

theorem v2_signed_stream_commits:
  assumes "validate_begin_v2 S V m now kid ep = Inr b" and "accepting K" "receiver_begin K b key sink = Inr r"
    and "hex_ok S" "digests_32 (sv_crypto S)" and "sign_seal S V b ds ps key = Inr seal"
    and "valid_stream m ds" "length (concat ps) < 2 ^ 64"
  shows "ar_state (receiver_run S V K r (stream_ops m (zip ds ps) @ [Prepare seal, Commit])) = Committed"
  using assms by (rule signed_stream_commits)

section \<open>Examples\<close>

definition sample_codecs :: "nat codecs_v2" where
  "sample_codecs = \<lparr>cv_begin = \<lparr>sd_to_value = \<lambda>_. Inr (Object [([1], Null)]), sd_from_slice = \<lambda>_. Inl []\<rparr>,
     cv_segment = \<lparr>sd_to_value = \<lambda>_. Inr (Object [([2], Null)]), sd_from_slice = \<lambda>_. Inl []\<rparr>,
     cv_core = \<lparr>sd_to_value = \<lambda>_. Inr (Object [([3], Null)]), sd_from_slice = \<lambda>_. Inl []\<rparr>\<rparr>"

text \<open>A sink with a live generation and a shadow.\<close>

definition sample_sink :: "(u64 \<times> verified_segment_v2 list) sink_v2" where
  "sample_sink = \<lparr>sk_begin = \<lambda>s _. (s, Inr ()), sk_segment_ready = \<lambda>(live, shadow) v. ((live, shadow @ [v]), Inr ()),
     sk_prepare_commit = \<lambda>s _. (s, Inr ()),
     sk_commit = \<lambda>(live, shadow). ((7, []), Inr \<lparr>cg_transfer_id = [], cg_generation = 7,
       cg_installed_segments = of_nat (length shadow), cg_installed_bytes = 0\<rparr>),
     sk_abort = \<lambda>(live, shadow). (live, [])\<rparr>"

definition sample_digest :: bytes where "sample_digest = replicate 64 97"

definition sample_component :: "bytes \<Rightarrow> component_kind \<Rightarrow> bool \<Rightarrow> component" where
  "sample_component ident kind required = \<lparr>cp_id = ident, cp_kind = kind, cp_required = required, cp_identity_sha256 = sample_digest\<rparr>"

definition sample_segment :: "bytes \<Rightarrow> segment_descriptor" where
  "sample_segment ident = \<lparr>sg_sequence = 0, sg_component_id = ident, sg_role = Auxiliary, sg_layer = None, sg_logical_start = 0,
     sg_logical_count = 1, sg_element_type = ascii ''f16_le'', sg_elements_per_token = 1, sg_byte_len = 2,
     sg_sha256 = sha256_hex sample_services [1, 2]\<rparr>"

definition sample_begin_v2 :: "bytes \<Rightarrow> begin_manifest_v2" where
  "sample_begin_v2 ident = \<lparr>b2_protocol = LIVE_HANDOFF_PROTOCOL_V2, b2_transfer_id = ascii ''t'', b2_generation = 7,
     b2_created_unix_ms = 10, b2_expires_unix_ms = 20,
     b2_identity = \<lparr>ei_adapter_sha256 = sample_digest, ei_chat_template_sha256 = sample_digest, ei_context_policy_sha256 = sample_digest,
       ei_model_revision = [], ei_model_sha256 = sample_digest, ei_tokenizer_revision = [], ei_tokenizer_sha256 = sample_digest\<rparr>,
     b2_prompt_token_ids = [1], b2_multimodal = None, b2_hmac = \<lparr>hi_key_id = ascii ''k'', hi_epoch = 2\<rparr>,
     b2_components = [sample_component (ascii ''target'') TargetKv True, sample_component (ascii ''vision'') VisionContext False],
     b2_deferred_segments = False, b2_segments = [sample_segment ident]\<rparr>"

definition sample_validated :: "bytes \<Rightarrow> validated_begin_v2" where
  "sample_validated ident = \<lparr>vb_manifest = sample_begin_v2 ident, vb_canonical = [1]\<rparr>"

definition sample_receiver :: "bytes \<Rightarrow> (u64 \<times> verified_segment_v2 list) atomic_receiver" where
  "sample_receiver ident = \<lparr>ar_begin = sample_validated ident, ar_sink = (0, []), ar_key = replicate 32 9, ar_next = 0,
     ar_deferred_ranges = (\<lambda>_. []), ar_seen_components = {}, ar_descriptor_hash = [], ar_payload_hash = [], ar_total = 0,
     ar_state = Receiving\<rparr>"

lemma sample_digests_valid: "valid_sha256 sample_digest" "valid_sha256 (sha256_hex sample_services bs)"
proof -
  show "valid_sha256 sample_digest" by (simp add: sample_digest_def valid_sha256_def list_all_iff is_lower_hex_def)
  have "length (cr_sha256 (sv_crypto sample_services) bs) = 32"
    using sample_digests by (simp add: digests_32_def sample_services_def)
  then show "valid_sha256 (sha256_hex sample_services bs)"
    using sample_hex_ok by (simp add: sha256_hex_def valid_sha256_def hex_ok_def)
qed

lemma sample_canonical:
  "canonical_json sample_services (cv_begin sample_codecs) m = Inr [1]"
  "canonical_json sample_services (cv_segment sample_codecs) d = Inr [2]"
  "canonical_json sample_services (cv_core sample_codecs) c = Inr [3]"
  by (simp_all add: canonical_json_def map_canonical_def sample_codecs_def sample_services_def)

lemma sample_begin_valid:
  assumes "ident = ascii ''target'' \<or> ident = ascii ''vision''"
  shows "validate_begin_v2 sample_services sample_codecs (sample_begin_v2 ident) 15 (ascii ''k'') 2 = Inr (sample_validated ident)"
proof -
  have "list_all is_transfer_char (ascii ''t'')" by (simp add: is_transfer_char_def ascii_def)
  moreover have "ascii ''target'' \<noteq> ascii ''vision''" "ascii ''target'' \<noteq> []" "ascii ''vision'' \<noteq> []" "ascii ''t'' \<noteq> []" "length (ascii ''t'') \<le> 128"
    by (simp_all add: ascii_def)
  ultimately show ?thesis using assms
    by (auto simp: validate_begin_v2_def sample_begin_v2_def sample_validated_def sample_digests_valid validate_hex_def
        component_step_def sample_component_def segment_step_def sample_segment_def validate_segment_descriptor_def element_width_def
        checked_mul_def checked_add_def sample_canonical)
qed

lemma sample_sink_ok: "accepting sample_sink" "detached sample_sink fst" "receiver_begin sample_sink (sample_validated ident) (replicate 32 9) (0, []) = Inr (sample_receiver ident)"
  by (auto simp: accepting_def detached_def sample_sink_def is_ok_def receiver_begin_def sample_receiver_def)

lemma sample_sign:
  "\<exists>seal. sign_seal sample_services sample_codecs (sample_validated ident) [sample_segment ident] [[1, 2]] (replicate 32 9) = Inr seal"
  by (simp add: sign_seal_def sign_step_def sample_segment_def sample_canonical checked_add_def tag_hex_def Let_def)

lemma sample_committed:
  assumes "ident = ascii ''target'' \<or> ident = ascii ''vision''"
  obtains seal where "sign_seal sample_services sample_codecs (sample_validated ident) [sample_segment ident] [[1, 2]] (replicate 32 9) = Inr seal"
    "ar_state (receiver_run sample_services sample_codecs sample_sink (sample_receiver ident) [Segment 0 [1, 2], Prepare seal, Commit]) = Committed"
proof -
  obtain seal where seal: "sign_seal sample_services sample_codecs (sample_validated ident) [sample_segment ident] [[1, 2]] (replicate 32 9) = Inr seal"
    using sample_sign by blast
  have "digests_32 (sv_crypto sample_services)" using sample_digests by (simp add: sample_services_def)
  moreover have "valid_stream (sample_begin_v2 ident) [sample_segment ident]" by (simp add: valid_stream_def sample_begin_v2_def)
  ultimately have "ar_state (receiver_run sample_services sample_codecs sample_sink (sample_receiver ident)
      (stream_ops (sample_begin_v2 ident) (zip [sample_segment ident] [[1, 2]]) @ [Prepare seal, Commit])) = Committed"
    by (intro signed_stream_commits [OF sample_begin_valid [OF assms] sample_sink_ok(1,3) sample_hex_ok _ seal]) simp_all
  with that seal show thesis by (simp add: stream_ops_def sample_begin_v2_def sample_segment_def)
qed

theorem v2_signed_stream_commits_witness:
  "\<exists>seal. ar_state (receiver_run sample_services sample_codecs sample_sink (sample_receiver (ascii ''target''))
     (stream_ops (sample_begin_v2 (ascii ''target'')) (zip [sample_segment (ascii ''target'')] [[1, 2]]) @ [Prepare seal, Commit])) = Committed"
proof -
  obtain seal where seal: "sign_seal sample_services sample_codecs (sample_validated (ascii ''target'')) [sample_segment (ascii ''target'')]
      [[1, 2]] (replicate 32 9) = Inr seal" using sample_sign by blast
  have d: "digests_32 (sv_crypto sample_services)" using sample_digests by (simp add: sample_services_def)
  have v: "valid_stream (sample_begin_v2 (ascii ''target'')) [sample_segment (ascii ''target'')]"
    by (simp add: valid_stream_def sample_begin_v2_def)
  have "validate_begin_v2 sample_services sample_codecs (sample_begin_v2 (ascii ''target'')) 15 (ascii ''k'') 2
      = Inr (sample_validated (ascii ''target''))" by (rule sample_begin_valid) simp
  from v2_signed_stream_commits [OF this sample_sink_ok(1,3) sample_hex_ok d seal v] show ?thesis
    by (intro exI [of _ seal]) simp
qed

theorem v2_commit_authentic_witness:
  "\<exists>seal. let ops = [Segment 0 [1, 2], Prepare seal, Commit];
       acc = accepted sample_services sample_codecs sample_sink (sample_receiver (ascii ''target'')) ops in
     map fst acc = [sample_segment (ascii ''target'')] \<and> (\<forall>(d, p) \<in> set acc. payload_ok sample_services d p)"
proof -
  obtain seal where "ar_state (receiver_run sample_services sample_codecs sample_sink (sample_receiver (ascii ''target''))
      [Segment 0 [1, 2], Prepare seal, Commit]) = Committed" by (rule sample_committed [of "ascii ''target''"]) simp_all
  from v2_commit_authentic [OF sample_begin_valid sample_sink_ok(3) _ this]
  show ?thesis by (intro exI [of _ seal]) (simp add: Let_def offered_def sample_begin_v2_def)
qed

theorem v2_error_aborts_witness:
  "ar_state (fst (receiver_step sample_services sample_codecs sample_sink (sample_receiver (ascii ''target'')) (Segment 1 [1, 2]))) = Aborted"
proof -
  have "receiver_step sample_services sample_codecs sample_sink (sample_receiver (ascii ''target'')) (Segment 1 [1, 2])
      = (receiver_abort sample_sink (sample_receiver (ascii ''target'')), Inl (Validation ''dropped, duplicate, or reordered segment''))"
    by (simp add: segment_ready_def sample_receiver_def sample_validated_def sample_begin_v2_def sample_segment_def receiver_fail_def)
  from v2_error_aborts [OF this] this show ?thesis by (auto simp: sample_receiver_def receiver_abort_def)
qed

theorem v2_live_untouched_witness:
  "fst (ar_sink (receiver_run sample_services sample_codecs sample_sink (sample_receiver (ascii ''target'')) [Segment 0 [1, 2], Commit])) = 0"
proof -
  have "ar_state (receiver_run sample_services sample_codecs sample_sink (sample_receiver (ascii ''target'')) [Segment 0 [1, 2]]) \<noteq> Prepared"
  proof
    assume "ar_state (receiver_run sample_services sample_codecs sample_sink (sample_receiver (ascii ''target'')) [Segment 0 [1, 2]]) = Prepared"
    then show False
      by (auto simp: segment_ready_def sample_receiver_def accept_segment_def Let_def receiver_abort_def receiver_fail_def sample_sink_def
          split: sum.splits option.splits if_splits)
  qed
  then have "\<forall>before after. [Segment 0 [1, 2], Commit] = before @ Commit # after \<longrightarrow>
      ar_state (receiver_run sample_services sample_codecs sample_sink (sample_receiver (ascii ''target'')) before) \<noteq> Prepared"
    by (auto simp: Cons_eq_append_conv)
  from v2_live_untouched [OF sample_sink_ok(2,3) this] show ?thesis by simp
qed


end
