(* ===== verification/Handoff_Manifest.thy ===== *)
theory Handoff_Manifest
  imports Handoff_V2 Half
begin

text \<open>
  The manifests of the first handoff protocol (\<^verbatim>\<open>kvpack-handoff/src/manifest.rs\<close> and
  \<^verbatim>\<open>manifest/validation.rs\<close>): the begin manifest with its layout table and walk, layer headers, the
  seal, their validation, and the byte streams that are hashed and tagged.
\<close>

section \<open>Constants and types\<close>

definition LIVE_HANDOFF_SCHEMA_V1 :: u32 where [handoff_consts]: "LIVE_HANDOFF_SCHEMA_V1 = 1"
definition LIVE_HANDOFF_PROTOCOL_V1 :: bytes where "LIVE_HANDOFF_PROTOCOL_V1 = ascii ''kvpack-live-f16-le-v1''"
definition PORTABLE_KV_ABI_V1 :: bytes where "PORTABLE_KV_ABI_V1 = ascii ''canonical-kv-f16-le-v1''"
definition PORTABLE_KV_ABI_V2 :: bytes where "PORTABLE_KV_ABI_V2 = ascii ''canonical-kv-v2''"
definition PORTABLE_KV_ABI_V2_PREROPE :: bytes where "PORTABLE_KV_ABI_V2_PREROPE = ascii ''canonical-kv-prerope-v2''"
definition WIRE_SCHEDULE_LAYER_ORDER :: bytes where "WIRE_SCHEDULE_LAYER_ORDER = ascii ''layer-order''"
definition WIRE_SCHEDULE_DECODE_PRIORITY :: bytes where "WIRE_SCHEDULE_DECODE_PRIORITY = ascii ''decode-priority''"

datatype handoff_strategy = ConsumerLastPromptToken

datatype tensor_role = Key | Value

record endpoint_identity =
  en_consumer_engine_abi :: bytes
  en_consumer_node :: bytes
  en_producer_engine_abi :: bytes
  en_producer_node :: bytes
  en_trust_domain :: bytes

record geometry =
  ge_head_dim :: u32
  ge_max_context_tokens :: u32
  ge_num_kv_heads :: u32
  ge_num_layers :: u32

record precision =
  pr_compute :: bytes
  pr_kv :: bytes
  pr_weights :: bytes

record layout_class =
  lc_class :: bytes
  lc_dtype :: bytes
  lc_except :: "u32 list"
  lc_from :: u32
  lc_head_dim :: u32
  lc_kv_heads :: u32
  lc_roles :: "tensor_role list"
  lc_step :: u32
  lc_until :: u32
  lc_window_tokens :: u32

definition layers :: "layout_class \<Rightarrow> u32 list" where
  "layers c =
     (if lc_step c = 0 \<or> lc_from c \<ge> lc_until c then []
      else let count = div_ceil (unat (lc_until c) - unat (lc_from c)) (unat (lc_step c)) in
      filter (\<lambda>layer. layer \<notin> set (lc_except c)) (map (\<lambda>i. lc_from c + of_nat i * lc_step c) [0..<count]))"

record begin_manifest =
  bm_cached_token_count :: u32
  bm_created_unix_ms :: u64
  bm_deadline_unix_ms :: u64
  bm_endpoints :: endpoint_identity
  bm_expected_layer_frames :: u32
  bm_expected_payload_bytes :: u64
  bm_geometry :: geometry
  bm_identity :: exact_identity
  bm_portable_abi :: bytes
  bm_precision :: precision
  bm_protocol :: bytes
  bm_schema_version :: u32
  bm_strategy :: handoff_strategy
  bm_token_ids_sha256 :: bytes
  bm_transfer_id :: bytes
  bm_layout_table :: "layout_class list"
  bm_schedule :: "bytes option"
  bm_hmac_key_id :: "bytes option"

record expected_plane =
  ep_class :: layout_class
  ep_layer :: u32
  ep_role :: tensor_role
  ep_range_start :: u32
  ep_range_end :: u32

record layer_header =
  lh_byte_length :: u64
  lh_layer :: u32
  lh_logical_token_end :: u32
  lh_logical_token_start :: u32
  lh_role :: tensor_role
  lh_schema_version :: u32
  lh_sequence :: u32
  lh_sha256 :: bytes
  lh_shape :: "u32 \<times> u32 \<times> u32"
  lh_transfer_id :: bytes
  lh_dtype :: "bytes option"
  lh_layout_class :: "bytes option"

record canary_record =
  cn_sample_token_start :: u32
  cn_sample_token_count :: u32
  cn_post_rope_k_sha256 :: bytes
  cn_post_rope_v_sha256 :: bytes

record seal_core =
  sc_completed_unix_ms :: u64
  sc_descriptor_chain_sha256 :: bytes
  sc_frame_count :: u32
  sc_payload_bytes :: u64
  sc_payload_sha256 :: bytes
  sc_prompt_token_ids :: "u32 list"
  sc_protocol :: bytes
  sc_schema_version :: u32
  sc_strategy :: handoff_strategy
  sc_token_ids_sha256 :: bytes
  sc_transfer_id :: bytes
  sc_canary :: "canary_record option"

record seal_manifest =
  sl_artifact_sha256 :: bytes
  sl_artifact_hmac_sha256 :: "bytes option"
  sl_core :: seal_core

record ack_manifest =
  ak_artifact_sha256 :: bytes
  ak_protocol :: bytes
  ak_schema_version :: u32
  ak_status :: bytes
  ak_transfer_id :: bytes

record abort_manifest =
  ab_code :: bytes
  ab_protocol :: bytes
  ab_schema_version :: u32
  ab_transfer_id :: bytes

record validation_limits =
  vl_max_cached_tokens :: u32
  vl_max_clock_skew_ms :: u64
  vl_max_context_tokens :: u32
  vl_max_frame_bytes :: u64
  vl_max_layers :: u32
  vl_max_session_ms :: u64
  vl_max_total_bytes :: u64
  vl_now_unix_ms :: u64

definition verify_against :: "canary_record \<Rightarrow> bytes \<Rightarrow> bytes \<Rightarrow> unit hresult" where
  "verify_against c produced_k produced_v =
     (if cn_post_rope_k_sha256 c \<noteq> produced_k \<or> cn_post_rope_v_sha256 c \<noteq> produced_v
      then Inl (Validation ''pre-RoPE canary does not match the consumer's pinned-kernel rows'') else Inr ())"

section \<open>The layout walk\<close>

definition is_v2 :: "begin_manifest \<Rightarrow> bool" where
  "is_v2 b \<longleftrightarrow> bm_layout_table b \<noteq> []"

definition is_prerope_v2 :: "begin_manifest \<Rightarrow> bool" where
  "is_prerope_v2 b \<longleftrightarrow> is_v2 b \<and> bm_portable_abi b = PORTABLE_KV_ABI_V2_PREROPE"

definition plane_element_bytes_v2 :: "begin_manifest \<Rightarrow> tensor_role \<Rightarrow> u64" where
  "plane_element_bytes_v2 b role = (if is_prerope_v2 b \<and> role = Key then 4 else 2)"

definition expected_plane_dtype_v2 :: "begin_manifest \<Rightarrow> layout_class \<Rightarrow> tensor_role \<Rightarrow> bytes" where
  "expected_plane_dtype_v2 b c role = (if is_prerope_v2 b \<and> role = Key then ascii ''float32'' else lc_dtype c)"

definition plane_payload_extension :: "begin_manifest \<Rightarrow> tensor_role \<Rightarrow> bytes" where
  "plane_payload_extension b role = (if is_prerope_v2 b \<and> role = Key then ascii ''f32le'' else ascii ''f16le'')"

definition schedule_class_order :: "begin_manifest \<Rightarrow> nat list" where
  "schedule_class_order b =
     (let order = [0..<length (bm_layout_table b)]; windowed = (\<lambda>idx. lc_window_tokens (bm_layout_table b ! idx) > 0) in
      if bm_schedule b = Some WIRE_SCHEDULE_DECODE_PRIORITY
      then filter windowed order @ filter (\<lambda>idx. \<not> windowed idx) order
      else order)"

definition class_walk :: "begin_manifest \<Rightarrow> nat \<Rightarrow> (u32 \<times> u32 \<times> tensor_role) list" where
  "class_walk b idx = (let c = bm_layout_table b ! idx in
     concat (map (\<lambda>layer. map (\<lambda>role. (of_nat idx, layer, role)) (lc_roles c)) (layers c)))"

definition layout_walk_v2 :: "begin_manifest \<Rightarrow> (u32 \<times> u32 \<times> tensor_role) list" where
  "layout_walk_v2 b = concat (map (class_walk b) (schedule_class_order b))"

definition window_of :: "begin_manifest \<Rightarrow> layout_class \<Rightarrow> u32" where
  "window_of b c = (if lc_window_tokens c = 0 then bm_cached_token_count b
     else min (lc_window_tokens c) (bm_cached_token_count b))"

definition expected_from_walk_entry :: "begin_manifest \<Rightarrow> u32 \<times> u32 \<times> tensor_role \<Rightarrow> expected_plane" where
  "expected_from_walk_entry b = (\<lambda>(class_idx, layer, role).
     let c = bm_layout_table b ! unat class_idx; window = window_of b c in
     \<lparr>ep_class = c, ep_layer = layer, ep_role = role,
      ep_range_start = (if window \<le> bm_cached_token_count b then bm_cached_token_count b - window else 0),
      ep_range_end = bm_cached_token_count b\<rparr>)"

definition outside_table :: "u32 \<Rightarrow> handoff_error" where
  "outside_table sequence = Validation (''layer frame '' @ decimal (unat sequence) @ '' is outside the declared layout table'')"

definition walk_entry :: "(u32 \<times> u32 \<times> tensor_role) list \<Rightarrow> u32 \<Rightarrow> (u32 \<times> u32 \<times> tensor_role) hresult" where
  "walk_entry walk sequence =
     (if unat sequence < length walk then Inr (walk ! unat sequence) else Inl (outside_table sequence))"

definition expected_plane_at :: "begin_manifest \<Rightarrow> u32 \<Rightarrow> expected_plane hresult" where
  "expected_plane_at b sequence =
     rbind (walk_entry (layout_walk_v2 b) sequence) (\<lambda>entry. Inr (expected_from_walk_entry b entry))"

definition size_overflow :: handoff_error where
  "size_overflow = Validation ''declared payload size overflows u64''"

text \<open>\<^verbatim>\<open>checked_mul\<close> chained with \<^verbatim>\<open>and_then\<close>.\<close>

definition checked_product_u64 :: "u64 \<Rightarrow> u64 list \<Rightarrow> u64 option" where
  "checked_product_u64 = foldl (\<lambda>acc factor. case acc of None \<Rightarrow> None | Some v \<Rightarrow> checked_mul v factor) \<circ> Some"

definition plane_byte_count :: "u32 \<Rightarrow> layout_class \<Rightarrow> u64 \<Rightarrow> u64 option" where
  "plane_byte_count window c width = checked_product_u64 (ucast window) [ucast (lc_kv_heads c), ucast (lc_head_dim c), width]"

definition count_role :: "begin_manifest \<Rightarrow> layout_class \<Rightarrow> u64 \<times> u64 \<Rightarrow> tensor_role \<Rightarrow> (u64 \<times> u64) hresult" where
  "count_role b c = (\<lambda>(frames, bytes) role.
     let nlayers = of_nat (length (layers c)) in
     rbind (ok_or (plane_byte_count (window_of b c) c (plane_element_bytes_v2 b role)) size_overflow) (\<lambda>per_plane.
     rbind (ok_or (checked_add frames nlayers) (Validation ''layer-frame count overflow'')) (\<lambda>frames'.
     rbind (ok_or (checked_mul nlayers per_plane) size_overflow) (\<lambda>added.
     rbind (ok_or (checked_add bytes added) size_overflow) (\<lambda>bytes'.
     Inr (frames', bytes'))))))"

definition v2_frame_counts :: "begin_manifest \<Rightarrow> (u32 \<times> u64) hresult" where
  "v2_frame_counts b =
     rbind (try_fold (\<lambda>acc c. try_fold (count_role b c) acc (lc_roles c)) (0, 0) (bm_layout_table b)) (\<lambda>(frames, bytes).
     if unat frames \<ge> 2 ^ 32 then Inl (Validation ''layer-frame count overflow'') else Inr (ucast frames, bytes))"

section \<open>Validation of the begin manifest\<close>

definition checked_payload_bytes :: "begin_manifest \<Rightarrow> u64 hresult" where
  "checked_payload_bytes b =
     ok_or (checked_product_u64 (ucast (ge_num_layers (bm_geometry b)))
       [2, ucast (bm_cached_token_count b), ucast (ge_num_kv_heads (bm_geometry b)), ucast (ge_head_dim (bm_geometry b)), 2])
       size_overflow"

definition valid_label :: "bytes \<Rightarrow> nat \<Rightarrow> bool" where
  "valid_label s max_len \<longleftrightarrow> s \<noteq> [] \<and> length s \<le> max_len
     \<and> list_all (\<lambda>b. 33 \<le> b \<and> b \<le> 126 \<and> b \<noteq> 92 \<and> b \<noteq> 47 \<and> b \<noteq> 34) s"

definition validate_prerope_key_plane_finite :: "bytes \<Rightarrow> unit hresult" where
  "validate_prerope_key_plane_finite payload =
     (if length payload mod 4 \<noteq> 0
      then Inl (Validation (''pre-RoPE Key plane length '' @ decimal (length payload)
        @ '' is not a multiple of the f32 element width''))
      else if list_ex (\<lambda>i. \<not> f32_is_finite (from_le_bytes (subslice payload (4 * i) (4 * i + 4)))) [0..<length payload div 4]
      then Inl (Validation ''pre-RoPE Key plane contains a non-finite (NaN/Inf) f32 element'')
      else Inr ())"

definition validate_schedule :: "begin_manifest \<Rightarrow> unit hresult" where
  "validate_schedule b =
     (case bm_schedule b of None \<Rightarrow> Inr ()
      | Some s \<Rightarrow> if s = WIRE_SCHEDULE_LAYER_ORDER \<or> s = WIRE_SCHEDULE_DECODE_PRIORITY then Inr ()
          else Inl (Validation ''layout table declares an unknown wire schedule''))"

definition invalid_class :: handoff_error where
  "invalid_class = Validation ''layout table contains an invalid layer class''"

definition validate_class :: "begin_manifest \<Rightarrow> validation_limits \<Rightarrow> u32 list \<Rightarrow> layout_class \<Rightarrow> u32 list hresult" where
  "validate_class b limits covered c =
     (if lc_step c = 0 \<or> lc_from c \<ge> lc_until c \<or> lc_until c > ge_num_layers (bm_geometry b) then Inl invalid_class
      else let max_element_bytes = (if lc_roles c = [] then 2 else Max (set (map (plane_element_bytes_v2 b) (lc_roles c)))) in
      rbind (ok_or (plane_byte_count (window_of b c) c max_element_bytes) size_overflow) (\<lambda>per_plane.
      if per_plane > vl_max_frame_bytes limits
      then Inl (Validation ''layout table class exceeds the per-frame byte bound'')
      else if length (remdups_adj (sort (lc_except c))) \<noteq> length (lc_except c)
         \<or> list_ex (\<lambda>layer. layer < lc_from c \<or> layer \<ge> lc_until c) (lc_except c)
      then Inl (Validation ''layout table contains an out-of-range or duplicate except entry'')
      else if \<not> (lc_roles c = [Key, Value] \<or> lc_class c = ascii ''mla-latent'' \<and> lc_roles c = [Key])
      then Inl (Validation ''layout table classes must declare roles [key, value]'')
      else if \<not> valid_label (lc_class c) 64 \<or> layers c = [] \<or> lc_kv_heads c = 0 \<or> lc_head_dim c = 0
         \<or> lc_dtype c \<noteq> ascii ''float16''
      then Inl invalid_class
      else Inr (covered @ layers c)))"

definition validate_layout_table :: "begin_manifest \<Rightarrow> validation_limits \<Rightarrow> unit hresult" where
  "validate_layout_table b limits =
     rbind (try_fold (validate_class b limits) [] (bm_layout_table b)) (\<lambda>covered.
     let dedup = remdups_adj (sort covered); geo = bm_geometry b in
     if length dedup \<noteq> length covered then Inl (Validation ''layout table assigns a layer to more than one class'')
     else if length dedup \<noteq> unat (ge_num_layers geo) \<or> list_ex (\<lambda>(index, layer). layer \<noteq> of_nat index) (enumerate 0 dedup)
     then Inl (Validation ''layout table must cover every declared layer exactly once'')
     else if length (bm_layout_table b) = 1
     then (if ge_num_kv_heads geo \<noteq> lc_kv_heads (bm_layout_table b ! 0) \<or> ge_head_dim geo \<noteq> lc_head_dim (bm_layout_table b ! 0)
       then Inl (Validation ''flat geometry disagrees with the single-class layout table'') else Inr ())
     else if ge_num_kv_heads geo \<noteq> 0 \<or> ge_head_dim geo \<noteq> 0
     then Inl (Validation ''multi-class layout table requires zero flat kv_heads/head_dim'')
     else Inr ())"

definition outside_bounds :: handoff_error where
  "outside_bounds = Validation ''geometry or cached-token count is outside configured bounds''"

definition declared_counts :: "begin_manifest \<Rightarrow> validation_limits \<Rightarrow> (u32 \<times> u64) hresult" where
  "declared_counts b limits =
     (if is_v2 b
      then rbind (validate_layout_table b limits) (\<lambda>_. rbind (validate_schedule b) (\<lambda>_. v2_frame_counts b))
      else if bm_schedule b \<noteq> None then Inl (Validation ''wire schedule requires a v2 layout table'')
      else if ge_num_kv_heads (bm_geometry b) = 0 \<or> ge_head_dim (bm_geometry b) = 0 then Inl outside_bounds
      else rbind (ok_or (checked_mul (ge_num_layers (bm_geometry b)) 2) (Validation ''layer-frame count overflow'')) (\<lambda>frames.
      rbind (checked_payload_bytes b) (\<lambda>bytes. Inr (frames, bytes))))"

definition saturating_add :: "'a::len word \<Rightarrow> 'a word \<Rightarrow> 'a word" where
  "saturating_add x y = (case checked_add x y of None \<Rightarrow> - 1 | Some z \<Rightarrow> z)"

definition begin_validate :: "begin_manifest \<Rightarrow> validation_limits \<Rightarrow> unit hresult" where
  "begin_validate b limits =
     (let abi_ok = (if is_v2 b then bm_portable_abi b = PORTABLE_KV_ABI_V2 \<or> bm_portable_abi b = PORTABLE_KV_ABI_V2_PREROPE
            else bm_portable_abi b = PORTABLE_KV_ABI_V1);
          geo = bm_geometry b; en = bm_endpoints b; idn = bm_identity b in
      if bm_schema_version b \<noteq> LIVE_HANDOFF_SCHEMA_V1 \<or> bm_protocol b \<noteq> LIVE_HANDOFF_PROTOCOL_V1 \<or> \<not> abi_ok
         \<or> bm_strategy b \<noteq> ConsumerLastPromptToken
      then Inl (Validation ''unsupported live handoff schema, protocol, ABI, or strategy'')
      else if bm_cached_token_count b = 0 \<or> bm_cached_token_count b > vl_max_cached_tokens limits
         \<or> ge_max_context_tokens geo > vl_max_context_tokens limits \<or> bm_cached_token_count b \<ge> ge_max_context_tokens geo
         \<or> ge_num_layers geo = 0 \<or> ge_num_layers geo > vl_max_layers limits
      then Inl outside_bounds
      else rbind (declared_counts b limits) (\<lambda>(expected_frames, expected_bytes).
      let one_frame = expected_bytes div ucast expected_frames in
      if bm_expected_layer_frames b \<noteq> expected_frames \<or> bm_expected_payload_bytes b \<noteq> expected_bytes
         \<or> expected_bytes > vl_max_total_bytes limits \<or> one_frame > vl_max_frame_bytes limits
      then Inl (Validation ''declared frame or payload bounds do not match geometry'')
      else if pr_compute (bm_precision b) \<noteq> ascii ''float16'' \<or> pr_kv (bm_precision b) \<noteq> ascii ''float16''
         \<or> pr_weights (bm_precision b) \<notin> set (map ascii [''q4_k_m'', ''q4_k_xl'', ''nvfp4'', ''mxfp4'', ''bf16''])
      then Inl (Validation ''v1 requires q4_k_m, q4_k_xl, nvfp4, mxfp4, or bf16 weights with float16 compute and KV'')
      else if list_ex (\<lambda>s. \<not> valid_label s 256)
            [en_consumer_engine_abi en, en_consumer_node en, en_producer_engine_abi en, en_producer_node en, en_trust_domain en,
             ei_model_revision idn, ei_tokenizer_revision idn]
         \<or> \<not> valid_sha256 (bm_transfer_id b) \<or> \<not> valid_sha256 (bm_token_ids_sha256 b) \<or> \<not> valid_sha256 (ei_adapter_sha256 idn)
         \<or> \<not> valid_sha256 (ei_chat_template_sha256 idn) \<or> \<not> valid_sha256 (ei_context_policy_sha256 idn)
         \<or> \<not> valid_sha256 (ei_model_sha256 idn) \<or> \<not> valid_sha256 (ei_tokenizer_sha256 idn)
         \<or> (case bm_hmac_key_id b of None \<Rightarrow> False | Some i \<Rightarrow> \<not> valid_label i 64)
      then Inl (Validation ''identity contains an invalid label or SHA-256'')
      else let latest_created = saturating_add (vl_now_unix_ms limits) (vl_max_clock_skew_ms limits) in
      rbind (ok_or (checked_add (bm_created_unix_ms b) (vl_max_session_ms limits)) (Validation ''session deadline overflow''))
        (\<lambda>latest_deadline.
      if bm_created_unix_ms b = 0 \<or> bm_created_unix_ms b > latest_created \<or> bm_deadline_unix_ms b \<le> bm_created_unix_ms b
         \<or> bm_deadline_unix_ms b > latest_deadline \<or> vl_now_unix_ms limits > bm_deadline_unix_ms b
      then Inl (Validation ''handoff creation/deadline is invalid or expired'')
      else Inr ())))"

definition default_limits :: validation_limits where
  "default_limits = \<lparr>vl_max_cached_tokens = 32767, vl_max_clock_skew_ms = 30000, vl_max_context_tokens = 32768,
     vl_max_frame_bytes = 64 * 1024 * 1024, vl_max_layers = 64, vl_max_session_ms = 15 * 60 * 1000,
     vl_max_total_bytes = 4 * 1024 * 1024 * 1024, vl_now_unix_ms = 1\<rparr>"

section \<open>Layer headers\<close>

text \<open>The division traps on zero frames; a validated begin manifest declares at least one
  (\<open>validated_frames_positive\<close> below).\<close>

definition expected_plane_bytes :: "begin_manifest \<Rightarrow> u64 hresult" where
  "expected_plane_bytes b = rbind (checked_payload_bytes b) (\<lambda>bytes. Inr (bytes div ucast (bm_expected_layer_frames b)))"

definition frame_error :: "u32 \<Rightarrow> string \<Rightarrow> handoff_error" where
  "frame_error sequence what = Validation (''layer frame '' @ decimal (unat sequence) @ what)"

definition header_validate_for_v2_expected :: "layer_header \<Rightarrow> begin_manifest \<Rightarrow> u32 \<Rightarrow> expected_plane \<Rightarrow> unit hresult" where
  "header_validate_for_v2_expected h b next_sequence e =
     rbind (ok_or (checked_sub (lh_logical_token_end h) (lh_logical_token_start h))
       (frame_error next_sequence '' has an inverted token range'')) (\<lambda>range_len.
     rbind (ok_or (plane_byte_count range_len (ep_class e) (plane_element_bytes_v2 b (ep_role e)))
       (frame_error next_sequence '' byte bound overflow'')) (\<lambda>expected_bytes.
     let expected_dtype = expected_plane_dtype_v2 b (ep_class e) (ep_role e);
         dtype_ok = (case lh_dtype h of Some tag \<Rightarrow> tag = expected_dtype | None \<Rightarrow> expected_dtype = ascii ''float16'') in
     if lh_schema_version h \<noteq> LIVE_HANDOFF_SCHEMA_V1 \<or> lh_transfer_id h \<noteq> bm_transfer_id b
        \<or> lh_sequence h \<noteq> next_sequence \<or> lh_layer h \<noteq> ep_layer e \<or> lh_role h \<noteq> ep_role e
        \<or> lh_layout_class h \<noteq> Some (lc_class (ep_class e))
        \<or> lh_logical_token_start h \<noteq> ep_range_start e \<or> lh_logical_token_end h \<noteq> ep_range_end e
        \<or> lh_shape h \<noteq> (range_len, lc_kv_heads (ep_class e), lc_head_dim (ep_class e))
        \<or> lh_byte_length h \<noteq> expected_bytes \<or> \<not> dtype_ok \<or> \<not> valid_sha256 (lh_sha256 h)
     then Inl (frame_error next_sequence '' does not match the v2 layout-table contract'')
     else Inr ()))"

definition header_validate_for_v2 :: "layer_header \<Rightarrow> begin_manifest \<Rightarrow> u32 \<Rightarrow> unit hresult" where
  "header_validate_for_v2 h b next_sequence =
     rbind (expected_plane_at b next_sequence) (header_validate_for_v2_expected h b next_sequence)"

definition header_validate_for :: "layer_header \<Rightarrow> begin_manifest \<Rightarrow> u32 \<Rightarrow> unit hresult" where
  "header_validate_for h b next_sequence =
     (if is_v2 b then header_validate_for_v2 h b next_sequence
      else let expected_layer = next_sequence div 2;
               expected_role = (if next_sequence mod 2 = 0 then Key else Value);
               mismatch = frame_error next_sequence '' does not match the ordered canonical tensor contract'' in
      if lh_schema_version h \<noteq> LIVE_HANDOFF_SCHEMA_V1 \<or> lh_transfer_id h \<noteq> bm_transfer_id b
         \<or> lh_sequence h \<noteq> next_sequence \<or> lh_layer h \<noteq> expected_layer \<or> lh_role h \<noteq> expected_role
         \<or> lh_logical_token_start h \<noteq> 0 \<or> lh_logical_token_end h \<noteq> bm_cached_token_count b
         \<or> lh_shape h \<noteq> (bm_cached_token_count b, ge_num_kv_heads (bm_geometry b), ge_head_dim (bm_geometry b))
      then Inl mismatch
      else rbind (expected_plane_bytes b) (\<lambda>bytes.
      if lh_byte_length h \<noteq> bytes \<or> \<not> valid_sha256 (lh_sha256 h) \<or> lh_dtype h \<noteq> None \<or> lh_layout_class h \<noteq> None
      then Inl mismatch else Inr ()))"

section \<open>Hashed streams and the seal\<close>

record 'n v1_serdes =
  vs_begin :: "(begin_manifest, 'n) serde"
  vs_header :: "(layer_header, 'n) serde"
  vs_core :: "(seal_core, 'n) serde"
  vs_seal :: "(seal_manifest, 'n) serde"
  vs_abort :: "(abort_manifest, 'n) serde"
  vs_ack :: "(ack_manifest, 'n) serde"

definition absorb_headers :: "'n services \<Rightarrow> 'n v1_serdes \<Rightarrow> bytes \<Rightarrow> layer_header list \<Rightarrow> bytes hresult" where
  "absorb_headers S V =
     try_fold (\<lambda>stream h. rbind (canonical_json S (vs_header V) h) (\<lambda>json. Inr (stream @ json @ [10])))"

definition descriptor_chain_sha256 :: "'n services \<Rightarrow> 'n v1_serdes \<Rightarrow> layer_header list \<Rightarrow> bytes hresult" where
  "descriptor_chain_sha256 S V headers =
     rbind (absorb_headers S V (label ''kvpack-live-descriptor-chain-v1'') headers) (\<lambda>stream. Inr (sha256_hex S stream))"

definition artifact_stream ::
  "'n services \<Rightarrow> 'n v1_serdes \<Rightarrow> bytes \<Rightarrow> begin_manifest \<Rightarrow> layer_header list \<Rightarrow> seal_core \<Rightarrow> bytes hresult" where
  "artifact_stream S V domain b headers core =
     rbind (canonical_json S (vs_begin V) b) (\<lambda>json.
     rbind (absorb_headers S V (domain @ json @ [10]) headers) (\<lambda>stream.
     rbind (canonical_json S (vs_core V) core) (\<lambda>tail. Inr (stream @ tail))))"

definition artifact_sha256 ::
  "'n services \<Rightarrow> 'n v1_serdes \<Rightarrow> begin_manifest \<Rightarrow> layer_header list \<Rightarrow> seal_core \<Rightarrow> bytes hresult" where
  "artifact_sha256 S V b headers core =
     rbind (artifact_stream S V (label ''kvpack-live-artifact-v1'') b headers core) (\<lambda>stream. Inr (sha256_hex S stream))"

definition artifact_mac_stream ::
  "'n services \<Rightarrow> 'n v1_serdes \<Rightarrow> begin_manifest \<Rightarrow> layer_header list \<Rightarrow> seal_core \<Rightarrow> bytes hresult" where
  "artifact_mac_stream S V = artifact_stream S V (label ''kvpack-live-artifact-mac-v1'')"

definition artifact_hmac_sha256 ::
  "'n services \<Rightarrow> 'n v1_serdes \<Rightarrow> begin_manifest \<Rightarrow> layer_header list \<Rightarrow> seal_core \<Rightarrow> mac_key \<Rightarrow> bytes hresult" where
  "artifact_hmac_sha256 S V b headers core key = rbind (artifact_mac_stream S V b headers core) (tag_hex S key)"

definition canary_ok :: "begin_manifest \<Rightarrow> seal_core \<Rightarrow> bool" where
  "canary_ok b core =
     (if is_prerope_v2 b
      then case sc_canary core of
          Some canary \<Rightarrow> cn_sample_token_count canary > 0
            \<and> saturating_add (cn_sample_token_start canary) (cn_sample_token_count canary) \<le> bm_cached_token_count b
            \<and> valid_sha256 (cn_post_rope_k_sha256 canary) \<and> valid_sha256 (cn_post_rope_v_sha256 canary)
        | None \<Rightarrow> False
      else sc_canary core = None)"

definition hmac_shape_ok :: "begin_manifest \<Rightarrow> seal_manifest \<Rightarrow> bool" where
  "hmac_shape_ok b seal =
     (case (bm_hmac_key_id b, sl_artifact_hmac_sha256 seal) of
        (Some _, Some tag) \<Rightarrow> valid_sha256 tag
      | (Some _, None) \<Rightarrow> False
      | (None, None) \<Rightarrow> True
      | (None, Some _) \<Rightarrow> False)"

definition seal_validate_for ::
  "'n services \<Rightarrow> 'n v1_serdes \<Rightarrow> seal_manifest \<Rightarrow> begin_manifest \<Rightarrow> layer_header list \<Rightarrow> u64 \<Rightarrow> bytes \<Rightarrow> unit hresult" where
  "seal_validate_for S V seal b headers payload_bytes payload_sha256 =
     (let core = sl_core seal;
          mismatch = Validation ''terminal seal does not authenticate the complete ordered handoff'' in
      if sc_schema_version core \<noteq> LIVE_HANDOFF_SCHEMA_V1 \<or> sc_protocol core \<noteq> LIVE_HANDOFF_PROTOCOL_V1
         \<or> sc_strategy core \<noteq> bm_strategy b \<or> sc_transfer_id core \<noteq> bm_transfer_id b
         \<or> sc_frame_count core \<noteq> bm_expected_layer_frames b \<or> unat (sc_frame_count core) \<noteq> length headers
         \<or> sc_payload_bytes core \<noteq> bm_expected_payload_bytes b \<or> sc_payload_bytes core \<noteq> payload_bytes
         \<or> sc_payload_sha256 core \<noteq> payload_sha256
      then Inl mismatch
      else rbind (descriptor_chain_sha256 S V headers) (\<lambda>chain.
      if sc_descriptor_chain_sha256 core \<noteq> chain \<or> sc_token_ids_sha256 core \<noteq> bm_token_ids_sha256 b
         \<or> sc_token_ids_sha256 core \<noteq> token_ids_sha256 S (sc_prompt_token_ids core)
         \<or> length (sc_prompt_token_ids core) \<noteq> unat (bm_cached_token_count b) + 1
         \<or> sc_completed_unix_ms core < bm_created_unix_ms b \<or> sc_completed_unix_ms core > bm_deadline_unix_ms b
      then Inl mismatch
      else rbind (artifact_sha256 S V b headers core) (\<lambda>artifact.
      if sl_artifact_sha256 seal \<noteq> artifact \<or> \<not> canary_ok b core \<or> \<not> hmac_shape_ok b seal
      then Inl mismatch else Inr ())))"

definition authenticate_hmac ::
  "'n services \<Rightarrow> 'n v1_serdes \<Rightarrow> seal_manifest \<Rightarrow> begin_manifest \<Rightarrow> layer_header list \<Rightarrow> mac_key \<Rightarrow> unit hresult" where
  "authenticate_hmac S V seal b headers key =
     rbind (ok_or (sl_artifact_hmac_sha256 seal) (Validation ''sealed artifact carries no HMAC tag to authenticate'')) (\<lambda>tag.
     rbind (artifact_mac_stream S V b headers (sl_core seal)) (\<lambda>stream. verify_hex S key stream tag))"

definition ack_committed :: "begin_manifest \<Rightarrow> seal_manifest \<Rightarrow> ack_manifest" where
  "ack_committed b seal = \<lparr>ak_artifact_sha256 = sl_artifact_sha256 seal, ak_protocol = LIVE_HANDOFF_PROTOCOL_V1,
     ak_schema_version = LIVE_HANDOFF_SCHEMA_V1, ak_status = ascii ''committed'', ak_transfer_id = bm_transfer_id b\<rparr>"

section \<open>Layers of a class\<close>

lemma sorted_remdups_adj_card:
  "sorted xs \<Longrightarrow> length (remdups_adj xs) = card (set xs)"
proof (induction xs rule: remdups_adj.induct)
  case (3 x y xs)
  then show ?case
  proof (cases "x = y")
    case False
    then have "x \<notin> set (y # xs)" using 3(3) by auto
    then show ?thesis using 3 False by simp
  qed simp
qed simp_all

lemma dedup_distinct:
  fixes xs :: "'a::linorder list"
  assumes "length (remdups_adj (sort xs)) = length xs"
  shows "distinct xs"
  using assms sorted_remdups_adj_card [of "sort xs"] by (simp add: card_distinct)

lemma class_layer_unat:
  assumes "lc_step c \<noteq> 0" "lc_from c < lc_until c"
    and "i < div_ceil (unat (lc_until c) - unat (lc_from c)) (unat (lc_step c))"
  shows "unat (lc_from c + of_nat i * lc_step c) = unat (lc_from c) + i * unat (lc_step c)"
    and "unat (lc_from c) + i * unat (lc_step c) < unat (lc_until c)"
proof -
  define n s where "n = unat (lc_until c) - unat (lc_from c)" and "s = unat (lc_step c)"
  have s: "0 < s" using assms(1) by (simp add: s_def unat_gt_0)
  have "Suc i \<le> (n + s - 1) div s" using assms(3) by (simp add: n_def s_def div_ceil_def)
  then have "Suc i * s \<le> n + s - 1" using s by (simp add: less_eq_div_iff_mult_less_eq)
  then have lt: "i * s < n" using s by simp
  then show b: "unat (lc_from c) + i * unat (lc_step c) < unat (lc_until c)" by (simp add: n_def s_def)
  have u: "unat (lc_until c) < 2 ^ 32" using unat_bound [of "lc_until c"] by simp
  have "i \<le> i * s" using s by simp
  also have "i * s < 2 ^ 32" using b u by (simp add: s_def)
  finally have i: "i < 2 ^ 32" .
  show "unat (lc_from c + of_nat i * lc_step c) = unat (lc_from c) + i * unat (lc_step c)"
    using b u i by (simp add: unat_word_ariths unat_of_nat)
qed

lemma layers_spec:
  assumes "lc_step c \<noteq> 0" "lc_from c < lc_until c"
  shows "distinct (layers c)" "\<And>l. l \<in> set (layers c) \<Longrightarrow> lc_from c \<le> l \<and> l < lc_until c \<and> l \<notin> set (lc_except c)"
proof -
  note u = class_layer_unat [OF assms]
  have s: "0 < unat (lc_step c)" using assms(1) by (simp add: unat_gt_0)
  have "inj_on (\<lambda>i. lc_from c + of_nat i * lc_step c)
      (set [0..<div_ceil (unat (lc_until c) - unat (lc_from c)) (unat (lc_step c))])"
  proof (rule inj_onI)
    fix i j
    assume ij: "i \<in> set [0..<div_ceil (unat (lc_until c) - unat (lc_from c)) (unat (lc_step c))]"
      "j \<in> set [0..<div_ceil (unat (lc_until c) - unat (lc_from c)) (unat (lc_step c))]"
      and "lc_from c + of_nat i * lc_step c = lc_from c + of_nat j * lc_step c"
    then have "unat (lc_from c) + i * unat (lc_step c) = unat (lc_from c) + j * unat (lc_step c)"
      using u(1) [of i] u(1) [of j] by auto
    then show "i = j" using s by simp
  qed
  moreover have eq: "layers c = filter (\<lambda>layer. layer \<notin> set (lc_except c)) (map (\<lambda>i. lc_from c + of_nat i * lc_step c)
      [0..<div_ceil (unat (lc_until c) - unat (lc_from c)) (unat (lc_step c))])"
    using assms by (simp add: layers_def Let_def not_le)
  ultimately show "distinct (layers c)" by (simp add: distinct_map)
  fix l assume "l \<in> set (layers c)"
  then obtain i where i: "i < div_ceil (unat (lc_until c) - unat (lc_from c)) (unat (lc_step c))"
    "l = lc_from c + of_nat i * lc_step c" and "l \<notin> set (lc_except c)"
    by (auto simp: eq)
  then show "lc_from c \<le> l \<and> l < lc_until c \<and> l \<notin> set (lc_except c)"
    using u [OF i(1)] by (simp add: word_le_nat_alt word_less_nat_alt)
qed

section \<open>What a validated layout table guarantees\<close>

definition class_ok :: "begin_manifest \<Rightarrow> layout_class \<Rightarrow> bool" where
  "class_ok b c \<longleftrightarrow> lc_step c \<noteq> 0 \<and> lc_from c < lc_until c \<and> lc_until c \<le> ge_num_layers (bm_geometry b)
     \<and> (lc_roles c = [Key, Value] \<or> lc_roles c = [Key]) \<and> layers c \<noteq> [] \<and> lc_kv_heads c \<noteq> 0 \<and> lc_head_dim c \<noteq> 0
     \<and> lc_dtype c = ascii ''float16''"

lemma validate_class_ok:
  assumes "validate_class b limits covered c = Inr covered'"
  shows "covered' = covered @ layers c" "class_ok b c"
  using assms by (auto simp: validate_class_def class_ok_def ok_iff Let_def not_le)

lemma validate_classes_ok:
  "try_fold (validate_class b limits) acc table = Inr covered \<Longrightarrow>
     covered = acc @ concat (map layers table) \<and> list_all (class_ok b) table"
proof (induction table arbitrary: acc)
  case (Cons c table)
  then obtain acc' where v: "validate_class b limits acc c = Inr acc'"
    and t: "try_fold (validate_class b limits) acc' table = Inr covered"
    by (auto simp: ok_iff)
  show ?case using Cons.IH [OF t] validate_class_ok [OF v] by simp
qed simp

lemma enumerated_words:
  assumes "\<not> list_ex (\<lambda>(index, layer). layer \<noteq> (of_nat index :: u32)) (enumerate 0 xs)"
  shows "xs = map of_nat [0..<length xs]"
proof (rule nth_equalityI)
  fix i assume i: "i < length xs"
  then have "(i, xs ! i) \<in> set (enumerate 0 xs)" by (simp add: in_set_enumerate_eq)
  then show "xs ! i = map of_nat [0..<length xs] ! i" using assms i by (auto simp: list_ex_iff)
qed simp

lemma validated_table:
  assumes "validate_layout_table b limits = Inr ()"
  shows "list_all (class_ok b) (bm_layout_table b)" "distinct (concat (map layers (bm_layout_table b)))"
    "set (concat (map layers (bm_layout_table b))) = {layer. layer < ge_num_layers (bm_geometry b)}"
proof -
  let ?cov = "concat (map layers (bm_layout_table b))" and ?n = "ge_num_layers (bm_geometry b)"
  obtain covered where c: "try_fold (validate_class b limits) [] (bm_layout_table b) = Inr covered"
    and len: "length (remdups_adj (sort covered)) = length covered" "length (remdups_adj (sort covered)) = unat ?n"
    and enum: "\<not> list_ex (\<lambda>(index, layer). layer \<noteq> (of_nat index :: u32)) (enumerate 0 (remdups_adj (sort covered)))"
    using assms by (auto simp: validate_layout_table_def ok_iff Let_def)
  note v = validate_classes_ok [OF c]
  show "list_all (class_ok b) (bm_layout_table b)" using v by simp
  show "distinct ?cov" using dedup_distinct [OF len(1)] v by simp
  have "set ?cov = set (remdups_adj (sort covered))" using v by simp
  also have "\<dots> = of_nat ` {0..<unat ?n}" by (subst enumerated_words [OF enum]) (simp add: len(2))
  also have "\<dots> = {layer. layer < ?n}"
  proof safe
    fix i assume "i \<in> {0..<unat ?n}"
    then show "(of_nat i :: u32) < ?n" using unat_bound [of ?n] by (simp add: word_less_nat_alt unat_of_nat)
  next
    fix l assume "l < ?n"
    then have "unat l \<in> {0..<unat ?n}" by (simp add: word_less_nat_alt)
    then show "l \<in> of_nat ` {0..<unat ?n}" by (intro image_eqI [of _ _ "unat l"]) simp_all
  qed
  finally show "set ?cov = {layer. layer < ?n}" .
qed

section \<open>The walk of a validated table\<close>

lemma schedule_permutes: "mset (schedule_class_order b) = mset [0..<length (bm_layout_table b)]"
  by (auto simp: schedule_class_order_def Let_def simp flip: mset_upt)

lemma walk_permutes:
  "mset (layout_walk_v2 b) = mset (concat (map (class_walk b) [0..<length (bm_layout_table b)]))"
proof -
  have "mset (concat (map (class_walk b) xs)) = sum_mset (image_mset (mset \<circ> class_walk b) (mset xs))" for xs
    by (induction xs) simp_all
  then show ?thesis unfolding layout_walk_v2_def by (simp only: schedule_permutes)
qed

lemma concat_length_bound:
  "list_all (\<lambda>xs. xs \<noteq> []) xss \<Longrightarrow> length xss \<le> length (concat xss)"
  by (induction xss) (auto simp: Suc_le_eq add_strict_increasing)

lemma table_length:
  assumes "validate_layout_table b limits = Inr ()"
  shows "length (bm_layout_table b) < 2 ^ 32"
proof -
  let ?cov = "concat (map layers (bm_layout_table b))" and ?n = "ge_num_layers (bm_geometry b)"
  note v = validated_table [OF assms]
  have "length (bm_layout_table b) \<le> length ?cov"
    using concat_length_bound [of "map layers (bm_layout_table b)"] v(1) by (auto simp: list_all_iff class_ok_def)
  also have "length ?cov = card {layer. layer < ?n}" using distinct_card [OF v(2)] v(3) by simp
  also have "\<dots> = card (unat ` {layer. layer < ?n})" 
    by (rule card_image [symmetric]) (auto intro!: inj_onI simp: word_unat_eq_iff)
  also have "\<dots> \<le> card {0..<unat ?n}" by (rule card_mono) (auto simp: word_less_nat_alt)
  also have "\<dots> < 2 ^ 32" using unat_bound [of ?n] by simp
  finally show ?thesis .
qed

text \<open>The number of bytes a walk entry stands for.\<close>

definition plane_size :: "begin_manifest \<Rightarrow> layout_class \<Rightarrow> tensor_role \<Rightarrow> nat" where
  "plane_size b c role =
     unat (window_of b c) * unat (lc_kv_heads c) * unat (lc_head_dim c) * unat (plane_element_bytes_v2 b role)"

definition entry_size :: "begin_manifest \<Rightarrow> u32 \<times> u32 \<times> tensor_role \<Rightarrow> nat" where
  "entry_size b = (\<lambda>(class_idx, layer, role). plane_size b (bm_layout_table b ! unat class_idx) role)"

lemma window_le: "window_of b c \<le> bm_cached_token_count b"
  by (simp add: window_of_def)

lemma checked_product_Some: "checked_product_u64 v vs = Some r \<Longrightarrow> unat r = unat v * prod_list (map unat vs)"
proof -
  let ?f = "\<lambda>acc factor. case acc of None \<Rightarrow> None | Some v \<Rightarrow> checked_mul v factor"
  have none: "foldl ?f None vs = None" for vs :: "u64 list" by (induction vs) simp_all
  show "checked_product_u64 v vs = Some r \<Longrightarrow> unat r = unat v * prod_list (map unat vs)"
    unfolding checked_product_u64_def comp_def
  proof (induction vs arbitrary: v)
    case (Cons x vs)
    then show ?case using none by (cases "checked_mul v x") (auto simp: ok_iff)
  qed simp
qed

lemma plane_bytes_Some:
  "plane_byte_count window c width = Some n \<Longrightarrow> unat n = unat window * unat (lc_kv_heads c) * unat (lc_head_dim c) * unat width"
  unfolding plane_byte_count_def by (drule checked_product_Some) simp

lemma count_role_Inr:
  assumes "count_role b c (frames, bytes) role = Inr (frames', bytes')" and "length (layers c) < 2 ^ 64"
  shows "unat frames' = unat frames + length (layers c)"
    "unat bytes' = unat bytes + length (layers c) * plane_size b c role"
  using assms by (auto simp: count_role_def Let_def ok_iff plane_size_def unat_of_nat dest!: plane_bytes_Some)

lemma count_roles_Inr:
  assumes "try_fold (count_role b c) (frames, bytes) roles = Inr (frames', bytes')" and "length (layers c) < 2 ^ 64"
  shows "unat frames' = unat frames + length (layers c) * length roles
    \<and> unat bytes' = unat bytes + length (layers c) * sum_list (map (plane_size b c) roles)"
  using assms(1)
proof (induction roles arbitrary: frames bytes)
  case (Cons role roles)
  then obtain f g where r: "count_role b c (frames, bytes) role = Inr (f, g)"
    and t: "try_fold (count_role b c) (f, g) roles = Inr (frames', bytes')"
    by (auto simp: ok_iff)
  show ?case using Cons.IH [OF t] count_role_Inr [OF r assms(2)] by (simp add: algebra_simps)
qed simp

lemma class_walk_totals:
  assumes "idx < 2 ^ 32"
  shows "length (class_walk b idx) = length (layers (bm_layout_table b ! idx)) * length (lc_roles (bm_layout_table b ! idx))"
    "sum_list (map (entry_size b) (class_walk b idx))
       = length (layers (bm_layout_table b ! idx))
         * sum_list (map (plane_size b (bm_layout_table b ! idx)) (lc_roles (bm_layout_table b ! idx)))"
proof -
  let ?c = "bm_layout_table b ! idx"
  have i: "unat (of_nat idx :: u32) = idx" using assms by (simp add: unat_of_nat)
  have "length (concat (map (\<lambda>layer. map (\<lambda>role. (of_nat idx :: u32, layer, role)) (lc_roles ?c)) ls))
      = length ls * length (lc_roles ?c)" for ls :: "u32 list"
    by (induction ls) simp_all
  then show "length (class_walk b idx) = length (layers ?c) * length (lc_roles ?c)"
    by (simp add: class_walk_def Let_def)
  have e: "map (entry_size b) (map (\<lambda>role. (of_nat idx, layer, role)) rs) = map (plane_size b ?c) rs" for layer rs
    by (simp add: entry_size_def i)
  have "sum_list (map (entry_size b) (concat (map (\<lambda>layer. map (\<lambda>role. (of_nat idx, layer, role)) (lc_roles ?c)) ls)))
      = length ls * sum_list (map (plane_size b ?c) (lc_roles ?c))" for ls
    by (induction ls) (simp_all add: e del: map_map)
  then show "sum_list (map (entry_size b) (class_walk b idx))
      = length (layers ?c) * sum_list (map (plane_size b ?c) (lc_roles ?c))"
    by (simp add: class_walk_def Let_def)
qed

lemma distinct_u32_length: "distinct (xs :: u32 list) \<Longrightarrow> length xs \<le> 2 ^ 32"
proof -
  assume "distinct xs"
  then have "length xs = card (unat ` set xs)"
    by (subst card_image) (auto intro!: inj_onI simp: distinct_card word_unat_eq_iff)
  also have "\<dots> \<le> card {0..<(2::nat) ^ 32}"
    using unsigned_less [where ?'b = 32] by (intro card_mono) auto
  finally show "length xs \<le> 2 ^ 32" by simp
qed

lemma count_classes_Inr:
  assumes "try_fold (\<lambda>acc c. try_fold (count_role b c) acc (lc_roles c)) (frames, bytes) cs = Inr (frames', bytes')"
    and "list_all (class_ok b) cs"
  shows "unat frames' = unat frames + sum_list (map (\<lambda>c. length (layers c) * length (lc_roles c)) cs)
    \<and> unat bytes' = unat bytes + sum_list (map (\<lambda>c. length (layers c) * sum_list (map (plane_size b c) (lc_roles c))) cs)"
  using assms
proof (induction cs arbitrary: frames bytes)
  case (Cons c cs)
  then obtain f g where r: "try_fold (count_role b c) (frames, bytes) (lc_roles c) = Inr (f, g)"
    and t: "try_fold (\<lambda>acc c. try_fold (count_role b c) acc (lc_roles c)) (f, g) cs = Inr (frames', bytes')"
    by (auto simp: ok_iff)
  have "distinct (layers c)" using Cons.prems(2) by (auto simp: class_ok_def intro: layers_spec(1))
  then have "length (layers c) < 2 ^ 64" using distinct_u32_length [of "layers c"] by simp
  from count_roles_Inr [OF r this] Cons.IH [OF t] Cons.prems(2) show ?case by simp
qed simp

lemma walk_sums:
  fixes g :: "u32 \<times> u32 \<times> tensor_role \<Rightarrow> nat"
  assumes "\<And>idx. idx < length (bm_layout_table b) \<Longrightarrow> sum_list (map g (class_walk b idx)) = h (bm_layout_table b ! idx)"
  shows "sum_list (map g (layout_walk_v2 b)) = sum_list (map h (bm_layout_table b))"
proof -
  let ?n = "length (bm_layout_table b)"
  have "sum_list (map g (layout_walk_v2 b)) = sum_mset (image_mset g (mset (layout_walk_v2 b)))"
    by (metis mset_map sum_mset_sum_list)
  also have "\<dots> = sum_list (map g (concat (map (class_walk b) [0..<?n])))"
    by (metis walk_permutes mset_map sum_mset_sum_list)
  also have "\<dots> = sum_list (map (\<lambda>idx. h (bm_layout_table b ! idx)) [0..<?n])"
  proof -
    have "sum_list (map g (concat (map (class_walk b) js))) = sum_list (map (\<lambda>idx. h (bm_layout_table b ! idx)) js)"
      if "set js \<subseteq> {..<?n}" for js
      using that by (induction js) (simp_all add: assms)
    then show ?thesis by (simp add: lessThan_atLeast0)
  qed
  also have "map (\<lambda>idx. h (bm_layout_table b ! idx)) [0..<?n] = map h (bm_layout_table b)"
    by (rule nth_equalityI) simp_all
  finally show ?thesis .
qed

lemma v2_counts_walk:
  assumes "validate_layout_table b limits = Inr ()" "v2_frame_counts b = Inr (frames, bytes)"
  shows "length (layout_walk_v2 b) = unat frames" "sum_list (map (entry_size b) (layout_walk_v2 b)) = unat bytes"
proof -
  obtain f where c: "try_fold (\<lambda>acc c. try_fold (count_role b c) acc (lc_roles c)) (0, 0) (bm_layout_table b) = Inr (f, bytes)"
    and f: "unat f < 2 ^ 32" "frames = ucast f"
    using assms(2) by (auto simp: v2_frame_counts_def ok_iff)
  have uf: "unat frames = unat f" using f by (simp add: unsigned_ucast_eq take_bit_nat_eq_self)
  note tot = count_classes_Inr [OF c validated_table(1) [OF assms(1)]]
  have idx: "idx < 2 ^ 32" if "idx < length (bm_layout_table b)" for idx
    using that table_length [OF assms(1)] by simp
  have "length (layout_walk_v2 b) = sum_list (map (\<lambda>_. 1) (layout_walk_v2 b))" by (simp add: sum_list_triv)
  also have "\<dots> = sum_list (map (\<lambda>c. length (layers c) * length (lc_roles c)) (bm_layout_table b))"
    by (rule walk_sums) (simp only: sum_list_triv class_walk_totals(1) [OF idx], simp)
  finally show "length (layout_walk_v2 b) = unat frames" using tot uf by simp
  have "sum_list (map (entry_size b) (layout_walk_v2 b))
      = sum_list (map (\<lambda>c. length (layers c) * sum_list (map (plane_size b c) (lc_roles c))) (bm_layout_table b))"
    by (rule walk_sums) (rule class_walk_totals(2) [OF idx])
  then show "sum_list (map (entry_size b) (layout_walk_v2 b)) = unat bytes" using tot by simp
qed

lemma begin_validate_counts:
  assumes "begin_validate b limits = Inr ()"
  shows "declared_counts b limits = Inr (bm_expected_layer_frames b, bm_expected_payload_bytes b)"
    and "bm_cached_token_count b \<noteq> 0" "bm_cached_token_count b < ge_max_context_tokens (bm_geometry b)"
    and "ge_num_layers (bm_geometry b) \<noteq> 0" "bm_expected_payload_bytes b \<le> vl_max_total_bytes limits"
  using assms unfolding begin_validate_def Let_def by (auto simp: ok_iff not_le)

lemma begin_validate_v2:
  assumes "begin_validate b limits = Inr ()" "is_v2 b"
  shows "validate_layout_table b limits = Inr ()"
    "v2_frame_counts b = Inr (bm_expected_layer_frames b, bm_expected_payload_bytes b)"
  using begin_validate_counts(1) [OF assms(1)] assms(2) by (auto simp: declared_counts_def ok_iff)

lemma begin_validate_v1:
  assumes "begin_validate b limits = Inr ()" "\<not> is_v2 b"
  shows "unat (bm_expected_layer_frames b) = 2 * unat (ge_num_layers (bm_geometry b))"
    "checked_payload_bytes b = Inr (bm_expected_payload_bytes b)"
  using begin_validate_counts(1) [OF assms(1)] assms(2)
  by (auto simp: declared_counts_def ok_iff)

lemma class_walk_set:
  "(i, layer, role) \<in> set (class_walk b idx) \<longleftrightarrow>
     i = of_nat idx \<and> layer \<in> set (layers (bm_layout_table b ! idx)) \<and> role \<in> set (lc_roles (bm_layout_table b ! idx))"
  by (auto simp: class_walk_def Let_def)

lemma walk_set:
  "(i, layer, role) \<in> set (layout_walk_v2 b) \<longleftrightarrow> (\<exists>idx < length (bm_layout_table b). i = of_nat idx
     \<and> layer \<in> set (layers (bm_layout_table b ! idx)) \<and> role \<in> set (lc_roles (bm_layout_table b ! idx)))"
  using mset_eq_setD [OF walk_permutes [of b]] by (auto simp: class_walk_set)

lemma validated_frames_positive:
  assumes "begin_validate b limits = Inr ()"
  shows "bm_expected_layer_frames b \<noteq> 0"
proof (cases "is_v2 b")
  case True
  note v = begin_validate_v2 [OF assms True]
  have ne: "bm_layout_table b \<noteq> []" using True by (simp add: is_v2_def)
  then have "class_ok b (bm_layout_table b ! 0)" using validated_table(1) [OF v(1)] by (auto simp: list_all_length)
  then have "hd (layers (bm_layout_table b ! 0)) \<in> set (layers (bm_layout_table b ! 0))"
    "Key \<in> set (lc_roles (bm_layout_table b ! 0))"
    by (auto simp: class_ok_def)
  then have "(of_nat 0, hd (layers (bm_layout_table b ! 0)), Key) \<in> set (layout_walk_v2 b)" using ne by (auto simp: walk_set)
  then have "0 < length (layout_walk_v2 b)" by (auto intro: length_pos_if_in_set)
  then show ?thesis using v2_counts_walk(1) [OF v] by auto
next
  case False
  then show ?thesis
    using begin_validate_v1(1) [OF assms False] begin_validate_counts(4) [OF assms] by (auto simp: word_unat_eq_iff)
qed

lemma covered_once:
  assumes "distinct (concat (map f xs))" "i < length xs" "j < length xs" "l \<in> set (f (xs ! i))" "l \<in> set (f (xs ! j))"
  shows "i = j"
proof (rule ccontr)
  assume "i \<noteq> j"
  have "disjnt (set (f (xs ! p))) (set (f (xs ! q)))" if "p < q" "q < length xs" for p q
  proof -
    have "drop p xs = xs ! p # drop (Suc p) xs" using that by (simp add: Cons_nth_drop_Suc)
    moreover have "drop (Suc p) xs ! (q - Suc p) = xs ! q" "q - Suc p < length (drop (Suc p) xs)" using that by simp_all
    then have "xs ! q \<in> set (drop (Suc p) xs)" by (metis nth_mem)
    moreover have "xs = take p xs @ drop p xs" by simp
    then have "distinct (concat (map f (drop p xs)))"
      using assms(1) by (metis concat_append distinct_append map_append)
    ultimately show ?thesis by (auto simp: disjnt_def)
  qed
  from this [of i j] this [of j i] \<open>i \<noteq> j\<close> assms(2-5) show False by (auto simp: disjnt_iff nat_neq_iff)
qed

lemma walk_layer_class:
  assumes "validate_layout_table b limits = Inr ()"
    and "(i, layer, role) \<in> set (layout_walk_v2 b)" "(j, layer, role') \<in> set (layout_walk_v2 b)"
  shows "i = j"
  using assms(2,3) covered_once [OF validated_table(2) [OF assms(1)]] by (auto simp: walk_set)

lemma class_walk_distinct:
  assumes "class_ok b (bm_layout_table b ! idx)"
  shows "distinct (class_walk b idx)"
proof -
  let ?c = "bm_layout_table b ! idx"
  have roles: "distinct (lc_roles ?c)" using assms by (auto simp: class_ok_def)
  have "distinct (concat (map (\<lambda>layer. map (\<lambda>role. (of_nat idx :: u32, layer, role)) (lc_roles ?c)) ls))"
    if "distinct ls" for ls :: "u32 list"
    using that roles by (induction ls) (auto simp: distinct_map inj_on_def)
  then show ?thesis using layers_spec(1) [of ?c] assms by (simp add: class_walk_def Let_def class_ok_def)
qed

lemma walk_distinct:
  assumes "validate_layout_table b limits = Inr ()"
  shows "distinct (layout_walk_v2 b)"
proof -
  let ?t = "bm_layout_table b"
  have small: "idx < 2 ^ 32" if "idx < length ?t" for idx using that table_length [OF assms] by simp
  have "distinct (concat (map (class_walk b) js))" if "distinct js" "set js \<subseteq> {..<length ?t}" for js
    using that
  proof (induction js)
    case (Cons j js)
    have "class_ok b (?t ! j)" using validated_table(1) [OF assms] Cons.prems by (auto simp: list_all_length)
    moreover have "set (class_walk b j) \<inter> set (class_walk b k) = {}" if "k \<in> set js" for k
    proof -
      have "(of_nat j :: u32) \<noteq> of_nat k"
        using Cons.prems that small [of j] small [of k] by (auto simp: word_unat_eq_iff unat_of_nat)
      then show ?thesis by (auto simp: class_walk_set)
    qed
    ultimately show ?case using Cons by (auto intro!: class_walk_distinct)
  qed simp
  from this [of "[0..<length ?t]"] have "distinct (concat (map (class_walk b) [0..<length ?t]))"
    by (simp add: lessThan_atLeast0)
  then show ?thesis using mset_eq_imp_distinct_iff [OF walk_permutes [of b]] by simp
qed

lemma walk_covers:
  assumes "validate_layout_table b limits = Inr ()"
  shows "(\<exists>idx. (idx, layer, Key) \<in> set (layout_walk_v2 b)) \<longleftrightarrow> layer < ge_num_layers (bm_geometry b)"
proof -
  note t = validated_table [OF assms]
  have key: "Key \<in> set (lc_roles (bm_layout_table b ! idx))" if "idx < length (bm_layout_table b)" for idx
    using t(1) that by (auto simp: list_all_length class_ok_def)
  have "layer < ge_num_layers (bm_geometry b) \<longleftrightarrow> (\<exists>c \<in> set (bm_layout_table b). layer \<in> set (layers c))"
    using t(3) by auto
  also have "\<dots> \<longleftrightarrow> (\<exists>idx < length (bm_layout_table b). layer \<in> set (layers (bm_layout_table b ! idx)))"
    by (metis in_set_conv_nth)
  also have "\<dots> \<longleftrightarrow> (\<exists>idx. (idx, layer, Key) \<in> set (layout_walk_v2 b))"
    unfolding walk_set using key by blast
  finally show ?thesis by simp
qed

lemma schedule_irrelevant: "mset (layout_walk_v2 (b\<lparr>bm_schedule := schedule\<rparr>)) = mset (layout_walk_v2 b)"
proof -
  have "class_walk (b\<lparr>bm_schedule := schedule\<rparr>) = class_walk b" by (rule ext) (simp add: class_walk_def)
  then show ?thesis by (simp add: walk_permutes)
qed

text \<open>Property C16.  A begin manifest with a layout table that passes validation describes a stream that is
  complete and exactly as large as declared.  The walk is as long as the declared frame count, its
  planes add up to the declared payload bytes, no entry repeats, each layer below the layer count
  has a key plane, no other layer occurs, and a layer belongs to one class only.  The schedule does
  not change which planes are sent.\<close>

theorem v1_walk_complete:
  assumes "begin_validate b limits = Inr ()" "is_v2 b"
  shows "length (layout_walk_v2 b) = unat (bm_expected_layer_frames b)
    \<and> sum_list (map (entry_size b) (layout_walk_v2 b)) = unat (bm_expected_payload_bytes b)
    \<and> distinct (layout_walk_v2 b)
    \<and> (\<forall>layer. (\<exists>idx. (idx, layer, Key) \<in> set (layout_walk_v2 b)) \<longleftrightarrow> layer < ge_num_layers (bm_geometry b))
    \<and> (\<forall>layer i j role role'. (i, layer, role) \<in> set (layout_walk_v2 b) \<longrightarrow> (j, layer, role') \<in> set (layout_walk_v2 b) \<longrightarrow> i = j)
    \<and> mset (layout_walk_v2 (b\<lparr>bm_schedule := schedule\<rparr>)) = mset (layout_walk_v2 b)"
  using v2_counts_walk [OF begin_validate_v2 [OF assms]] walk_distinct [OF begin_validate_v2(1) [OF assms]]
    walk_covers [OF begin_validate_v2(1) [OF assms]] walk_layer_class [OF begin_validate_v2(1) [OF assms]]
    schedule_irrelevant [of schedule b]
  by blast

section \<open>An example manifest\<close>

definition sample_class :: "string \<Rightarrow> u32 \<Rightarrow> u32 \<Rightarrow> layout_class" where
  "sample_class name from window = \<lparr>lc_class = ascii name, lc_dtype = ascii ''float16'', lc_except = [], lc_from = from,
     lc_head_dim = 2, lc_kv_heads = 1, lc_roles = [Key, Value], lc_step = 1, lc_until = from + 1, lc_window_tokens = window\<rparr>"

definition sample_hex_id :: "byte \<Rightarrow> bytes" where "sample_hex_id b = replicate 64 b"

definition sample_begin_v1 :: begin_manifest where
  "sample_begin_v1 = \<lparr>bm_cached_token_count = 2, bm_created_unix_ms = 100, bm_deadline_unix_ms = 200,
     bm_endpoints = \<lparr>en_consumer_engine_abi = ascii ''e1'', en_consumer_node = ascii ''n1'', en_producer_engine_abi = ascii ''e2'',
       en_producer_node = ascii ''n2'', en_trust_domain = ascii ''lab''\<rparr>,
     bm_expected_layer_frames = 4, bm_expected_payload_bytes = 36,
     bm_geometry = \<lparr>ge_head_dim = 0, ge_max_context_tokens = 8, ge_num_kv_heads = 0, ge_num_layers = 2\<rparr>,
     bm_identity = \<lparr>ei_adapter_sha256 = sample_hex_id 48, ei_chat_template_sha256 = sample_hex_id 49,
       ei_context_policy_sha256 = sample_hex_id 50, ei_model_revision = ascii ''r1'', ei_model_sha256 = sample_hex_id 51,
       ei_tokenizer_revision = ascii ''r2'', ei_tokenizer_sha256 = sample_hex_id 52\<rparr>,
     bm_portable_abi = PORTABLE_KV_ABI_V2_PREROPE,
     bm_precision = \<lparr>pr_compute = ascii ''float16'', pr_kv = ascii ''float16'', pr_weights = ascii ''bf16''\<rparr>,
     bm_protocol = LIVE_HANDOFF_PROTOCOL_V1, bm_schema_version = LIVE_HANDOFF_SCHEMA_V1,
     bm_strategy = ConsumerLastPromptToken, bm_token_ids_sha256 = token_ids_sha256 sample_services [7, 8, 9],
     bm_transfer_id = sample_hex_id 53,
     bm_layout_table = [sample_class ''full'' 0 0, sample_class ''swa'' 1 1],
     bm_schedule = Some WIRE_SCHEDULE_DECODE_PRIORITY, bm_hmac_key_id = Some (ascii ''k'')\<rparr>"

definition sample_limits :: validation_limits where
  "sample_limits = default_limits\<lparr>vl_now_unix_ms := 100\<rparr>"

lemma sample_ids: "valid_sha256 (sample_hex_id 48)" "valid_sha256 (sample_hex_id 49)" "valid_sha256 (sample_hex_id 50)"
  "valid_sha256 (sample_hex_id 51)" "valid_sha256 (sample_hex_id 52)" "valid_sha256 (sample_hex_id 53)"
  by (simp_all add: sample_hex_id_def valid_sha256_def list_all_iff is_lower_hex_def)

lemma token_digest_valid:
  assumes "hex_ok S" "digests_32 (sv_crypto S)"
  shows "valid_sha256 (token_ids_sha256 S ts)" "valid_sha256 (sha256_hex S bs)"
  using assms by (auto simp: token_ids_sha256_def sha256_hex_def valid_sha256_def hex_ok_def digests_32_def sha256_def)

lemma sample_labels:
  "valid_label (ascii ''full'') 64" "valid_label (ascii ''swa'') 64" "valid_label (ascii ''k'') 64"
  "valid_label (ascii ''e1'') 256" "valid_label (ascii ''n1'') 256" "valid_label (ascii ''e2'') 256" "valid_label (ascii ''n2'') 256"
  "valid_label (ascii ''lab'') 256" "valid_label (ascii ''r1'') 256" "valid_label (ascii ''r2'') 256"
  by (simp_all add: valid_label_def ascii_def)

lemma sample_prerope: "is_v2 sample_begin_v1" "is_prerope_v2 sample_begin_v1"
  by (simp_all add: is_v2_def is_prerope_v2_def sample_begin_v1_def)

lemma two_not_le_one: "\<not> (2 :: u32) \<le> 1"
  by (simp add: word_le_nat_alt)

lemma sample_layers: "layers (sample_class name 0 window) = [0]" "layers (sample_class name 1 window) = [1]"
  by (simp_all add: layers_def sample_class_def div_ceil_def two_not_le_one)

lemma sample_element_bytes:
  "plane_element_bytes_v2 sample_begin_v1 Key = 4" "plane_element_bytes_v2 sample_begin_v1 Value = 2"
  by (simp_all add: plane_element_bytes_v2_def sample_prerope)

lemma sample_windows:
  "window_of sample_begin_v1 (sample_class name from 0) = 2" "window_of sample_begin_v1 (sample_class name from 1) = 1"
  by (simp_all add: window_of_def sample_class_def sample_begin_v1_def)

lemma sample_classes:
  "validate_class sample_begin_v1 sample_limits [] (sample_class ''full'' 0 0) = Inr [0]"
  "validate_class sample_begin_v1 sample_limits [0] (sample_class ''swa'' 1 1) = Inr [0, 1]"
proof -
  have b: "lc_roles (sample_class n f w) = [Key, Value]" "lc_except (sample_class n f w) = []" "lc_step (sample_class n f w) = 1"
    "lc_from (sample_class n f w) = f" "lc_until (sample_class n f w) = f + 1" "lc_kv_heads (sample_class n f w) = 1"
    "lc_head_dim (sample_class n f w) = 2" "lc_class (sample_class n f w) = ascii n"
    "lc_dtype (sample_class n f w) = ascii ''float16''" for n f w
    by (simp_all add: sample_class_def)
  have g: "ge_num_layers (bm_geometry sample_begin_v1) = 2" "vl_max_frame_bytes sample_limits = 67108864"
    by (simp_all add: sample_begin_v1_def sample_limits_def default_limits_def)
  show "validate_class sample_begin_v1 sample_limits [] (sample_class ''full'' 0 0) = Inr [0]"
    "validate_class sample_begin_v1 sample_limits [0] (sample_class ''swa'' 1 1) = Inr [0, 1]"
    by (simp_all add: validate_class_def b g sample_layers sample_element_bytes sample_windows plane_byte_count_def
        checked_product_u64_def checked_mul_def sample_labels max_def two_not_le_one)
qed

lemma sample_counts: "v2_frame_counts sample_begin_v1 = Inr (4, 36)"
proof -
  have t: "bm_layout_table sample_begin_v1 = [sample_class ''full'' 0 0, sample_class ''swa'' 1 1]"
    by (simp add: sample_begin_v1_def)
  have b: "lc_roles (sample_class n f w) = [Key, Value]" "lc_kv_heads (sample_class n f w) = 1"
    "lc_head_dim (sample_class n f w) = 2" for n f w
    by (simp_all add: sample_class_def)
  show ?thesis
    by (simp add: v2_frame_counts_def t b count_role_def sample_layers sample_element_bytes sample_windows plane_byte_count_def
        checked_product_u64_def checked_mul_def checked_add_def)
qed

lemma sample_table: "validate_layout_table sample_begin_v1 sample_limits = Inr ()"
proof -
  have t: "bm_layout_table sample_begin_v1 = [sample_class ''full'' 0 0, sample_class ''swa'' 1 1]"
    "bm_geometry sample_begin_v1 = \<lparr>ge_head_dim = 0, ge_max_context_tokens = 8, ge_num_kv_heads = 0, ge_num_layers = 2\<rparr>"
    by (simp_all add: sample_begin_v1_def)
  show ?thesis by (simp add: validate_layout_table_def t sample_classes Let_def)
qed

lemma sample_fields:
  "bm_cached_token_count sample_begin_v1 = 2"
  "bm_created_unix_ms sample_begin_v1 = 100"
  "bm_deadline_unix_ms sample_begin_v1 = 200"
  "bm_endpoints sample_begin_v1 = \<lparr>en_consumer_engine_abi = ascii ''e1'', en_consumer_node = ascii ''n1'', en_producer_engine_abi = ascii ''e2'', en_producer_node = ascii ''n2'', en_trust_domain = ascii ''lab''\<rparr>"
  "bm_expected_layer_frames sample_begin_v1 = 4"
  "bm_expected_payload_bytes sample_begin_v1 = 36"
  "bm_geometry sample_begin_v1 = \<lparr>ge_head_dim = 0, ge_max_context_tokens = 8, ge_num_kv_heads = 0, ge_num_layers = 2\<rparr>"
  "bm_identity sample_begin_v1 = \<lparr>ei_adapter_sha256 = sample_hex_id 48, ei_chat_template_sha256 = sample_hex_id 49, ei_context_policy_sha256 = sample_hex_id 50, ei_model_revision = ascii ''r1'', ei_model_sha256 = sample_hex_id 51, ei_tokenizer_revision = ascii ''r2'', ei_tokenizer_sha256 = sample_hex_id 52\<rparr>"
  "bm_portable_abi sample_begin_v1 = PORTABLE_KV_ABI_V2_PREROPE"
  "bm_precision sample_begin_v1 = \<lparr>pr_compute = ascii ''float16'', pr_kv = ascii ''float16'', pr_weights = ascii ''bf16''\<rparr>"
  "bm_protocol sample_begin_v1 = LIVE_HANDOFF_PROTOCOL_V1"
  "bm_schema_version sample_begin_v1 = LIVE_HANDOFF_SCHEMA_V1"
  "bm_strategy sample_begin_v1 = ConsumerLastPromptToken"
  "bm_token_ids_sha256 sample_begin_v1 = token_ids_sha256 sample_services [7, 8, 9]"
  "bm_transfer_id sample_begin_v1 = sample_hex_id 53"
  "bm_layout_table sample_begin_v1 = [sample_class ''full'' 0 0, sample_class ''swa'' 1 1]"
  "bm_schedule sample_begin_v1 = Some WIRE_SCHEDULE_DECODE_PRIORITY"
  "bm_hmac_key_id sample_begin_v1 = Some (ascii ''k'')"
  by (simp_all add: sample_begin_v1_def)

lemma sample_begin_v1_valid: "begin_validate sample_begin_v1 sample_limits = Inr ()"
proof -
  have "declared_counts sample_begin_v1 sample_limits = Inr (4, 36)"
    using sample_table sample_counts
    by (simp add: declared_counts_def sample_prerope validate_schedule_def) (simp add: sample_begin_v1_def)
  moreover have "valid_sha256 (token_ids_sha256 sample_services [7, 8, 9])"
    by (rule token_digest_valid(1) [OF sample_hex_ok]) (simp add: sample_services_def sample_digests)
  moreover have "vl_max_cached_tokens sample_limits = 32767" "vl_max_clock_skew_ms sample_limits = 30000"
    "vl_max_context_tokens sample_limits = 32768" "vl_max_frame_bytes sample_limits = 67108864" "vl_max_layers sample_limits = 64"
    "vl_max_session_ms sample_limits = 900000" "vl_max_total_bytes sample_limits = 4294967296" "vl_now_unix_ms sample_limits = 100"
    by (simp_all add: sample_limits_def default_limits_def)
  ultimately show ?thesis
    by (simp add: begin_validate_def saturating_add_def checked_add_def sample_fields sample_prerope sample_ids sample_labels)
qed

theorem v1_walk_complete_witness:
  "length (layout_walk_v2 sample_begin_v1) = 4
   \<and> sum_list (map (entry_size sample_begin_v1) (layout_walk_v2 sample_begin_v1)) = 36 \<and> distinct (layout_walk_v2 sample_begin_v1)"
  using v1_walk_complete [OF sample_begin_v1_valid sample_prerope(1), of None] by (simp add: sample_begin_v1_def)

end
