(* ===== verification/Handoff_Verify.thy ===== *)
theory Handoff_Verify
  imports Handoff_Manifest
begin

text \<open>
  The incremental verifier of the first handoff protocol (\<^verbatim>\<open>kvpack-handoff/src/verify.rs\<close>): one begin
  manifest, then the planes of the stream in order, then the seal.  A running SHA-256 is the bytes
  absorbed so far.  The theorems relate an accepted stream to the layout walk, the running hashes to
  the hashes computed from the headers, and show that a stream which follows the manifest is accepted.
\<close>

section \<open>Model\<close>

record verified_plane =
  vp_header :: layer_header
  vp_bytes :: bytes

record verified_layer_pair =
  lp_layer :: u32
  lp_key :: verified_plane
  lp_value :: "verified_plane option"

definition pair_new :: "verified_plane \<Rightarrow> verified_plane \<Rightarrow> verified_layer_pair hresult" where
  "pair_new key val =
     (if lh_layer (vp_header key) \<noteq> lh_layer (vp_header val) \<or> lh_role (vp_header key) \<noteq> Key
         \<or> lh_role (vp_header val) \<noteq> Value
         \<or> lh_sequence (vp_header val) \<noteq> saturating_add (lh_sequence (vp_header key)) 1
      then Inl (Validation ''verified layer pair is not one adjacent K-then-V pair'')
      else Inr \<lparr>lp_layer = lh_layer (vp_header key), lp_key = key, lp_value = Some val\<rparr>)"

definition pair_new_single :: "verified_plane \<Rightarrow> verified_layer_pair hresult" where
  "pair_new_single key =
     (if lh_role (vp_header key) \<noteq> Key
      then Inl (Validation ''verified single-role layer is not a key-role plane'')
      else Inr \<lparr>lp_layer = lh_layer (vp_header key), lp_key = key, lp_value = None\<rparr>)"

definition pair_canonical_bytes :: "verified_layer_pair \<Rightarrow> u64" where
  "pair_canonical_bytes p =
     (case lp_value p of None \<Rightarrow> lh_byte_length (vp_header (lp_key p))
      | Some v \<Rightarrow> saturating_add (lh_byte_length (vp_header (lp_key p))) (lh_byte_length (vp_header v)))"

record verified_seal =
  vl_seal :: seal_manifest
  vl_transfer_id :: bytes
  vl_descriptor_chain_sha256 :: bytes
  vl_payload_sha256 :: bytes

record incremental_verifier =
  iv_begin :: begin_manifest
  iv_limits :: validation_limits
  iv_layout_walk :: "(u32 \<times> u32 \<times> tensor_role) list option"
  iv_headers :: "layer_header list"
  iv_payload_bytes :: u64
  iv_payload_hash :: bytes
  iv_descriptor_hash :: bytes
  iv_artifact_prefix_hash :: bytes
  iv_sealed :: bool

definition verifier_new ::
  "'n services \<Rightarrow> 'n v1_serdes \<Rightarrow> begin_manifest \<Rightarrow> validation_limits \<Rightarrow> incremental_verifier hresult" where
  "verifier_new S V b limits =
     rbind (begin_validate b limits) (\<lambda>_.
     rbind (canonical_json S (vs_begin V) b) (\<lambda>json.
     Inr \<lparr>iv_begin = b, iv_limits = limits, iv_layout_walk = (if is_v2 b then Some (layout_walk_v2 b) else None),
       iv_headers = [], iv_payload_bytes = 0, iv_payload_hash = [],
       iv_descriptor_hash = label ''kvpack-live-descriptor-chain-v1'',
       iv_artifact_prefix_hash = label ''kvpack-live-artifact-v1'' @ json @ [10], iv_sealed = False\<rparr>))"

definition expected_layer_at :: "incremental_verifier \<Rightarrow> u32 \<Rightarrow> u32 hresult" where
  "expected_layer_at v sequence =
     rbind (ok_or (iv_layout_walk v) (Validation ''a v1 begin declares no layout walk'')) (\<lambda>walk.
     rbind (walk_entry walk sequence) (\<lambda>(_, layer, _). Inr layer))"

definition is_single_role_frame :: "incremental_verifier \<Rightarrow> u32 \<Rightarrow> bool" where
  "is_single_role_frame v sequence =
     (case iv_layout_walk v of None \<Rightarrow> False
      | Some walk \<Rightarrow> unat sequence < length walk
          \<and> length (lc_roles (bm_layout_table (iv_begin v) ! unat (fst (walk ! unat sequence)))) = 1)"

definition next_sequence :: "incremental_verifier \<Rightarrow> u32" where
  "next_sequence v = (if length (iv_headers v) < 2 ^ 32 then of_nat (length (iv_headers v)) else - 1)"

definition authenticate_seal_hmac ::
  "'n services \<Rightarrow> 'n v1_serdes \<Rightarrow> incremental_verifier \<Rightarrow> verified_seal \<Rightarrow> mac_key \<Rightarrow> unit hresult" where
  "authenticate_seal_hmac S V v verified key =
     authenticate_hmac S V (vl_seal verified) (iv_begin v) (iv_headers v) key"

definition validate_next_header :: "incremental_verifier \<Rightarrow> layer_header \<Rightarrow> unit hresult" where
  "validate_next_header v h =
     (if iv_sealed v then Inl (Validation ''cannot validate a layer header after the terminal seal'')
      else let sequence = next_sequence v in
      rbind (case iv_layout_walk v of
          Some walk \<Rightarrow> rbind (walk_entry walk sequence) (\<lambda>entry.
            header_validate_for_v2_expected h (iv_begin v) sequence (expected_from_walk_entry (iv_begin v) entry))
        | None \<Rightarrow> header_validate_for h (iv_begin v) sequence) (\<lambda>_.
      if lh_byte_length h > vl_max_frame_bytes (iv_limits v)
      then Inl (Validation ''layer descriptor exceeds the configured frame bound'') else Inr ()))"

text \<open>The checks of \<^verbatim>\<open>verify_plane\<close> before it changes the verifier, with the new byte count and the
  encoded header.\<close>

definition check_plane ::
  "'n services \<Rightarrow> 'n v1_serdes \<Rightarrow> incremental_verifier \<Rightarrow> layer_header \<Rightarrow> bytes \<Rightarrow> (u64 \<times> bytes) hresult" where
  "check_plane S V v h payload =
     (if iv_sealed v then Inl (Validation ''cannot verify a layer plane after the terminal seal'')
      else if length (iv_headers v) \<ge> 2 ^ 32 then Inl (Validation ''layer sequence exceeds u32'')
      else rbind (validate_next_header v h) (\<lambda>_.
      if lh_byte_length h > vl_max_frame_bytes (iv_limits v) \<or> length payload \<noteq> unat (lh_byte_length h)
         \<or> sha256_hex S payload \<noteq> lh_sha256 h
      then Inl (frame_error (of_nat (length (iv_headers v))) '' length or SHA-256 mismatch'')
      else rbind (if is_prerope_v2 (iv_begin v) \<and> lh_role h = Key then validate_prerope_key_plane_finite payload else Inr ()) (\<lambda>_.
      rbind (ok_or (checked_add (iv_payload_bytes v) (lh_byte_length h)) (Validation ''payload byte count overflow'')) (\<lambda>next.
      if next > vl_max_total_bytes (iv_limits v) \<or> next > bm_expected_payload_bytes (iv_begin v)
      then Inl (Validation ''received payload exceeds its declared or configured total bound'')
      else rbind (canonical_json S (vs_header V) h) (\<lambda>encoded. Inr (next, encoded))))))"

definition verify_plane ::
  "'n services \<Rightarrow> 'n v1_serdes \<Rightarrow> incremental_verifier \<Rightarrow> layer_header \<Rightarrow> bytes \<Rightarrow> verified_plane hresult \<times> incremental_verifier" where
  "verify_plane S V v h payload =
     (case check_plane S V v h payload of
        Inl e \<Rightarrow> (Inl e, v)
      | Inr (next, encoded) \<Rightarrow> (Inr \<lparr>vp_header = h, vp_bytes = payload\<rparr>,
          v\<lparr>iv_payload_hash := iv_payload_hash v @ payload, iv_descriptor_hash := iv_descriptor_hash v @ encoded @ [10],
            iv_artifact_prefix_hash := iv_artifact_prefix_hash v @ encoded @ [10], iv_payload_bytes := next,
            iv_headers := iv_headers v @ [h]\<rparr>))"

definition check_seal ::
  "'n services \<Rightarrow> 'n v1_serdes \<Rightarrow> incremental_verifier \<Rightarrow> seal_manifest \<Rightarrow> verified_seal hresult" where
  "check_seal S V v seal =
     (if iv_sealed v then Inl (Validation ''terminal seal was already verified'')
      else let payload_sha256 = sha256_hex S (iv_payload_hash v); descriptor_sha256 = sha256_hex S (iv_descriptor_hash v) in
      rbind (descriptor_chain_sha256 S V (iv_headers v)) (\<lambda>chain.
      if descriptor_sha256 \<noteq> chain
      then Inl (Validation ''incremental descriptor chain disagrees with compatibility verifier'')
      else rbind (seal_validate_for S V seal (iv_begin v) (iv_headers v) (iv_payload_bytes v) payload_sha256) (\<lambda>_.
      rbind (canonical_json S (vs_core V) (sl_core seal)) (\<lambda>core.
      let incremental_artifact = sha256_hex S (iv_artifact_prefix_hash v @ core);
          disagrees = Validation ''incremental artifact identity disagrees with terminal seal'' in
      if incremental_artifact \<noteq> sl_artifact_sha256 seal then Inl disagrees
      else rbind (artifact_sha256 S V (iv_begin v) (iv_headers v) (sl_core seal)) (\<lambda>artifact.
      if incremental_artifact \<noteq> artifact then Inl disagrees
      else Inr \<lparr>vl_seal = seal, vl_transfer_id = bm_transfer_id (iv_begin v),
        vl_descriptor_chain_sha256 = descriptor_sha256, vl_payload_sha256 = payload_sha256\<rparr>)))))"

definition verify_seal ::
  "'n services \<Rightarrow> 'n v1_serdes \<Rightarrow> incremental_verifier \<Rightarrow> seal_manifest \<Rightarrow> verified_seal hresult \<times> incremental_verifier" where
  "verify_seal S V v seal =
     (case check_seal S V v seal of Inl e \<Rightarrow> (Inl e, v) | Inr verified \<Rightarrow> (Inr verified, v\<lparr>iv_sealed := True\<rparr>))"

section \<open>Reachable verifiers\<close>

text \<open>A verifier after a sequence of calls, with the planes it accepted.  Rejected calls are steps too.\<close>

inductive verifying ::
  "'n services \<Rightarrow> 'n v1_serdes \<Rightarrow> begin_manifest \<Rightarrow> validation_limits \<Rightarrow> incremental_verifier \<Rightarrow> verified_plane list \<Rightarrow> bool"
  for S V b limits where
  start: "verifier_new S V b limits = Inr v \<Longrightarrow> verifying S V b limits v []"
| accept: "verifying S V b limits v ps \<Longrightarrow> verify_plane S V v h payload = (Inr p, v') \<Longrightarrow> verifying S V b limits v' (ps @ [p])"
| reject: "verifying S V b limits v ps \<Longrightarrow> verify_plane S V v h payload = (Inl e, v') \<Longrightarrow> verifying S V b limits v' ps"
| seal: "verifying S V b limits v ps \<Longrightarrow> verify_seal S V v s = (r, v') \<Longrightarrow> verifying S V b limits v' ps"

inductive_cases verifying_startE: "verifying S V b limits v []"

text \<open>What the next plane must be, and how large.\<close>

definition expected_walk :: "begin_manifest \<Rightarrow> (u32 \<times> tensor_role) list" where
  "expected_walk b =
     (if is_v2 b then map snd (layout_walk_v2 b)
      else map (\<lambda>i. (of_nat (i div 2), if i mod 2 = 0 then Key else Value)) [0..<unat (bm_expected_layer_frames b)])"

definition expected_size :: "begin_manifest \<Rightarrow> nat \<Rightarrow> nat" where
  "expected_size b i =
     (if is_v2 b then entry_size b (layout_walk_v2 b ! i)
      else unat (bm_expected_payload_bytes b) div unat (bm_expected_layer_frames b))"

lemma verify_plane_Inr:
  assumes "verify_plane S V v h payload = (Inr p, v')"
  obtains "next" encoded where "check_plane S V v h payload = Inr (next, encoded)" "p = \<lparr>vp_header = h, vp_bytes = payload\<rparr>"
    "v' = v\<lparr>iv_payload_hash := iv_payload_hash v @ payload, iv_descriptor_hash := iv_descriptor_hash v @ encoded @ [10],
            iv_artifact_prefix_hash := iv_artifact_prefix_hash v @ encoded @ [10], iv_payload_bytes := next,
            iv_headers := iv_headers v @ [h]\<rparr>"
  using assms by (auto simp: verify_plane_def split: sum.splits)

lemma verify_plane_Inl: "verify_plane S V v h payload = (Inl e, v') \<Longrightarrow> v' = v"
  by (auto simp: verify_plane_def split: sum.splits)

lemma verify_seal_keeps: "verify_seal S V v s = (r, v') \<Longrightarrow> v' = v \<or> v' = v\<lparr>iv_sealed := True\<rparr>"
  by (auto simp: verify_seal_def split: sum.splits)

lemma absorb_headers_snoc:
  "absorb_headers S V stream (hs @ [h]) =
     rbind (absorb_headers S V stream hs) (\<lambda>out. rbind (canonical_json S (vs_header V) h) (\<lambda>json. Inr (out @ json @ [10])))"
  unfolding absorb_headers_def try_fold_append
  by (cases "try_fold (\<lambda>stream h. rbind (canonical_json S (vs_header V) h) (\<lambda>json. Inr (stream @ json @ [10]))) stream hs";
      cases "canonical_json S (vs_header V) h") simp_all

text \<open>The running state is the state computed from the accepted planes.\<close>

definition follows_stream ::
  "'n services \<Rightarrow> 'n v1_serdes \<Rightarrow> begin_manifest \<Rightarrow> validation_limits \<Rightarrow> incremental_verifier \<Rightarrow> verified_plane list \<Rightarrow> bool" where
  "follows_stream S V b limits v ps \<longleftrightarrow>
     begin_validate b limits = Inr () \<and> iv_begin v = b \<and> iv_limits v = limits
     \<and> iv_layout_walk v = (if is_v2 b then Some (layout_walk_v2 b) else None)
     \<and> iv_headers v = map vp_header ps \<and> iv_payload_hash v = concat (map vp_bytes ps)
     \<and> unat (iv_payload_bytes v) = length (concat (map vp_bytes ps))
     \<and> iv_payload_bytes v \<le> bm_expected_payload_bytes b \<and> length ps \<le> 2 ^ 32
     \<and> absorb_headers S V (label ''kvpack-live-descriptor-chain-v1'') (map vp_header ps) = Inr (iv_descriptor_hash v)
     \<and> (\<exists>json. canonical_json S (vs_begin V) b = Inr json
         \<and> absorb_headers S V (label ''kvpack-live-artifact-v1'' @ json @ [10]) (map vp_header ps) = Inr (iv_artifact_prefix_hash v))
     \<and> (\<forall>i < length ps. header_validate_for (vp_header (ps ! i)) b (of_nat i) = Inr ()
         \<and> unat (lh_byte_length (vp_header (ps ! i))) = length (vp_bytes (ps ! i))
         \<and> sha256_hex S (vp_bytes (ps ! i)) = lh_sha256 (vp_header (ps ! i))
         \<and> (is_prerope_v2 b \<longrightarrow> lh_role (vp_header (ps ! i)) = Key
              \<longrightarrow> validate_prerope_key_plane_finite (vp_bytes (ps ! i)) = Inr ()))"

text \<open>Indexing the walk that was built once is the same as resolving the position again.\<close>

lemma validate_next_header_eq:
  assumes "follows_stream S V b limits v ps" "length ps < 2 ^ 32" "\<not> iv_sealed v"
  shows "validate_next_header v h =
    rbind (header_validate_for h b (of_nat (length ps))) (\<lambda>_.
    if lh_byte_length h > vl_max_frame_bytes limits
    then Inl (Validation ''layer descriptor exceeds the configured frame bound'') else Inr ())"
proof -
  have t: "iv_begin v = b" "iv_limits v = limits" "iv_headers v = map vp_header ps"
    "iv_layout_walk v = (if is_v2 b then Some (layout_walk_v2 b) else None)" "next_sequence v = of_nat (length ps)"
    using assms by (simp_all add: follows_stream_def next_sequence_def)
  have "(case iv_layout_walk v of
          Some walk \<Rightarrow> rbind (walk_entry walk (next_sequence v)) (\<lambda>entry.
            header_validate_for_v2_expected h (iv_begin v) (next_sequence v) (expected_from_walk_entry (iv_begin v) entry))
        | None \<Rightarrow> header_validate_for h (iv_begin v) (next_sequence v)) = header_validate_for h b (of_nat (length ps))"
    unfolding t header_validate_for_def header_validate_for_v2_def expected_plane_at_def
    by (cases "walk_entry (layout_walk_v2 b) (of_nat (length ps))") simp_all
  then show ?thesis using assms(3) unfolding validate_next_header_def Let_def by (simp add: t(2))
qed

lemma check_plane_Inr:
  assumes "follows_stream S V b limits v ps" "check_plane S V v h payload = Inr (next, encoded)"
  shows "header_validate_for h b (of_nat (length ps)) = Inr ()" "length payload = unat (lh_byte_length h)"
    "sha256_hex S payload = lh_sha256 h" "is_prerope_v2 b \<longrightarrow> lh_role h = Key \<longrightarrow> validate_prerope_key_plane_finite payload = Inr ()"
    "unat next = unat (iv_payload_bytes v) + unat (lh_byte_length h)" "next \<le> bm_expected_payload_bytes b"
    "canonical_json S (vs_header V) h = Inr encoded" "length ps < 2 ^ 32"
proof -
  have t: "iv_begin v = b" "iv_headers v = map vp_header ps" "iv_layout_walk v = (if is_v2 b then Some (layout_walk_v2 b) else None)"
    using assms(1) by (simp_all add: follows_stream_def)
  note c = assms(2) [unfolded check_plane_def Let_def t]
  show "length payload = unat (lh_byte_length h)"
    "sha256_hex S payload = lh_sha256 h" "unat next = unat (iv_payload_bytes v) + unat (lh_byte_length h)"
    "next \<le> bm_expected_payload_bytes b" "canonical_json S (vs_header V) h = Inr encoded"
    and n: "length ps < 2 ^ 32" using c by (auto simp: ok_iff not_less not_le)
  show "is_prerope_v2 b \<longrightarrow> lh_role h = Key \<longrightarrow> validate_prerope_key_plane_finite payload = Inr ()"
    using c by (auto simp: ok_iff)
  have "validate_next_header v h = Inr ()" "\<not> iv_sealed v" using c by (auto simp: ok_iff)
  then show "header_validate_for h b (of_nat (length ps)) = Inr ()"
    using validate_next_header_eq [OF assms(1) n] by (auto simp: ok_iff)
qed

lemma accept_tracks:
  assumes t: "follows_stream S V b limits v ps" and "verify_plane S V v h payload = (Inr p, v')"
  shows "follows_stream S V b limits v' (ps @ [p])"
  using assms(2)
proof (rule verify_plane_Inr)
  fix "next" encoded
  assume c: "check_plane S V v h payload = Inr (next, encoded)" and p: "p = \<lparr>vp_header = h, vp_bytes = payload\<rparr>"
    and v': "v' = v\<lparr>iv_payload_hash := iv_payload_hash v @ payload, iv_descriptor_hash := iv_descriptor_hash v @ encoded @ [10],
            iv_artifact_prefix_hash := iv_artifact_prefix_hash v @ encoded @ [10], iv_payload_bytes := next,
            iv_headers := iv_headers v @ [h]\<rparr>"
  note f = check_plane_Inr [OF t c]
  show ?thesis using t f unfolding follows_stream_def v' p
    by (auto simp: absorb_headers_snoc nth_append less_Suc_eq)
qed

lemma verifying_tracks: "verifying S V b limits v ps \<Longrightarrow> follows_stream S V b limits v ps"
proof (induction rule: verifying.induct)
  case (start v)
  then show ?case by (auto simp: verifier_new_def follows_stream_def ok_iff absorb_headers_def)
next
  case (accept v ps h payload p v')
  then show ?case by (blast intro: accept_tracks)
next
  case (reject v ps h payload e v')
  then show ?case using verify_plane_Inl by blast
next
  case (seal v ps s r v')
  then show ?case using verify_seal_keeps [of S V v s r v'] by (auto simp: follows_stream_def)
qed

section \<open>Accepted planes follow the manifest\<close>

lemma entry_range:
  assumes "e = expected_from_walk_entry b (i, layer, role)"
  shows "unat (ep_range_end e) - unat (ep_range_start e) = unat (window_of b (bm_layout_table b ! unat i))"
    "unat (ep_range_start e) \<le> unat (ep_range_end e)"
  using window_le [of b "bm_layout_table b ! unat i"] unfolding assms
  by (simp_all add: expected_from_walk_entry_def Let_def word_le_nat_alt unat_sub)

lemma header_v2_facts:
  assumes "begin_validate b limits = Inr ()" "is_v2 b" "header_validate_for h b (of_nat i) = Inr ()" "i < 2 ^ 32"
  shows "i < length (layout_walk_v2 b)" "(lh_layer h, lh_role h) = snd (layout_walk_v2 b ! i)"
    "unat (lh_byte_length h) = entry_size b (layout_walk_v2 b ! i)"
proof -
  have u: "unat (of_nat i :: u32) = i" using assms(4) by (simp add: unat_of_nat)
  obtain entry where e: "walk_entry (layout_walk_v2 b) (of_nat i) = Inr entry"
    "header_validate_for_v2_expected h b (of_nat i) (expected_from_walk_entry b entry) = Inr ()"
    using assms(2,3) by (auto simp: header_validate_for_def header_validate_for_v2_def expected_plane_at_def ok_iff)
  then show i: "i < length (layout_walk_v2 b)" by (simp add: walk_entry_def u split: if_splits)
  have entry: "entry = layout_walk_v2 b ! i" using e(1) i by (simp add: walk_entry_def u)
  obtain ci layer role where w: "layout_walk_v2 b ! i = (ci, layer, role)" by (cases "layout_walk_v2 b ! i")
  let ?e = "expected_from_walk_entry b (ci, layer, role)"
  have f: "ep_class ?e = bm_layout_table b ! unat ci" "ep_layer ?e = layer" "ep_role ?e = role"
    by (simp_all add: expected_from_walk_entry_def Let_def)
  from e(2) obtain n where n: "checked_sub (lh_logical_token_end h) (lh_logical_token_start h) = Some n"
    "plane_byte_count n (ep_class ?e) (plane_element_bytes_v2 b (ep_role ?e)) = Some (lh_byte_length h)"
    "lh_layer h = layer" "lh_role h = role" "lh_logical_token_start h = ep_range_start ?e" "lh_logical_token_end h = ep_range_end ?e"
    unfolding header_validate_for_v2_expected_def entry w Let_def by (auto simp: ok_iff f)
  show "(lh_layer h, lh_role h) = snd (layout_walk_v2 b ! i)" using n by (simp add: w)
  have "unat n = unat (window_of b (bm_layout_table b ! unat ci))"
    using n(1,5,6) entry_range(1) [of ?e b ci layer role] by (auto simp: ok_iff)
  then show "unat (lh_byte_length h) = entry_size b (layout_walk_v2 b ! i)"
    using plane_bytes_Some [OF n(2)] by (simp add: w entry_size_def plane_size_def f)
qed

lemma v1_bytes:
  assumes "begin_validate b limits = Inr ()" "\<not> is_v2 b"
  shows "unat (bm_expected_payload_bytes b) = unat (bm_expected_layer_frames b) * expected_size b i" "0 < expected_size b i"
proof -
  let ?g = "bm_geometry b"
  note v = begin_validate_v1 [OF assms]
  have p: "unat (bm_expected_payload_bytes b) = unat (bm_expected_layer_frames b)
      * (unat (bm_cached_token_count b) * unat (ge_num_kv_heads ?g) * unat (ge_head_dim ?g) * 2)"
    using v(2) unfolding checked_payload_bytes_def
    by (auto simp: ok_iff v(1) dest!: checked_product_Some)
  have nz: "unat (bm_expected_layer_frames b) \<noteq> 0" using validated_frames_positive [OF assms(1)] by (simp add: unat_eq_zero)
  have d: "ge_num_kv_heads ?g \<noteq> 0" "ge_head_dim ?g \<noteq> 0"
    using begin_validate_counts(1) [OF assms(1)] assms(2) by (auto simp: declared_counts_def ok_iff)
  have e: "expected_size b i = unat (bm_cached_token_count b) * unat (ge_num_kv_heads ?g) * unat (ge_head_dim ?g) * 2"
    using assms(2) nz by (simp add: expected_size_def p)
  show "unat (bm_expected_payload_bytes b) = unat (bm_expected_layer_frames b) * expected_size b i" by (simp add: p e)
  show "0 < expected_size b i" using d begin_validate_counts(2) [OF assms(1)] by (simp add: e unat_gt_0)
qed

lemma header_v1_facts:
  assumes "begin_validate b limits = Inr ()" "\<not> is_v2 b" "header_validate_for h b (of_nat i) = Inr ()" "i < 2 ^ 32"
  shows "lh_layer h = of_nat (i div 2)" "lh_role h = (if i mod 2 = 0 then Key else Value)"
    "unat (lh_byte_length h) = expected_size b i"
proof -
  have u: "unat (of_nat i :: u32) = i" using assms(4) by (simp add: unat_of_nat)
  have q: "(of_nat i :: u32) div 2 = of_nat (i div 2)" "((of_nat i :: u32) mod 2 = 0) = (i mod 2 = 0)"
    using u by (simp_all add: word_unat_eq_iff unat_div unat_mod unat_of_nat take_bit_nat_eq_self)
  from assms(2,3) have h: "lh_layer h = of_nat i div 2" "lh_role h = (if (of_nat i :: u32) mod 2 = 0 then Key else Value)"
    "expected_plane_bytes b = Inr (lh_byte_length h)"
    by (auto simp: header_validate_for_def Let_def ok_iff)
  show "lh_layer h = of_nat (i div 2)" "lh_role h = (if i mod 2 = 0 then Key else Value)" using h(1,2) q by simp_all
  show "unat (lh_byte_length h) = expected_size b i"
  proof -
    have "lh_byte_length h = bm_expected_payload_bytes b div ucast (bm_expected_layer_frames b)"
      using h(3) begin_validate_v1(2) [OF assms(1,2)] by (simp add: expected_plane_bytes_def)
    then show ?thesis using assms(2) by (simp add: expected_size_def unat_div)
  qed
qed

definition follows :: "'n services \<Rightarrow> begin_manifest \<Rightarrow> nat \<Rightarrow> verified_plane \<Rightarrow> bool" where
  "follows S b i p \<longleftrightarrow> (lh_layer (vp_header p), lh_role (vp_header p)) = expected_walk b ! i
     \<and> length (vp_bytes p) = expected_size b i \<and> sha256_hex S (vp_bytes p) = lh_sha256 (vp_header p)
     \<and> (is_prerope_v2 b \<longrightarrow> lh_role (vp_header p) = Key \<longrightarrow> validate_prerope_key_plane_finite (vp_bytes p) = Inr ())"

lemma constant_concat_length:
  "(\<And>i. i < length ps \<Longrightarrow> length (vp_bytes (ps ! i)) = n) \<Longrightarrow> length (concat (map vp_bytes ps)) = length ps * n"
proof (induction ps rule: rev_induct)
  case (snoc p ps)
  have "length (vp_bytes (ps ! i)) = n" if "i < length ps" for i using snoc.prems [of i] that by (simp add: nth_append)
  moreover have "length (vp_bytes p) = n" using snoc.prems [of "length ps"] by simp
  ultimately show ?case using snoc.IH by simp
qed simp

lemma tracks_prefix:
  assumes t: "follows_stream S V b limits v ps"
  shows "length ps \<le> unat (bm_expected_layer_frames b)" "\<And>i. i < length ps \<Longrightarrow> follows S b i (ps ! i)"
proof -
  have b: "begin_validate b limits = Inr ()" and small: "length ps \<le> 2 ^ 32"
    and total: "unat (iv_payload_bytes v) = length (concat (map vp_bytes ps))" "iv_payload_bytes v \<le> bm_expected_payload_bytes b"
    and each: "\<And>i. i < length ps \<Longrightarrow> header_validate_for (vp_header (ps ! i)) b (of_nat i) = Inr ()
         \<and> unat (lh_byte_length (vp_header (ps ! i))) = length (vp_bytes (ps ! i))
         \<and> sha256_hex S (vp_bytes (ps ! i)) = lh_sha256 (vp_header (ps ! i))
         \<and> (is_prerope_v2 b \<longrightarrow> lh_role (vp_header (ps ! i)) = Key
              \<longrightarrow> validate_prerope_key_plane_finite (vp_bytes (ps ! i)) = Inr ())"
    using t by (auto simp: follows_stream_def)
  have i32: "i < 2 ^ 32" if "i < length ps" for i using that small by simp
  show len: "length ps \<le> unat (bm_expected_layer_frames b)"
  proof (cases "is_v2 b")
    case True
    have "i < length (layout_walk_v2 b)" if "i < length ps" for i
      using header_v2_facts(1) [OF b True _ i32 [OF that]] each [OF that] by blast
    then have "length ps \<le> length (layout_walk_v2 b)" by (metis not_less linorder_neqE_nat order_less_irrefl order.order_iff_strict)
    then show ?thesis using v2_counts_walk(1) [OF begin_validate_v2 [OF b True]] by simp
  next
    case False
    note e = v1_bytes [OF b False, of 0]
    have "length (vp_bytes (ps ! i)) = expected_size b 0" if "i < length ps" for i
      using header_v1_facts(3) [OF b False _ i32 [OF that]] each [OF that] False by (auto simp: expected_size_def)
    then have "length (concat (map vp_bytes ps)) = length ps * expected_size b 0" by (rule constant_concat_length)
    then have "length ps * expected_size b 0 \<le> unat (bm_expected_layer_frames b) * expected_size b 0"
      using total e(1) by (simp add: word_le_nat_alt)
    then show ?thesis using e(2) by simp
  qed
  fix i assume i: "i < length ps"
  note e = each [OF i]
  show "follows S b i (ps ! i)"
  proof (cases "is_v2 b")
    case True
    note f = header_v2_facts [OF b True _ i32 [OF i], of "vp_header (ps ! i)"]
    show ?thesis using f e True by (simp add: follows_def expected_walk_def expected_size_def)
  next
    case False
    have "i < unat (bm_expected_layer_frames b)" using i len by simp
    then show ?thesis using header_v1_facts [OF b False _ i32 [OF i], of "vp_header (ps ! i)"] e False
      by (simp add: follows_def expected_walk_def)
  qed
qed

lemma seal_validate_Inr:
  assumes "seal_validate_for S V seal b hs n payload_sha = Inr ()"
  shows "sc_frame_count (sl_core seal) = bm_expected_layer_frames b" "length hs = unat (bm_expected_layer_frames b)"
    "n = bm_expected_payload_bytes b" "sc_payload_sha256 (sl_core seal) = payload_sha"
    "descriptor_chain_sha256 S V hs = Inr (sc_descriptor_chain_sha256 (sl_core seal))"
    "artifact_sha256 S V b hs (sl_core seal) = Inr (sl_artifact_sha256 seal)"
    "token_ids_sha256 S (sc_prompt_token_ids (sl_core seal)) = bm_token_ids_sha256 b"
    "length (sc_prompt_token_ids (sl_core seal)) = unat (bm_cached_token_count b) + 1" "canary_ok b (sl_core seal)" "hmac_shape_ok b seal"
  using assms unfolding seal_validate_for_def Let_def by (auto simp: ok_iff)

text \<open>On a reachable verifier the two comparisons of running hashes with recomputed ones never fail.\<close>

lemma check_seal_reference:
  assumes t: "follows_stream S V b limits v ps" and "\<not> iv_sealed v"
  shows "check_seal S V v seal =
    rbind (seal_validate_for S V seal b (map vp_header ps) (of_nat (length (concat (map vp_bytes ps)))) (sha256_hex S (concat (map vp_bytes ps))))
      (\<lambda>_. Inr \<lparr>vl_seal = seal, vl_transfer_id = bm_transfer_id b,
        vl_descriptor_chain_sha256 = sc_descriptor_chain_sha256 (sl_core seal), vl_payload_sha256 = sc_payload_sha256 (sl_core seal)\<rparr>)"
proof -
  let ?hs = "map vp_header ps"
  obtain json where a: "iv_begin v = b" "iv_headers v = ?hs" "iv_payload_hash v = concat (map vp_bytes ps)"
    "unat (iv_payload_bytes v) = length (concat (map vp_bytes ps))"
    "absorb_headers S V (label ''kvpack-live-descriptor-chain-v1'') ?hs = Inr (iv_descriptor_hash v)"
    "canonical_json S (vs_begin V) b = Inr json"
    "absorb_headers S V (label ''kvpack-live-artifact-v1'' @ json @ [10]) ?hs = Inr (iv_artifact_prefix_hash v)"
    using t by (auto simp: follows_stream_def)
  have n: "iv_payload_bytes v = of_nat (length (concat (map vp_bytes ps)))" by (simp flip: a(4))
  have chain: "descriptor_chain_sha256 S V ?hs = Inr (sha256_hex S (iv_descriptor_hash v))"
    using a(5) by (simp add: descriptor_chain_sha256_def)
  have art: "artifact_sha256 S V b ?hs core = rbind (canonical_json S (vs_core V) core)
      (\<lambda>c. Inr (sha256_hex S (iv_artifact_prefix_hash v @ c)))" for core
    using a(6,7) by (cases "canonical_json S (vs_core V) core") (simp_all add: artifact_sha256_def artifact_stream_def)
  show ?thesis
  proof (cases "seal_validate_for S V seal b ?hs (iv_payload_bytes v) (sha256_hex S (concat (map vp_bytes ps)))")
    case (Inl e)
    then show ?thesis using assms(2) by (simp add: check_seal_def Let_def a chain flip: n)
  next
    case (Inr u)
    note f = seal_validate_Inr [OF Inr [unfolded unit_eq [of u]]]
    obtain c where "canonical_json S (vs_core V) (sl_core seal) = Inr c" using f(6) art by (auto simp: ok_iff)
    then show ?thesis using assms(2) Inr f(4-6) art [of "sl_core seal"] by (simp add: check_seal_def Let_def a chain flip: n)
  qed
qed

lemma sealed_complete:
  assumes "verifying S V b limits v ps" and "verify_seal S V v seal = (Inr verified, v')"
  shows "map (\<lambda>p. (lh_layer (vp_header p), lh_role (vp_header p))) ps = expected_walk b
    \<and> (\<forall>i < length ps. follows S b i (ps ! i))
    \<and> length (concat (map vp_bytes ps)) = unat (bm_expected_payload_bytes b)
    \<and> sc_payload_sha256 (sl_core seal) = sha256_hex S (concat (map vp_bytes ps))
    \<and> artifact_sha256 S V b (map vp_header ps) (sl_core seal) = Inr (sl_artifact_sha256 seal)
    \<and> token_ids_sha256 S (sc_prompt_token_ids (sl_core seal)) = bm_token_ids_sha256 b"
proof -
  note t = verifying_tracks [OF assms(1)]
  have b: "begin_validate b limits = Inr ()" using t by (simp add: follows_stream_def)
  obtain w where c: "check_seal S V v seal = Inr w" using assms(2) by (auto simp: verify_seal_def split: sum.splits)
  then have "\<not> iv_sealed v" by (auto simp: check_seal_def)
  from c [unfolded check_seal_reference [OF t this]]
  have s: "seal_validate_for S V seal b (map vp_header ps) (of_nat (length (concat (map vp_bytes ps)))) (sha256_hex S (concat (map vp_bytes ps))) = Inr ()"
    by (auto simp: ok_iff)
  note f = seal_validate_Inr [OF s] and p = tracks_prefix [OF t]
  have len: "length ps = unat (bm_expected_layer_frames b)" using f(2) by simp
  moreover have "length (expected_walk b) = unat (bm_expected_layer_frames b)"
    using v2_counts_walk(1) [OF begin_validate_v2 [OF b]] by (simp add: expected_walk_def)
  ultimately have "map (\<lambda>p. (lh_layer (vp_header p), lh_role (vp_header p))) ps = expected_walk b"
    using p(2) by (intro nth_equalityI) (auto simp: follows_def)
  moreover have "length (concat (map vp_bytes ps)) = unat (iv_payload_bytes v)" using t by (simp add: follows_stream_def)
  then have "length (concat (map vp_bytes ps)) = unat (bm_expected_payload_bytes b)"
    using f(3) by simp
  ultimately show ?thesis using f p(2) by simp
qed

text \<open>Property C9.  A verified seal proves a complete stream.  Whatever calls were made before, accepted or
  rejected, once a seal is accepted the accepted planes are exactly the planes of the manifest's walk
  in its order.  Each plane has the expected size and the digest of its header, pre-RoPE key planes
  hold finite numbers, and the sizes add up to the declared payload.  The seal's payload digest is
  the digest of all payload bytes in order, and its artifact digest covers begin, headers and core.\<close>

theorem v1_sealed_complete:
  assumes "verifying S V b limits v ps" and "verify_seal S V v seal = (Inr verified, v')"
  shows "map (\<lambda>p. (lh_layer (vp_header p), lh_role (vp_header p))) ps = expected_walk b
    \<and> (\<forall>i < length ps. follows S b i (ps ! i))
    \<and> length (concat (map vp_bytes ps)) = unat (bm_expected_payload_bytes b)
    \<and> sc_payload_sha256 (sl_core seal) = sha256_hex S (concat (map vp_bytes ps))
    \<and> artifact_sha256 S V b (map vp_header ps) (sl_core seal) = Inr (sl_artifact_sha256 seal)
    \<and> token_ids_sha256 S (sc_prompt_token_ids (sl_core seal)) = bm_token_ids_sha256 b"
  using sealed_complete [OF assms] .

text \<open>Property C17.  The incremental seal check agrees with the reference check.  For every verifier reached by
  any sequence of calls that is not yet sealed, verifying a seal gives what the reference validation
  gives on the headers, byte count and payload digest recomputed from the accepted planes, errors
  included.\<close>

theorem v1_seal_reference:
  assumes "verifying S V b limits v ps" and "\<not> iv_sealed v"
  shows "fst (verify_seal S V v seal) =
    rbind (seal_validate_for S V seal b (map vp_header ps) (of_nat (length (concat (map vp_bytes ps)))) (sha256_hex S (concat (map vp_bytes ps))))
      (\<lambda>_. Inr \<lparr>vl_seal = seal, vl_transfer_id = bm_transfer_id b,
        vl_descriptor_chain_sha256 = sc_descriptor_chain_sha256 (sl_core seal), vl_payload_sha256 = sc_payload_sha256 (sl_core seal)\<rparr>)"
  unfolding check_seal_reference [OF verifying_tracks [OF assms(1)] assms(2), symmetric]
  by (simp add: verify_seal_def split: sum.split)

section \<open>A stream that follows the manifest is accepted\<close>

text \<open>The header a producer sends with a payload at a position, and the seal it sends at the end.\<close>

definition plane_header :: "'n services \<Rightarrow> begin_manifest \<Rightarrow> nat \<Rightarrow> bytes \<Rightarrow> layer_header" where
  "plane_header S b i payload =
     (if is_v2 b
      then let e = expected_from_walk_entry b (layout_walk_v2 b ! i) in
        \<lparr>lh_byte_length = of_nat (length payload), lh_layer = ep_layer e, lh_logical_token_end = ep_range_end e,
         lh_logical_token_start = ep_range_start e, lh_role = ep_role e, lh_schema_version = LIVE_HANDOFF_SCHEMA_V1,
         lh_sequence = of_nat i, lh_sha256 = sha256_hex S payload,
         lh_shape = (ep_range_end e - ep_range_start e, lc_kv_heads (ep_class e), lc_head_dim (ep_class e)),
         lh_transfer_id = bm_transfer_id b, lh_dtype = Some (expected_plane_dtype_v2 b (ep_class e) (ep_role e)),
         lh_layout_class = Some (lc_class (ep_class e))\<rparr>
      else \<lparr>lh_byte_length = of_nat (length payload), lh_layer = of_nat i div 2, lh_logical_token_end = bm_cached_token_count b,
         lh_logical_token_start = 0, lh_role = (if (of_nat i :: u32) mod 2 = 0 then Key else Value),
         lh_schema_version = LIVE_HANDOFF_SCHEMA_V1, lh_sequence = of_nat i, lh_sha256 = sha256_hex S payload,
         lh_shape = (bm_cached_token_count b, ge_num_kv_heads (bm_geometry b), ge_head_dim (bm_geometry b)),
         lh_transfer_id = bm_transfer_id b, lh_dtype = None, lh_layout_class = None\<rparr>)"

definition producer_core :: "'n services \<Rightarrow> begin_manifest \<Rightarrow> bytes \<Rightarrow> bytes \<Rightarrow> u32 list \<Rightarrow> canary_record option \<Rightarrow> seal_core" where
  "producer_core S b chain payload tokens canary =
     \<lparr>sc_completed_unix_ms = bm_created_unix_ms b, sc_descriptor_chain_sha256 = chain, sc_frame_count = bm_expected_layer_frames b,
      sc_payload_bytes = bm_expected_payload_bytes b, sc_payload_sha256 = sha256_hex S payload, sc_prompt_token_ids = tokens,
      sc_protocol = LIVE_HANDOFF_PROTOCOL_V1, sc_schema_version = LIVE_HANDOFF_SCHEMA_V1, sc_strategy = bm_strategy b,
      sc_token_ids_sha256 = bm_token_ids_sha256 b, sc_transfer_id = bm_transfer_id b, sc_canary = canary\<rparr>"

definition producer_seal ::
  "'n services \<Rightarrow> 'n v1_serdes \<Rightarrow> begin_manifest \<Rightarrow> layer_header list \<Rightarrow> bytes \<Rightarrow> u32 list \<Rightarrow> canary_record option \<Rightarrow> mac_key \<Rightarrow> seal_manifest hresult" where
  "producer_seal S V b hs payload tokens canary key =
     rbind (descriptor_chain_sha256 S V hs) (\<lambda>chain.
     let core = producer_core S b chain payload tokens canary in
     rbind (artifact_sha256 S V b hs core) (\<lambda>artifact.
     rbind (artifact_hmac_sha256 S V b hs core key) (\<lambda>tag.
     Inr \<lparr>sl_artifact_sha256 = artifact,
       sl_artifact_hmac_sha256 = (if bm_hmac_key_id b = None then None else Some tag), sl_core = core\<rparr>)))"

text \<open>Payloads of the sizes the manifest asks for.\<close>

definition fitting :: "begin_manifest \<Rightarrow> bytes list \<Rightarrow> bool" where
  "fitting b payloads \<longleftrightarrow> length payloads = unat (bm_expected_layer_frames b)
     \<and> (\<forall>i < length payloads. length (payloads ! i) = expected_size b i
         \<and> (is_prerope_v2 b \<longrightarrow> snd (expected_walk b ! i) = Key \<longrightarrow> validate_prerope_key_plane_finite (payloads ! i) = Inr ()))"

fun feed :: "'n services \<Rightarrow> 'n v1_serdes \<Rightarrow> incremental_verifier \<Rightarrow> (layer_header \<times> bytes) list \<Rightarrow> incremental_verifier hresult" where
  "feed S V v [] = Inr v"
| "feed S V v ((h, payload) # rest) =
     (case verify_plane S V v h payload of (Inl e, _) \<Rightarrow> Inl e | (Inr _, v') \<Rightarrow> feed S V v' rest)"

lemma walk_class_valid:
  assumes "validate_layout_table b limits = Inr ()" "i < length (layout_walk_v2 b)" "layout_walk_v2 b ! i = (ci, layer, role)"
  shows "unat ci < length (bm_layout_table b)" "role \<in> set (lc_roles (bm_layout_table b ! unat ci))"
proof -
  have "(ci, layer, role) \<in> set (layout_walk_v2 b)" using assms(2,3) by (metis nth_mem)
  then obtain idx where idx: "idx < length (bm_layout_table b)" "ci = of_nat idx" "role \<in> set (lc_roles (bm_layout_table b ! idx))"
    by (auto simp: walk_set)
  moreover have "unat ci = idx" using idx table_length [OF assms(1)] by (simp add: unat_of_nat)
  ultimately show "unat ci < length (bm_layout_table b)" "role \<in> set (lc_roles (bm_layout_table b ! unat ci))" by simp_all
qed

lemma class_frame_bound:
  assumes "validate_class b limits covered c = Inr covered'" "role \<in> set (lc_roles c)"
  shows "plane_size b c role \<le> unat (vl_max_frame_bytes limits)"
proof -
  let ?m = "Max (set (map (plane_element_bytes_v2 b) (lc_roles c)))"
  from assms obtain n where n: "plane_byte_count (window_of b c) c ?m = Some n" "n \<le> vl_max_frame_bytes limits"
    by (auto simp: validate_class_def ok_iff Let_def not_less split: if_splits)
  have "plane_element_bytes_v2 b role \<le> ?m" using assms(2) by (intro Max_ge) auto
  then have "plane_size b c role \<le> unat n"
    using plane_bytes_Some [OF n(1)] by (simp add: plane_size_def word_le_nat_alt)
  then show ?thesis using n(2) by (simp add: word_le_nat_alt)
qed

lemma table_class_bound:
  assumes "validate_layout_table b limits = Inr ()" "c \<in> set (bm_layout_table b)" "role \<in> set (lc_roles c)"
  shows "plane_size b c role \<le> unat (vl_max_frame_bytes limits)"
proof -
  obtain covered where f: "try_fold (validate_class b limits) [] (bm_layout_table b) = Inr covered"
    using assms(1) by (auto simp: validate_layout_table_def ok_iff)
  obtain k where k: "k < length (bm_layout_table b)" "c = bm_layout_table b ! k" using assms(2) by (metis in_set_conv_nth)
  obtain x y where "validate_class b limits x (bm_layout_table b ! k) = Inr y" using try_fold_nth [OF f k(1)] by blast
  then show ?thesis using class_frame_bound [of b limits x c y role] assms(3) k(2) by simp
qed

lemma expected_frame_bound:
  assumes "begin_validate b limits = Inr ()" "i < unat (bm_expected_layer_frames b)"
  shows "expected_size b i \<le> unat (vl_max_frame_bytes limits)"
proof (cases "is_v2 b")
  case True
  note v = begin_validate_v2 [OF assms(1) True]
  have i: "i < length (layout_walk_v2 b)" using v2_counts_walk(1) [OF v] assms(2) by simp
  obtain ci layer role where w: "layout_walk_v2 b ! i = (ci, layer, role)" by (cases "layout_walk_v2 b ! i")
  note c = walk_class_valid [OF v(1) i w]
  show ?thesis using table_class_bound [OF v(1) nth_mem [OF c(1)] c(2)] True
    by (simp add: expected_size_def entry_size_def w)
next
  case False
  have "declared_counts b limits = Inr (bm_expected_layer_frames b, bm_expected_payload_bytes b)"
    by (rule begin_validate_counts(1) [OF assms(1)])
  then have "bm_expected_payload_bytes b div ucast (bm_expected_layer_frames b) \<le> vl_max_frame_bytes limits"
    using assms(1) unfolding begin_validate_def Let_def by (auto simp: ok_iff not_less)
  then show ?thesis using False by (simp add: expected_size_def word_le_nat_alt unat_div)
qed

lemma expected_total:
  assumes "begin_validate b limits = Inr ()"
  shows "sum_list (map (expected_size b) [0..<unat (bm_expected_layer_frames b)]) = unat (bm_expected_payload_bytes b)"
proof (cases "is_v2 b")
  case True
  note v = begin_validate_v2 [OF assms True]
  have "map (expected_size b) [0..<length (layout_walk_v2 b)] = map (entry_size b) (layout_walk_v2 b)"
    using True by (intro nth_equalityI) (simp_all add: expected_size_def)
  then show ?thesis using v2_counts_walk [OF v] by simp
next
  case False
  have "map (expected_size b) [0..<n] = replicate n (expected_size b 0)" for n
    using False by (intro nth_equalityI) (simp_all add: expected_size_def)
  then show ?thesis using v1_bytes(1) [OF assms False, of 0] by (simp add: sum_list_replicate)
qed

lemma unat_of_nat_u64: "n < 2 ^ 64 \<Longrightarrow> unat (of_nat n :: u64) = n"
  by (simp add: unat_of_nat)

lemma checked_mul_nat:
  fixes x y :: u64
  assumes "unat x * unat y = n" "n < 2 ^ 64"
  shows "checked_mul x y = Some (of_nat n)"
  using assms by (simp add: checked_mul_Some unat_of_nat)

lemma plane_bytes_total:
  assumes "unat window * unat (lc_kv_heads c) * unat (lc_head_dim c) * unat width = n" "n < 2 ^ 64" "width \<noteq> 0" "lc_head_dim c \<noteq> 0"
  shows "plane_byte_count window c width = Some (of_nat n)"
proof -
  let ?a = "unat window * unat (lc_kv_heads c)" and ?b = "unat window * unat (lc_kv_heads c) * unat (lc_head_dim c)"
  have w: "1 \<le> unat width" "1 \<le> unat (lc_head_dim c)" using assms(3,4) by (simp_all add: Suc_le_eq unat_gt_0)
  have b: "?b \<le> n" unfolding assms(1) [symmetric] using w(1) by (metis mult.right_neutral mult_le_mono2)
  have a: "?a \<le> ?b" using w(2) by (metis mult.right_neutral mult_le_mono2)
  have lt: "?a < 2 ^ 64" "?b < 2 ^ 64" by (rule le_less_trans [OF le_trans [OF a b] assms(2)], rule le_less_trans [OF b assms(2)])
  have u: "unat (of_nat ?a :: u64) = ?a" "unat (of_nat ?b :: u64) = ?b"
    by (rule unat_of_nat_u64 [OF lt(1)], rule unat_of_nat_u64 [OF lt(2)])
  have x: "checked_mul (ucast window) (ucast (lc_kv_heads c)) = Some (of_nat ?a :: u64)"
    by (rule checked_mul_nat [OF _ lt(1)]) simp
  have y: "checked_mul (of_nat ?a :: u64) (ucast (lc_head_dim c)) = Some (of_nat ?b)"
    by (rule checked_mul_nat [OF _ lt(2)]) (simp only: u(1) unat_ucast_u32)
  have z: "checked_mul (of_nat ?b :: u64) width = Some (of_nat n)"
    by (rule checked_mul_nat [OF _ assms(2)]) (simp only: u(2) assms(1))
  show ?thesis by (simp only: plane_byte_count_def checked_product_u64_def comp_def foldl.simps option.case x y z)
qed

lemma producer_header_valid:
  assumes b: "begin_validate b limits = Inr ()" and i: "i < unat (bm_expected_layer_frames b)"
    and len: "length payload = expected_size b i" and S: "hex_ok S" "digests_32 (sv_crypto S)"
  shows "header_validate_for (plane_header S b i payload) b (of_nat i) = Inr ()"
    "unat (lh_byte_length (plane_header S b i payload)) = length payload"
    "lh_role (plane_header S b i payload) = snd (expected_walk b ! i)"
proof -
  have i32: "i < 2 ^ 32" using i unat_bound [of "bm_expected_layer_frames b"] by simp
  have u: "unat (of_nat i :: u32) = i" using i32 by (simp add: unat_of_nat)
  have "length payload \<le> unat (vl_max_frame_bytes limits)" using expected_frame_bound [OF b i] len by simp
  then have l64: "length payload < 2 ^ 64" using unat_bound [of "vl_max_frame_bytes limits"] by simp
  have bl: "lh_byte_length (plane_header S b i payload) = of_nat (length payload)" by (simp add: plane_header_def Let_def)
  then show size: "unat (lh_byte_length (plane_header S b i payload)) = length payload" using l64 by (simp add: unat_of_nat)
  note dg = token_digest_valid(2) [OF S]
  show "header_validate_for (plane_header S b i payload) b (of_nat i) = Inr ()"
  proof (cases "is_v2 b")
    case True
    note v = begin_validate_v2 [OF b True]
    have iw: "i < length (layout_walk_v2 b)" using v2_counts_walk(1) [OF v] i by simp
    obtain ci layer role where w: "layout_walk_v2 b ! i = (ci, layer, role)" by (cases "layout_walk_v2 b ! i")
    let ?e = "expected_from_walk_entry b (ci, layer, role)"
    have f: "ep_class ?e = bm_layout_table b ! unat ci" "ep_role ?e = role"
      by (simp_all add: expected_from_walk_entry_def Let_def)
    note r = entry_range [of ?e b ci layer role, OF refl]
    have sub: "checked_sub (ep_range_end ?e) (ep_range_start ?e) = Some (ep_range_end ?e - ep_range_start ?e)"
      using r(2) by (simp add: checked_sub_def word_le_nat_alt)
    have nz: "plane_element_bytes_v2 b role \<noteq> 0" "lc_head_dim (bm_layout_table b ! unat ci) \<noteq> 0"
      using validated_table(1) [OF v(1)] walk_class_valid(1) [OF v(1) iw w]
      by (simp_all add: plane_element_bytes_v2_def list_all_length class_ok_def)
    have "plane_byte_count (ep_range_end ?e - ep_range_start ?e) (ep_class ?e) (plane_element_bytes_v2 b role) = Some (of_nat (length payload))"
      by (rule plane_bytes_total) (use r len True l64 nz in \<open>simp_all add: unat_sub word_le_nat_alt expected_size_def entry_size_def w plane_size_def f\<close>)
    moreover have "walk_entry (layout_walk_v2 b) (of_nat i) = Inr (ci, layer, role)" using iw by (simp add: walk_entry_def u w)
    ultimately show ?thesis
      using True sub by (simp add: header_validate_for_def header_validate_for_v2_def expected_plane_at_def
          header_validate_for_v2_expected_def Let_def plane_header_def w f dg)
  next
    case False
    have "expected_plane_bytes b = Inr (of_nat (length payload))"
    proof -
      have "unat (bm_expected_payload_bytes b div ucast (bm_expected_layer_frames b)) = length payload"
        using len False by (simp add: expected_size_def unat_div)
      then have "bm_expected_payload_bytes b div ucast (bm_expected_layer_frames b) = of_nat (length payload)"
        by (metis of_nat_unat ucast_id)
      then show ?thesis using begin_validate_v1(2) [OF b False] by (simp add: expected_plane_bytes_def)
    qed
    then show ?thesis using False by (simp add: header_validate_for_def Let_def plane_header_def dg)
  qed
  show "lh_role (plane_header S b i payload) = snd (expected_walk b ! i)"
  proof (cases "is_v2 b")
    case True
    have "i < length (layout_walk_v2 b)" using v2_counts_walk(1) [OF begin_validate_v2 [OF b True]] i by simp
    then show ?thesis using True by (cases "layout_walk_v2 b ! i")
      (simp add: plane_header_def expected_walk_def expected_from_walk_entry_def Let_def)
  next
    case False
    have "((of_nat i :: u32) mod 2 = 0) = (i mod 2 = 0)" using u by (simp add: word_unat_eq_iff unat_mod)
    then show ?thesis using False i by (simp add: plane_header_def expected_walk_def)
  qed
qed

lemma concat_sizes:
  "(\<And>i. i < length xs \<Longrightarrow> length (xs ! i) = g i) \<Longrightarrow> length (concat xs) = sum_list (map g [0..<length xs])"
proof (induction xs rule: rev_induct)
  case (snoc x xs)
  have "length (xs ! i) = g i" if "i < length xs" for i using snoc.prems [of i] that by (simp add: nth_append)
  moreover have "length x = g (length xs)" using snoc.prems [of "length xs"] by simp
  ultimately show ?case using snoc.IH by simp
qed simp

lemma prefix_sum_le: "i < n \<Longrightarrow> sum_list (map g [0..<i]) + g i \<le> sum_list (map (g :: nat \<Rightarrow> nat) [0..<n])"
proof -
  assume "i < n"
  then have "[0..<n] = [0..<Suc i] @ [Suc i..<n]" using upt_add_eq_append [of 0 "Suc i" "n - Suc i"] by simp
  then show ?thesis by simp
qed

definition producer_plane :: "'n services \<Rightarrow> begin_manifest \<Rightarrow> bytes list \<Rightarrow> nat \<Rightarrow> verified_plane" where
  "producer_plane S b payloads i = \<lparr>vp_header = plane_header S b i (payloads ! i), vp_bytes = payloads ! i\<rparr>"

text \<open>A serializer that never fails on the types of the protocol.\<close>

definition serdes_total :: "'n services \<Rightarrow> 'n v1_serdes \<Rightarrow> bool" where
  "serdes_total S V \<longleftrightarrow> (\<forall>b. is_ok (canonical_json S (vs_begin V) b)) \<and> (\<forall>h. is_ok (canonical_json S (vs_header V) h))
     \<and> (\<forall>c. is_ok (canonical_json S (vs_core V) c))"

lemma serdes_totalD:
  assumes "serdes_total S V"
  shows "\<exists>json. canonical_json S (vs_begin V) b = Inr json" "\<exists>json. canonical_json S (vs_header V) h = Inr json"
    "\<exists>json. canonical_json S (vs_core V) c = Inr json"
  using assms unfolding serdes_total_def is_ok_iff by blast+

lemma plane_accepted:
  assumes b: "begin_validate b limits = Inr ()" and t: "follows_stream S V b limits v ps" "\<not> iv_sealed v"
    and i: "length ps < unat (bm_expected_layer_frames b)" and len: "length p = expected_size b (length ps)"
    and h: "header_validate_for h b (of_nat (length ps)) = Inr ()" "unat (lh_byte_length h) = length p" "sha256_hex S p = lh_sha256 h"
    and fin: "is_prerope_v2 b \<longrightarrow> lh_role h = Key \<longrightarrow> validate_prerope_key_plane_finite p = Inr ()"
    and enc: "canonical_json S (vs_header V) h = Inr enc"
  obtains v' where "verify_plane S V v h p = (Inr \<lparr>vp_header = h, vp_bytes = p\<rparr>, v')" "\<not> iv_sealed v'"
proof -
  have i32: "length ps < 2 ^ 32" using i unat_bound [of "bm_expected_layer_frames b"] by simp
  have fb: "length p \<le> unat (vl_max_frame_bytes limits)" using expected_frame_bound [OF b i] len by simp
  have "length (vp_bytes (ps ! j)) = expected_size b j" if "j < length ps" for j
    using tracks_prefix(2) [OF t(1) that] by (simp add: follows_def)
  then have "length (concat (map vp_bytes ps)) = sum_list (map (expected_size b) [0..<length ps])"
    using concat_sizes [of "map vp_bytes ps" "expected_size b"] by simp
  then have sum: "length (concat (map vp_bytes ps)) + length p \<le> unat (bm_expected_payload_bytes b)"
    using prefix_sum_le [OF i, of "expected_size b"] expected_total [OF b] len by simp
  have tr: "iv_begin v = b" "iv_limits v = limits" "iv_headers v = map vp_header ps"
    "unat (iv_payload_bytes v) = length (concat (map vp_bytes ps))"
    using t(1) by (simp_all add: follows_stream_def)
  have "unat (iv_payload_bytes v) + unat (lh_byte_length h) < 2 ^ 64"
    using sum h(2) tr(4) unat_bound [of "bm_expected_payload_bytes b"] by simp
  then obtain "next" where nx: "checked_add (iv_payload_bytes v) (lh_byte_length h) = Some next"
    by (auto simp: checked_add_def)
  then have "unat next \<le> unat (bm_expected_payload_bytes b)" using sum h(2) tr(4) by (simp add: checked_add_Some)
  then have bound: "next \<le> bm_expected_payload_bytes b" "next \<le> vl_max_total_bytes limits"
    using begin_validate_counts(5) [OF b] by (simp_all add: word_le_nat_alt)
  have small: "\<not> lh_byte_length h > vl_max_frame_bytes limits" using fb h(2) by (simp add: word_less_nat_alt)
  have next_ok: "validate_next_header v h = Inr ()" using validate_next_header_eq [OF t(1) i32 t(2)] h(1) small by simp
  have fin': "(if is_prerope_v2 b \<and> lh_role h = Key then validate_prerope_key_plane_finite p else Inr ()) = Inr ()"
    using fin by simp
  have "check_plane S V v h p = Inr (next, enc)"
    using t(2) i32 next_ok small h(2,3) fin' nx bound enc unfolding check_plane_def tr by (simp add: not_less)
  then show ?thesis using that t(2) by (auto simp: verify_plane_def)
qed

lemma producer_plane_accepted:
  assumes b: "begin_validate b limits = Inr ()" and S: "hex_ok S" "digests_32 (sv_crypto S)" "serdes_total S V"
    and fit: "fitting b payloads" and t: "follows_stream S V b limits v ps" "\<not> iv_sealed v" and n: "length ps < length payloads"
  obtains v' where "verify_plane S V v (plane_header S b (length ps) (payloads ! length ps)) (payloads ! length ps)
    = (Inr (producer_plane S b payloads (length ps)), v')" "\<not> iv_sealed v'"
proof -
  let ?h = "plane_header S b (length ps) (payloads ! length ps)"
  have i: "length ps < unat (bm_expected_layer_frames b)" and len: "length (payloads ! length ps) = expected_size b (length ps)"
    and fin: "is_prerope_v2 b \<longrightarrow> snd (expected_walk b ! length ps) = Key
      \<longrightarrow> validate_prerope_key_plane_finite (payloads ! length ps) = Inr ()"
    using fit n by (auto simp: fitting_def)
  note h = producer_header_valid [OF b i len S(1,2)]
  obtain enc where enc: "canonical_json S (vs_header V) ?h = Inr enc" using serdes_totalD(2) [OF S(3)] by blast
  have "sha256_hex S (payloads ! length ps) = lh_sha256 ?h" by (simp add: plane_header_def Let_def)
  then show ?thesis using plane_accepted [OF b t i len h(1,2) _ _ enc] fin h(3) that by (auto simp: producer_plane_def)
qed

text \<open>Planes that one verifier accepted are accepted again by a fresh one.\<close>

lemma accepted_again:
  assumes w: "follows_stream S V b limits w ps" and t: "follows_stream S V b limits v (take k ps)" "\<not> iv_sealed v" and k: "k < length ps"
  obtains v' where "verify_plane S V v (vp_header (ps ! k)) (vp_bytes (ps ! k)) = (Inr (ps ! k), v')" "\<not> iv_sealed v'"
proof -
  have b: "begin_validate b limits = Inr ()" using w by (simp add: follows_stream_def)
  have len: "length (take k ps) = k" using k by simp
  have "map vp_header ps = map vp_header (take k ps) @ vp_header (ps ! k) # map vp_header (drop (Suc k) ps)"
    by (subst id_take_nth_drop [OF k]) simp
  moreover have "\<exists>out. absorb_headers S V (label ''kvpack-live-descriptor-chain-v1'') (map vp_header ps) = Inr out"
    using w by (simp add: follows_stream_def)
  ultimately obtain enc where enc: "canonical_json S (vs_header V) (vp_header (ps ! k)) = Inr enc"
    by (auto simp: absorb_headers_def try_fold_append ok_iff)
  have i: "length (take k ps) < unat (bm_expected_layer_frames b)" using tracks_prefix(1) [OF w] k len by simp
  have f: "follows S b k (ps ! k)" by (rule tracks_prefix(2) [OF w k])
  have h: "header_validate_for (vp_header (ps ! k)) b (of_nat k) = Inr ()"
    "unat (lh_byte_length (vp_header (ps ! k))) = length (vp_bytes (ps ! k))"
    using w k by (auto simp: follows_stream_def)
  have "length (vp_bytes (ps ! k)) = expected_size b (length (take k ps))" "sha256_hex S (vp_bytes (ps ! k)) = lh_sha256 (vp_header (ps ! k))"
    "is_prerope_v2 b \<longrightarrow> lh_role (vp_header (ps ! k)) = Key \<longrightarrow> validate_prerope_key_plane_finite (vp_bytes (ps ! k)) = Inr ()"
    using f unfolding follows_def len by blast+
  moreover have "header_validate_for (vp_header (ps ! k)) b (of_nat (length (take k ps))) = Inr ()" using h(1) by (simp only: len)
  ultimately obtain v' where "verify_plane S V v (vp_header (ps ! k)) (vp_bytes (ps ! k))
      = (Inr \<lparr>vp_header = vp_header (ps ! k), vp_bytes = vp_bytes (ps ! k)\<rparr>, v')" "\<not> iv_sealed v'"
    using plane_accepted [OF b t i _ _ h(2) _ _ enc] by blast
  then show ?thesis by (intro that) simp_all
qed

lemma feed_accepted:
  assumes b: "begin_validate b limits = Inr ()" and S: "hex_ok S" "digests_32 (sv_crypto S)" "serdes_total S V" and fit: "fitting b payloads"
  shows "verifying S V b limits v ps \<Longrightarrow> \<not> iv_sealed v \<Longrightarrow> ps = map (producer_plane S b payloads) [0..<k] \<Longrightarrow> k \<le> length payloads
    \<Longrightarrow> \<exists>v'. feed S V v (map (\<lambda>i. (plane_header S b i (payloads ! i), payloads ! i)) [k..<length payloads]) = Inr v'
      \<and> verifying S V b limits v' (map (producer_plane S b payloads) [0..<length payloads]) \<and> \<not> iv_sealed v'"
proof (induction "length payloads - k" arbitrary: k v ps)
  case 0
  then show ?case by auto
next
  case (Suc d)
  have k: "k < length payloads" and lk: "length ps = k" using Suc by simp_all
  obtain v' where v': "verify_plane S V v (plane_header S b k (payloads ! k)) (payloads ! k) = (Inr (producer_plane S b payloads k), v')" "\<not> iv_sealed v'"
    using producer_plane_accepted [OF b S fit verifying_tracks [OF Suc.prems(1)] Suc.prems(2)] k lk by metis
  have "verifying S V b limits v' (map (producer_plane S b payloads) [0..<Suc k])"
    using verifying.accept [OF Suc.prems(1) v'(1)] Suc.prems(3) by simp
  from Suc.hyps(1) [OF _ this v'(2) refl] Suc.hyps(2) k obtain w where
    "feed S V v' (map (\<lambda>i. (plane_header S b i (payloads ! i), payloads ! i)) [Suc k..<length payloads]) = Inr w"
    "verifying S V b limits w (map (producer_plane S b payloads) [0..<length payloads])" "\<not> iv_sealed w"
    by fastforce
  then show ?case using v'(1) k by (simp add: upt_conv_Cons)
qed

lemma absorb_total:
  "serdes_total S V \<Longrightarrow> \<exists>out. absorb_headers S V stream hs = Inr out"
proof (induction hs arbitrary: stream)
  case (Cons h hs)
  obtain j where "canonical_json S (vs_header V) h = Inr j" using serdes_totalD(2) [OF Cons.prems] by blast
  then show ?case using Cons.IH [OF Cons.prems] by (simp add: absorb_headers_def)
qed (simp add: absorb_headers_def)

lemma producer_seal_valid:
  assumes b: "begin_validate b limits = Inr ()" and S: "hex_ok S" "digests_32 (sv_crypto S)" "serdes_total S V"
    and hs: "length hs = unat (bm_expected_layer_frames b)"
    and tokens: "token_ids_sha256 S tokens = bm_token_ids_sha256 b" "length tokens = unat (bm_cached_token_count b) + 1"
    and canary: "\<And>chain. canary_ok b (producer_core S b chain payload tokens canary)"
  obtains seal where "producer_seal S V b hs payload tokens canary key = Inr seal"
    "seal_validate_for S V seal b hs (bm_expected_payload_bytes b) (sha256_hex S payload) = Inr ()"
    "bm_hmac_key_id b \<noteq> None \<Longrightarrow> authenticate_hmac S V seal b hs key = Inr ()"
proof -
  obtain chain where chain: "descriptor_chain_sha256 S V hs = Inr chain"
    using absorb_total [OF S(3), of "label ''kvpack-live-descriptor-chain-v1''" hs] by (auto simp: descriptor_chain_sha256_def)
  define core where "core = producer_core S b chain payload tokens canary"
  have stream: "\<exists>out. artifact_stream S V domain b hs core = Inr out" for domain
  proof -
    obtain j c where "canonical_json S (vs_begin V) b = Inr j" "canonical_json S (vs_core V) core = Inr c"
      using serdes_totalD(1,3) [OF S(3)] by blast
    then show ?thesis using absorb_total [OF S(3), of "domain @ j @ [10]" hs] by (auto simp: artifact_stream_def)
  qed
  obtain art mac where art: "artifact_sha256 S V b hs core = Inr art" and mac: "artifact_mac_stream S V b hs core = Inr mac"
    using stream [of "label ''kvpack-live-artifact-v1''"] stream [of "label ''kvpack-live-artifact-mac-v1''"]
    by (auto simp: artifact_sha256_def artifact_mac_stream_def)
  obtain tag where tag: "tag_hex S key mac = Inr tag" by (simp add: tag_hex_def)
  define seal where "seal = \<lparr>sl_artifact_sha256 = art,
    sl_artifact_hmac_sha256 = (if bm_hmac_key_id b = None then None else Some tag), sl_core = core\<rparr>"
  note tv = tag_verifies [OF S(1,2) tag]
  have "producer_seal S V b hs payload tokens canary key = Inr seal"
    unfolding producer_seal_def Let_def chain by (simp add: core_def [symmetric] art artifact_hmac_sha256_def mac tag seal_def)
  moreover have "hmac_shape_ok b seal" using tv(1) by (simp add: hmac_shape_ok_def seal_def split: option.split)
  moreover have "bm_created_unix_ms b \<le> bm_deadline_unix_ms b"
    using b unfolding begin_validate_def Let_def by (auto simp: ok_iff not_le)
  ultimately show ?thesis
    using that [of seal] chain art canary [of chain] hs tokens mac tv(2)
    by (auto simp: seal_validate_for_def Let_def seal_def core_def producer_core_def authenticate_hmac_def not_less)
qed

lemma producer_stream_accepted:
  assumes "begin_validate b limits = Inr ()" and "hex_ok S" "digests_32 (sv_crypto S)" "serdes_total S V"
    and "fitting b payloads"
    and "token_ids_sha256 S tokens = bm_token_ids_sha256 b" "length tokens = unat (bm_cached_token_count b) + 1"
    and "\<And>chain. canary_ok b (producer_core S b chain (concat payloads) tokens canary)"
  shows "\<exists>v w seal verified. verifier_new S V b limits = Inr v
    \<and> verifying S V b limits w (map (producer_plane S b payloads) [0..<length payloads]) \<and> \<not> iv_sealed w
    \<and> feed S V v (map (\<lambda>i. (plane_header S b i (payloads ! i), payloads ! i)) [0..<length payloads]) = Inr w
    \<and> producer_seal S V b (iv_headers w) (concat payloads) tokens canary key = Inr seal
    \<and> fst (verify_seal S V w seal) = Inr verified
    \<and> (bm_hmac_key_id b \<noteq> None \<longrightarrow> authenticate_seal_hmac S V w verified key = Inr ())"
proof -
  obtain json where "canonical_json S (vs_begin V) b = Inr json" using serdes_totalD(1) [OF assms(4)] by blast
  then obtain v where v: "verifier_new S V b limits = Inr v" "\<not> iv_sealed v" using assms(1) by (simp add: verifier_new_def)
  define ps where "ps = map (producer_plane S b payloads) [0..<length payloads]"
  obtain w where w: "feed S V v (map (\<lambda>i. (plane_header S b i (payloads ! i), payloads ! i)) [0..<length payloads]) = Inr w"
    "verifying S V b limits w ps" "\<not> iv_sealed w"
    using feed_accepted [OF assms(1-5) verifying.start [OF v(1)] v(2), of 0] by (auto simp: ps_def)
  have bytes: "map vp_bytes ps = payloads" by (rule nth_equalityI) (simp_all add: ps_def producer_plane_def)
  have t: "iv_begin w = b" "iv_headers w = map vp_header ps"
    using verifying_tracks [OF w(2)] by (simp_all add: follows_stream_def)
  have "length (iv_headers w) = unat (bm_expected_layer_frames b)" using assms(5) by (simp add: t fitting_def ps_def)
  from producer_seal_valid [OF assms(1-4) this assms(6-8)] obtain seal where s:
    "producer_seal S V b (iv_headers w) (concat payloads) tokens canary key = Inr seal"
    "seal_validate_for S V seal b (iv_headers w) (bm_expected_payload_bytes b) (sha256_hex S (concat payloads)) = Inr ()"
    "bm_hmac_key_id b \<noteq> None \<Longrightarrow> authenticate_hmac S V seal b (iv_headers w) key = Inr ()" by metis
  have "length (concat payloads) = unat (bm_expected_payload_bytes b)"
    using concat_sizes [of payloads "expected_size b"] expected_total [OF assms(1)] assms(5) by (simp add: fitting_def)
  then have n: "of_nat (length (concat (map vp_bytes ps))) = bm_expected_payload_bytes b" by (simp add: bytes)
  obtain verified where c: "check_seal S V w seal = Inr verified" "vl_seal verified = seal"
    using check_seal_reference [OF verifying_tracks [OF w(2)] w(3), of seal] s(2) n unfolding t(2) bytes by simp
  have "fst (verify_seal S V w seal) = Inr verified" using c(1) by (simp add: verify_seal_def)
  moreover have "bm_hmac_key_id b \<noteq> None \<longrightarrow> authenticate_seal_hmac S V w verified key = Inr ()"
    using s(3) c(2) by (simp add: authenticate_seal_hmac_def t(1))
  ultimately show ?thesis using v(1) w s(1) unfolding ps_def by blast
qed


section \<open>An example stream\<close>

definition sample_serde :: "('a, nat) serde" where
  "sample_serde = \<lparr>sd_to_value = (\<lambda>_. Inr Null), sd_from_slice = (\<lambda>_. Inl [])\<rparr>"

definition sample_v1_serdes :: "nat v1_serdes" where
  "sample_v1_serdes = \<lparr>vs_begin = sample_serde, vs_header = sample_serde, vs_core = sample_serde, vs_seal = sample_serde,
     vs_abort = sample_serde, vs_ack = sample_serde\<rparr>"

definition sample_payloads :: "bytes list" where
  "sample_payloads = [replicate 8 0, replicate 4 0, replicate 16 0, replicate 8 0]"

definition sample_canary :: "canary_record option" where
  "sample_canary = Some \<lparr>cn_sample_token_start = 0, cn_sample_token_count = 1,
     cn_post_rope_k_sha256 = sample_hex_id 48, cn_post_rope_v_sha256 = sample_hex_id 49\<rparr>"

lemma sample_serdes_total: "serdes_total sample_services sample_v1_serdes"
  by (simp add: serdes_total_def sample_v1_serdes_def sample_serde_def canonical_json_def map_canonical_def sample_services_def)

lemma sample_services_digests: "digests_32 (sv_crypto sample_services)"
  by (simp add: sample_services_def sample_digests)

lemma sample_walk: "layout_walk_v2 sample_begin_v1 = [(1, 1, Key), (1, 1, Value), (0, 0, Key), (0, 0, Value)]"
  by (simp add: layout_walk_v2_def schedule_class_order_def class_walk_def sample_fields sample_layers Let_def)
    (simp add: sample_class_def)

lemma zeros_finite: "validate_prerope_key_plane_finite (replicate (4 * n) 0) = Inr ()"
proof -
  have "f32_is_finite (from_le_bytes (subslice (replicate (4 * n) 0) (4 * i) (4 * i + 4)))" if "i < n" for i
  proof -
    have "subslice (replicate (4 * n) (0 :: byte)) (4 * i) (4 * i + 4) = replicate 4 0"
      using that by (simp add: subslice_def take_replicate drop_replicate min_def)
    moreover have "from_le_bytes (replicate 4 (0 :: byte)) = (0 :: u32)" by (simp add: from_le_bytes_def eval_nat_numeral)
    ultimately show ?thesis by (simp add: f32_is_finite_def)
  qed
  then show ?thesis by (auto simp: validate_prerope_key_plane_finite_def list_ex_iff)
qed

lemma sample_fitting: "fitting sample_begin_v1 sample_payloads"
proof -
  have size: "plane_size sample_begin_v1 (sample_class n f w) role
      = unat (window_of sample_begin_v1 (sample_class n f w)) * 2 * unat (plane_element_bytes_v2 sample_begin_v1 role)" for n f w role
    by (simp add: plane_size_def sample_class_def)
  have fin: "validate_prerope_key_plane_finite (replicate 8 0) = Inr ()" "validate_prerope_key_plane_finite (replicate 16 0) = Inr ()"
    using zeros_finite [of 2] zeros_finite [of 4] by simp_all
  have less4: "i < 4 \<longleftrightarrow> i = 0 \<or> i = 1 \<or> i = 2 \<or> i = 3" for i :: nat by auto
  show ?thesis
    by (auto simp: fitting_def sample_payloads_def sample_fields less4 expected_size_def sample_prerope entry_size_def sample_walk
        size sample_windows sample_element_bytes expected_walk_def fin nth_Cons')
qed

lemma sample_canary_ok: "canary_ok sample_begin_v1 (producer_core S sample_begin_v1 chain payload tokens sample_canary)"
  by (simp add: canary_ok_def sample_prerope producer_core_def sample_canary_def sample_ids saturating_add_def checked_add_def sample_fields
      word_le_nat_alt)


lemma sample_v1_run:
  obtains w seal verified where
    "verifying sample_services sample_v1_serdes sample_begin_v1 sample_limits w
      (map (producer_plane sample_services sample_begin_v1 sample_payloads) [0..<4])" "\<not> iv_sealed w"
    "fst (verify_seal sample_services sample_v1_serdes w seal) = Inr verified"
proof -
  have "length sample_payloads = 4" by (simp add: sample_payloads_def)
  then show ?thesis
    using that producer_stream_accepted [OF sample_begin_v1_valid sample_hex_ok sample_services_digests sample_serdes_total sample_fitting
        _ _ sample_canary_ok, of "[7, 8, 9]" "[]"] by (auto simp: sample_fields)
qed

theorem v1_sealed_complete_witness:
  "map (\<lambda>p. (lh_layer (vp_header p), lh_role (vp_header p))) (map (producer_plane sample_services sample_begin_v1 sample_payloads) [0..<4])
     = expected_walk sample_begin_v1
   \<and> length (concat (map vp_bytes (map (producer_plane sample_services sample_begin_v1 sample_payloads) [0..<4])))
     = unat (bm_expected_payload_bytes sample_begin_v1)"
proof -
  obtain w seal verified where r: "verifying sample_services sample_v1_serdes sample_begin_v1 sample_limits w
      (map (producer_plane sample_services sample_begin_v1 sample_payloads) [0..<4])"
    "fst (verify_seal sample_services sample_v1_serdes w seal) = Inr verified" by (rule sample_v1_run)
  obtain w' where "verify_seal sample_services sample_v1_serdes w seal = (Inr verified, w')" using r(2) by (metis prod.collapse)
  from v1_sealed_complete [OF r(1) this] show ?thesis by blast
qed

theorem v1_seal_reference_witness:
  "\<exists>w seal verified. fst (verify_seal sample_services sample_v1_serdes w seal) = Inr verified
    \<and> seal_validate_for sample_services sample_v1_serdes seal sample_begin_v1
        (map vp_header (map (producer_plane sample_services sample_begin_v1 sample_payloads) [0..<4]))
        (of_nat (length (concat (map vp_bytes (map (producer_plane sample_services sample_begin_v1 sample_payloads) [0..<4])))))
        (sha256_hex sample_services (concat (map vp_bytes (map (producer_plane sample_services sample_begin_v1 sample_payloads) [0..<4])))) = Inr ()"
proof -
  obtain w seal verified where r: "verifying sample_services sample_v1_serdes sample_begin_v1 sample_limits w
      (map (producer_plane sample_services sample_begin_v1 sample_payloads) [0..<4])" "\<not> iv_sealed w"
    "fst (verify_seal sample_services sample_v1_serdes w seal) = Inr verified" by (rule sample_v1_run)
  from r(3) [unfolded v1_seal_reference [OF r(1,2)]] r(3) show ?thesis
    unfolding rbind_eq_Inr by (elim exE conjE) (intro exI [of _ w] exI [of _ seal] exI [of _ verified] conjI, assumption, simp)
qed

end
