(* ===== verification/Handoff_Bundle.thy ===== *)
theory Handoff_Bundle
  imports Handoff_Verify
begin

text \<open>
  Sealed bundles on disk (\<^verbatim>\<open>kvpack-handoff/src/bundle.rs\<close>): the stager that writes a verified stream
  into a private directory and publishes it, and the reader that verifies a published bundle again.
  A directory is a list of named nodes.  The file system's answers to writes are a parameter: for each
  name it says whether the operation fails, with which message and what it leaves behind.  The path
  of the bundle itself, its resolution and the directory synchronisation calls are not part of the
  state; a failing synchronisation is a failing operation.
\<close>

section \<open>Directories\<close>

datatype node = Regular bytes | Symlink | Directory

type_synonym entries = "(bytes \<times> node) list"
type_synonym fs_faults = "bytes \<Rightarrow> (string \<times> node option) option"

record bundle_dir =
  bd_top :: entries
  bd_layers :: entries

definition MANIFEST_MAX_BYTES :: nat where "MANIFEST_MAX_BYTES = 1024 * 1024"

definition write_new_sync :: "fs_faults \<Rightarrow> bytes \<Rightarrow> bytes \<Rightarrow> entries \<Rightarrow> unit hresult \<times> entries" where
  "write_new_sync F name content es =
     (if map_of es name \<noteq> None then (Inl (Io ''File exists''), es)
      else case F name of
        Some (message, left) \<Rightarrow> (Inl (Io message), (case left of None \<Rightarrow> es | Some n \<Rightarrow> (name, n) # es))
      | None \<Rightarrow> (Inr (), (name, Regular content) # es))"

definition not_found :: handoff_error where
  "not_found = Io ''No such file or directory''"

text \<open>Messages leave out the path, which is not part of the state.\<close>

definition reject_symlink :: "entries \<Rightarrow> bytes \<Rightarrow> string \<Rightarrow> unit hresult" where
  "reject_symlink es name what =
     rbind (ok_or (map_of es name) not_found) (\<lambda>n.
     if n = Symlink then Inl (Validation (what @ '' must not be a symlink'')) else Inr ())"

definition read_regular_bounded :: "entries \<Rightarrow> bytes \<Rightarrow> nat \<Rightarrow> bytes hresult" where
  "read_regular_bounded es name max_bytes =
     rbind (ok_or (map_of es name) not_found) (\<lambda>n.
     case n of
       Regular content \<Rightarrow>
         if length content = 0 \<or> length content > max_bytes
         then Inl (Validation (''file length '' @ decimal (length content) @ '' is outside 1..='' @ decimal max_bytes))
         else Inr content
     | _ \<Rightarrow> Inl (Validation ''expected a regular non-symlink file''))"

section \<open>Names of plane files\<close>

definition suffix :: "tensor_role \<Rightarrow> string" where
  "suffix role = (case role of Key \<Rightarrow> ''k'' | Value \<Rightarrow> ''v'')"

definition padded :: "nat \<Rightarrow> string" where
  "padded n = replicate (5 - length (decimal n)) (CHR ''0'') @ decimal n"

definition stem :: "u32 \<Rightarrow> tensor_role \<Rightarrow> bytes" where
  "stem layer role = ascii (padded (unat layer) @ ''-'' @ suffix role)"

definition header_name :: "u32 \<Rightarrow> tensor_role \<Rightarrow> bytes" where
  "header_name layer role = stem layer role @ ascii ''.json''"

definition payload_name :: "begin_manifest \<Rightarrow> u32 \<Rightarrow> tensor_role \<Rightarrow> bytes" where
  "payload_name b layer role = stem layer role @ ascii ''.'' @ plane_payload_extension b role"

definition ready_marker :: "seal_manifest \<Rightarrow> bytes" where
  "ready_marker seal = sl_artifact_sha256 seal @ [10]"

section \<open>The stager\<close>

record bundle_stager =
  bs_begin :: begin_manifest
  bs_committed :: bool
  bs_prepared :: "seal_manifest option"
  bs_verifier :: incremental_verifier
  bs_aborted :: bool
  bs_staging :: "bundle_dir option"
  bs_final :: "bundle_dir option"

definition empty_staging :: bundle_dir where
  "empty_staging = \<lparr>bd_top = [(ascii ''layers'', Directory)], bd_layers = []\<rparr>"

text \<open>What is at the requested output path, and a directory operation that either works or fails.\<close>

datatype target = Unnamed | Occupied | Free

definition attempt :: "fs_faults \<Rightarrow> string \<Rightarrow> unit hresult" where
  "attempt F name = (case F (ascii name) of Some (message, _) \<Rightarrow> Inl (Io message) | None \<Rightarrow> Inr ())"

text \<open>\<open>parent\<close> is the answer to resolving the parent directory, an error when it is missing or a symbolic link.  A
  creation that fails returns its error only; the directories it may leave behind are not in the state.\<close>

definition bundle_create ::
  "'n services \<Rightarrow> 'n v1_serdes \<Rightarrow> fs_faults \<Rightarrow> unit hresult \<Rightarrow> target \<Rightarrow> begin_manifest \<Rightarrow> validation_limits \<Rightarrow> bundle_stager hresult" where
  "bundle_create S V F parent target b limits =
     rbind (begin_validate b limits) (\<lambda>_.
     rbind (verifier_new S V b limits) (\<lambda>v.
     if target = Unnamed then Inl (Validation ''bundle output must name one child directory'')
     else rbind parent (\<lambda>_.
     if target = Occupied then Inl (Validation ''bundle output already exists'')
     else rbind (attempt F ''staging'') (\<lambda>_.
     rbind (attempt F ''layers'') (\<lambda>_.
     rbind (canonical_json S (vs_begin V) b) (\<lambda>json.
     rbind (fst (write_new_sync F (ascii ''begin.json'') json (bd_top empty_staging))) (\<lambda>_.
     Inr \<lparr>bs_begin = b, bs_committed = False, bs_prepared = None, bs_verifier = v, bs_aborted = False,
       bs_staging = Some (empty_staging\<lparr>bd_top := snd (write_new_sync F (ascii ''begin.json'') json (bd_top empty_staging))\<rparr>),
       bs_final = None\<rparr>)))))))"

definition receiving :: "bundle_stager \<Rightarrow> bool" where
  "receiving s \<longleftrightarrow> \<not> (bs_committed s \<or> bs_prepared s \<noteq> None \<or> bs_aborted s)"

text \<open>A write into the staging directory, which is gone after an abort or a rename.\<close>

definition stage_top :: "fs_faults \<Rightarrow> bytes \<Rightarrow> bytes \<Rightarrow> bundle_stager \<Rightarrow> unit hresult \<times> bundle_stager" where
  "stage_top F name content s =
     (case bs_staging s of None \<Rightarrow> (Inl not_found, s)
      | Some d \<Rightarrow> (case write_new_sync F name content (bd_top d) of (r, es) \<Rightarrow> (r, s\<lparr>bs_staging := Some (d\<lparr>bd_top := es\<rparr>)\<rparr>)))"

definition stage_layer :: "fs_faults \<Rightarrow> bytes \<Rightarrow> bytes \<Rightarrow> bundle_stager \<Rightarrow> unit hresult \<times> bundle_stager" where
  "stage_layer F name content s =
     (case bs_staging s of None \<Rightarrow> (Inl not_found, s)
      | Some d \<Rightarrow> (case write_new_sync F name content (bd_layers d) of (r, es) \<Rightarrow> (r, s\<lparr>bs_staging := Some (d\<lparr>bd_layers := es\<rparr>)\<rparr>)))"

definition write_verified ::
  "'n services \<Rightarrow> 'n v1_serdes \<Rightarrow> fs_faults \<Rightarrow> bundle_stager \<Rightarrow> verified_plane \<Rightarrow> unit hresult \<times> bundle_stager" where
  "write_verified S V F s plane =
     (if \<not> receiving s then (Inl (Validation ''cannot stage a plane outside the receiving state''), s)
      else let h = vp_header plane in
      case canonical_json S (vs_header V) h of
        Inl e \<Rightarrow> (Inl e, s)
      | Inr json \<Rightarrow> (case stage_layer F (header_name (lh_layer h) (lh_role h)) json s of
          (Inl e, s') \<Rightarrow> (Inl e, s')
        | (Inr _, s') \<Rightarrow> stage_layer F (payload_name (bs_begin s) (lh_layer h) (lh_role h)) (vp_bytes plane) s'))"

definition bundle_ingest ::
  "'n services \<Rightarrow> 'n v1_serdes \<Rightarrow> fs_faults \<Rightarrow> bundle_stager \<Rightarrow> layer_header \<Rightarrow> bytes \<Rightarrow> unit hresult \<times> bundle_stager" where
  "bundle_ingest S V F s h payload =
     (case verify_plane S V (bs_verifier s) h payload of
        (Inl e, v) \<Rightarrow> (Inl e, s\<lparr>bs_verifier := v\<rparr>)
      | (Inr plane, v) \<Rightarrow> write_verified S V F (s\<lparr>bs_verifier := v\<rparr>) plane)"

definition stage_verified ::
  "'n services \<Rightarrow> 'n v1_serdes \<Rightarrow> fs_faults \<Rightarrow> bundle_stager \<Rightarrow> verified_plane \<Rightarrow> unit hresult \<times> bundle_stager" where
  "stage_verified S V F s plane =
     (case verify_plane S V (bs_verifier s) (vp_header plane) (vp_bytes plane) of
        (Inl e, v) \<Rightarrow> (Inl e, s\<lparr>bs_verifier := v\<rparr>)
      | (Inr local, v) \<Rightarrow>
          if local \<noteq> plane then (Inl (Validation ''verified plane changed before internal staging''), s\<lparr>bs_verifier := v\<rparr>)
          else write_verified S V F (s\<lparr>bs_verifier := v\<rparr>) plane)"

text \<open>The two directory synchronisations fail under the names \<^verbatim>\<open>layers\<close> and \<^verbatim>\<open>.\<close>.\<close>

definition sync_staging :: "fs_faults \<Rightarrow> unit hresult" where
  "sync_staging F = rbind (attempt F ''layers'') (\<lambda>_. attempt F ''.'')"

definition write_prepared_seal ::
  "'n services \<Rightarrow> 'n v1_serdes \<Rightarrow> fs_faults \<Rightarrow> bundle_stager \<Rightarrow> seal_manifest \<Rightarrow> unit hresult \<times> bundle_stager" where
  "write_prepared_seal S V F s seal =
     (case canonical_json S (vs_seal V) seal of
        Inl e \<Rightarrow> (Inl e, s)
      | Inr json \<Rightarrow> (case stage_top F (ascii ''seal.json'') json s of
          (Inl e, s') \<Rightarrow> (Inl e, s')
        | (Inr _, s') \<Rightarrow> (case sync_staging F of
            Inl e \<Rightarrow> (Inl e, s')
          | Inr _ \<Rightarrow> (Inr (), s'\<lparr>bs_prepared := Some seal\<rparr>))))"

definition prepare_shared_seal ::
  "'n services \<Rightarrow> 'n v1_serdes \<Rightarrow> fs_faults \<Rightarrow> bundle_stager \<Rightarrow> verified_seal \<Rightarrow> unit hresult \<times> bundle_stager" where
  "prepare_shared_seal S V F s verified =
     (if \<not> receiving s then (Inl (Validation ''bundle cannot prepare another terminal seal''), s)
      else write_prepared_seal S V F s (vl_seal verified))"

definition prepare_seal ::
  "'n services \<Rightarrow> 'n v1_serdes \<Rightarrow> fs_faults \<Rightarrow> bundle_stager \<Rightarrow> verified_seal \<Rightarrow> unit hresult \<times> bundle_stager" where
  "prepare_seal S V F s verified =
     (if \<not> receiving s then (Inl (Validation ''bundle cannot prepare another terminal seal''), s)
      else case verify_seal S V (bs_verifier s) (vl_seal verified) of
        (Inl e, v) \<Rightarrow> (Inl e, s\<lparr>bs_verifier := v\<rparr>)
      | (Inr local, v) \<Rightarrow>
          if local \<noteq> verified
          then (Inl (Validation ''terminal seal witness belongs to a different verified stream''), s\<lparr>bs_verifier := v\<rparr>)
          else write_prepared_seal S V F (s\<lparr>bs_verifier := v\<rparr>) (vl_seal verified))"

text \<open>\<^verbatim>\<open>rename\<close> stands for opening the parent and the rename that refuses to replace; \<^verbatim>\<open>parent\<close> for the
  synchronisation of the parent directory afterwards.\<close>

definition bundle_publish :: "fs_faults \<Rightarrow> bundle_stager \<Rightarrow> unit hresult \<times> bundle_stager" where
  "bundle_publish F s =
     (if bs_committed s \<or> bs_aborted s then (Inl (Validation ''bundle cannot be published in its current state''), s)
      else case bs_prepared s of
        None \<Rightarrow> (Inl (Validation ''bundle seal was not prepared''), s)
      | Some seal \<Rightarrow> (case stage_top F (ascii ''READY'') (ready_marker seal) s of
          (Inl e, s') \<Rightarrow> (Inl e, s')
        | (Inr _, s') \<Rightarrow> (case sync_staging F of
            Inl e \<Rightarrow> (Inl e, s')
          | Inr _ \<Rightarrow> (case F (ascii ''rename'') of
              Some (message, _) \<Rightarrow> (Inl (Io message), s')
            | None \<Rightarrow>
                if bs_final s' \<noteq> None then (Inl (Io ''File exists''), s')
                else let moved = s'\<lparr>bs_final := bs_staging s', bs_staging := None\<rparr> in
                (case F (ascii ''parent'') of
                   Some (message, _) \<Rightarrow> (Inl (Io message), moved)
                 | None \<Rightarrow> (Inr (), moved\<lparr>bs_committed := True\<rparr>))))))"

definition bundle_seal ::
  "'n services \<Rightarrow> 'n v1_serdes \<Rightarrow> fs_faults \<Rightarrow> bundle_stager \<Rightarrow> seal_manifest \<Rightarrow> unit hresult \<times> bundle_stager" where
  "bundle_seal S V F s seal =
     (if \<not> receiving s then (Inl (Validation ''bundle cannot be sealed in its current state''), s)
      else case verify_seal S V (bs_verifier s) seal of
        (Inl e, v) \<Rightarrow> (Inl e, s\<lparr>bs_verifier := v\<rparr>)
      | (Inr verified, v) \<Rightarrow> (case write_prepared_seal S V F (s\<lparr>bs_verifier := v\<rparr>) (vl_seal verified) of
          (Inl e, s') \<Rightarrow> (Inl e, s')
        | (Inr _, s') \<Rightarrow> bundle_publish F s'))"

text \<open>A failing removal is taken to remove nothing.\<close>

definition bundle_abort :: "fs_faults \<Rightarrow> bundle_stager \<Rightarrow> unit hresult \<times> bundle_stager" where
  "bundle_abort F s =
     (if bs_committed s \<or> bs_aborted s \<or> bs_staging s = None then (Inr (), s)
      else case F (ascii ''remove'') of
        Some (message, _) \<Rightarrow> (Inl (Io message), s)
      | None \<Rightarrow> (Inr (), s\<lparr>bs_staging := None, bs_aborted := True\<rparr>))"

section \<open>Reopening a bundle\<close>

definition position_role :: "begin_manifest \<Rightarrow> u32 \<Rightarrow> (u32 \<times> tensor_role) hresult" where
  "position_role b sequence =
     (if is_v2 b then rbind (walk_entry (layout_walk_v2 b) sequence) (\<lambda>(_, layer, role). Inr (layer, role))
      else Inr (sequence div 2, if sequence mod 2 = 0 then Key else Value))"

definition reopen_plane ::
  "'n services \<Rightarrow> 'n v1_serdes \<Rightarrow> bundle_dir \<Rightarrow> validation_limits \<Rightarrow> begin_manifest
     \<Rightarrow> incremental_verifier \<times> verified_plane list \<times> bytes list \<Rightarrow> nat
     \<Rightarrow> (incremental_verifier \<times> verified_plane list \<times> bytes list) hresult" where
  "reopen_plane S V d limits b = (\<lambda>(v, planes, expected) i.
     rbind (position_role b (of_nat i)) (\<lambda>(layer, role).
     let hn = header_name layer role; pn = payload_name b layer role in
     rbind (reject_symlink (bd_layers d) hn ''layer header'') (\<lambda>_.
     rbind (reject_symlink (bd_layers d) pn ''layer payload'') (\<lambda>_.
     rbind (read_regular_bounded (bd_layers d) hn MANIFEST_MAX_BYTES) (\<lambda>header_bytes.
     rbind (decode_canonical_json S (vs_header V) header_bytes MANIFEST_MAX_BYTES) (\<lambda>h.
     rbind (read_regular_bounded (bd_layers d) pn (unat (vl_max_frame_bytes limits))) (\<lambda>payload.
     case verify_plane S V v h payload of
       (Inl e, _) \<Rightarrow> Inl e
     | (Inr plane, v') \<Rightarrow> Inr (v', planes @ [plane], expected @ [hn, pn]))))))))"

definition open_verified ::
  "'n services \<Rightarrow> 'n v1_serdes \<Rightarrow> bundle_dir \<Rightarrow> validation_limits
     \<Rightarrow> (begin_manifest \<times> verified_plane list \<times> seal_manifest) hresult" where
  "open_verified S V d limits =
     rbind (for_each (\<lambda>(name, what). reject_symlink (bd_top d) (ascii name) what)
       [(''begin.json'', ''begin manifest''), (''seal.json'', ''seal manifest''), (''READY'', ''READY marker''), (''layers'', ''layers directory'')]) (\<lambda>_.
     rbind (read_regular_bounded (bd_top d) (ascii ''begin.json'') MANIFEST_MAX_BYTES) (\<lambda>begin_bytes.
     rbind (decode_canonical_json S (vs_begin V) begin_bytes MANIFEST_MAX_BYTES) (\<lambda>b.
     rbind (begin_validate b limits) (\<lambda>_.
     rbind (read_regular_bounded (bd_top d) (ascii ''seal.json'') MANIFEST_MAX_BYTES) (\<lambda>seal_bytes.
     rbind (decode_canonical_json S (vs_seal V) seal_bytes MANIFEST_MAX_BYTES) (\<lambda>seal.
     rbind (verifier_new S V b limits) (\<lambda>v.
     rbind (try_fold (reopen_plane S V d limits b) (v, [], []) [0..<unat (bm_expected_layer_frames b)]) (\<lambda>(v', planes, expected).
     if set (map fst (bd_layers d)) \<noteq> set expected
     then Inl (Validation ''layers directory contains missing or unexpected entries'')
     else rbind (fst (verify_seal S V v' seal)) (\<lambda>_.
     rbind (read_regular_bounded (bd_top d) (ascii ''READY'') 65) (\<lambda>ready.
     if ready \<noteq> ready_marker seal then Inl (Validation ''READY marker does not match the sealed artifact'')
     else Inr (b, planes, seal)))))))))))"

definition bundle_authenticate_hmac ::
  "'n services \<Rightarrow> 'n v1_serdes \<Rightarrow> begin_manifest \<times> verified_plane list \<times> seal_manifest \<Rightarrow> mac_key \<Rightarrow> unit hresult" where
  "bundle_authenticate_hmac S V = (\<lambda>(b, planes, seal) key. authenticate_hmac S V seal b (map vp_header planes) key)"

section \<open>Distinct planes have distinct files\<close>

lemma ascii_inject: "ascii s = ascii t \<longleftrightarrow> s = t"
proof -
  have "inj (of_char :: char \<Rightarrow> byte)"
  proof (rule injI)
    fix c d :: char
    assume "(of_char c :: byte) = of_char d"
    then have "unat (of_nat (of_char c) :: byte) = unat (of_nat (of_char d) :: byte)" by (simp only: of_nat_of_char)
    moreover have "(of_char c :: nat) < 256" "(of_char d :: nat) < 256" by simp_all
    ultimately have "(of_char c :: nat) = of_char d" by (simp only: unat_of_nat) simp
    then show "c = d" by simp
  qed
  then show ?thesis by (simp add: ascii_def inj_map_eq_map)
qed

definition digits_value :: "string \<Rightarrow> nat" where
  "digits_value = foldl (\<lambda>a c. 10 * a + (of_char c - 48)) 0"

lemma digits_value_decimal: "digits_value (decimal n) = n"
proof (induction n rule: decimal.induct)
  case (1 n)
  then show ?case by (subst decimal.simps) (auto simp: digits_value_def)
qed

lemma padded_inject: "padded m = padded n \<longleftrightarrow> m = n"
proof -
  have "digits_value (replicate k (CHR ''0'') @ ds) = digits_value ds" for k ds
    by (induction k) (simp_all add: digits_value_def)
  then have "digits_value (padded n) = n" for n by (simp add: padded_def digits_value_decimal)
  then show ?thesis by metis
qed

lemma stem_inject: "stem l r = stem l' r' \<longleftrightarrow> l = l' \<and> r = r'"
proof
  assume "stem l r = stem l' r'"
  then have eq: "(padded (unat l) @ ''-'') @ suffix r = (padded (unat l') @ ''-'') @ suffix r'"
    by (simp add: stem_def ascii_inject)
  have "length (suffix r) = length (suffix r')" by (simp add: suffix_def split: tensor_role.split)
  then have "padded (unat l) = padded (unat l')" "suffix r = suffix r'" using eq by simp_all
  then show "l = l' \<and> r = r'" by (auto simp: padded_inject suffix_def word_unat_eq_iff split: tensor_role.splits)
qed simp

lemma names_differ:
  "header_name l r = header_name l' r' \<longleftrightarrow> l = l' \<and> r = r'"
  "payload_name b l r = payload_name b l' r' \<longleftrightarrow> l = l' \<and> r = r'"
  "header_name l r \<noteq> payload_name b l' r'"
proof -
  show "header_name l r = header_name l' r' \<longleftrightarrow> l = l' \<and> r = r'" by (simp add: header_name_def stem_inject)
  have ext: "plane_payload_extension b r = map of_char (if is_prerope_v2 b \<and> r = Key then ''f32le'' else ''f16le'')" for r
    by (simp add: plane_payload_extension_def ascii_def)
  have "length (ascii ''.'' @ plane_payload_extension b r) = length (ascii ''.'' @ plane_payload_extension b r')"
    by (simp add: ext)
  then show "payload_name b l r = payload_name b l' r' \<longleftrightarrow> l = l' \<and> r = r'"
    using stem_inject [of l r l' r'] by (auto simp: payload_name_def)
  have "last (header_name l r) = of_char (CHR ''n'')" by (simp add: header_name_def ascii_def)
  moreover have "last (payload_name b l' r') = of_char (CHR ''e'')" by (simp add: payload_name_def ext)
  ultimately show "header_name l r \<noteq> payload_name b l' r'" by auto
qed

section \<open>A reopened bundle is complete\<close>

lemma read_regular_bounded_Inr:
  "read_regular_bounded es name n = Inr c \<longleftrightarrow> map_of es name = Some (Regular c) \<and> c \<noteq> [] \<and> length c \<le> n"
proof (cases "map_of es name")
  case (Some x)
  then show ?thesis by (cases x) (auto simp: read_regular_bounded_def)
qed (simp add: read_regular_bounded_def)

definition plane_names :: "begin_manifest \<Rightarrow> u32 \<times> tensor_role \<Rightarrow> bytes list" where
  "plane_names b = (\<lambda>(layer, role). [header_name layer role, payload_name b layer role])"

lemma position_role_walk:
  assumes "begin_validate b limits = Inr ()" "i < unat (bm_expected_layer_frames b)"
  shows "position_role b (of_nat i) = Inr (expected_walk b ! i)"
proof -
  have i32: "i < 2 ^ 32" using assms(2) unat_bound [of "bm_expected_layer_frames b"] by simp
  then have u: "unat (of_nat i :: u32) = i" by (simp add: unat_of_nat)
  show ?thesis
  proof (cases "is_v2 b")
    case True
    have "i < length (layout_walk_v2 b)" using v2_counts_walk(1) [OF begin_validate_v2 [OF assms(1) True]] assms(2) by simp
    then show ?thesis using True by (cases "layout_walk_v2 b ! i") (simp add: position_role_def expected_walk_def walk_entry_def u)
  next
    case False
    have "(of_nat i :: u32) div 2 = of_nat (i div 2)" "((of_nat i :: u32) mod 2 = 0) = (i mod 2 = 0)"
      using u by (simp_all add: word_unat_eq_iff unat_div unat_mod unat_of_nat take_bit_nat_eq_self)
    then show ?thesis using False assms(2) by (simp add: position_role_def expected_walk_def)
  qed
qed

lemma reopen_planes_verifying:
  assumes b: "begin_validate b limits = Inr ()"
  shows "verifying S V b limits v ps \<Longrightarrow> set is \<subseteq> {..<unat (bm_expected_layer_frames b)}
    \<Longrightarrow> try_fold (reopen_plane S V d limits b) (v, ps, names) is = Inr (v', qs, names')
    \<Longrightarrow> verifying S V b limits v' qs \<and> names' = names @ concat (map (\<lambda>i. plane_names b (expected_walk b ! i)) is)"
proof (induction "is" arbitrary: v ps names)
  case (Cons i "is")
  have "i < unat (bm_expected_layer_frames b)" using Cons.prems(2) by simp
  note pos = position_role_walk [OF b this]
  obtain layer role where w: "expected_walk b ! i = (layer, role)" by (cases "expected_walk b ! i")
  obtain st where st: "reopen_plane S V d limits b (v, ps, names) i = Inr st"
    and rest: "try_fold (reopen_plane S V d limits b) st is = Inr (v', qs, names')" using Cons.prems(3) by (auto simp: ok_iff)
  from st obtain h payload where "(case verify_plane S V v h payload of (Inl e, _) \<Rightarrow> Inl e
      | (Inr plane, w') \<Rightarrow> Inr (w', ps @ [plane], names @ [header_name layer role, payload_name b layer role])) = Inr st"
    by (auto simp: reopen_plane_def pos w Let_def ok_iff)
  then obtain plane w' where p: "verify_plane S V v h payload = (Inr plane, w')"
    and st': "st = (w', ps @ [plane], names @ plane_names b (layer, role))"
    by (auto simp: plane_names_def split: sum.splits prod.splits)
  have "verifying S V b limits w' (ps @ [plane])" by (rule verifying.accept [OF Cons.prems(1) p])
  from Cons.IH [OF this _ rest [unfolded st']] Cons.prems(2) show ?case by (simp add: w)
qed simp

lemma open_verified_Inr:
  assumes "open_verified S V d limits = Inr (b, planes, seal)"
  obtains v verified v' where "verifying S V b limits v planes" "verify_seal S V v seal = (Inr verified, v')"
    "set (map fst (bd_layers d)) = set (concat (map (plane_names b) (expected_walk b)))"
    "map_of (bd_top d) (ascii ''READY'') = Some (Regular (ready_marker seal))" "begin_validate b limits = Inr ()"
proof -
  from assms obtain v0 v names where o: "begin_validate b limits = Inr ()" "verifier_new S V b limits = Inr v0"
    "try_fold (reopen_plane S V d limits b) (v0, [], []) [0..<unat (bm_expected_layer_frames b)] = Inr (v, planes, names)"
    "set (map fst (bd_layers d)) = set names" "\<exists>w. fst (verify_seal S V v seal) = Inr w"
    "read_regular_bounded (bd_top d) (ascii ''READY'') 65 = Inr (ready_marker seal)"
    unfolding open_verified_def by (auto simp: ok_iff simp del: for_each.simps try_fold.simps)
  have n: "length (expected_walk b) = unat (bm_expected_layer_frames b)"
    using v2_counts_walk(1) [OF begin_validate_v2 [OF o(1)]] by (simp add: expected_walk_def)
  have r: "verifying S V b limits v planes \<and> names = [] @ concat (map (\<lambda>i. plane_names b (expected_walk b ! i)) [0..<unat (bm_expected_layer_frames b)])"
    by (rule reopen_planes_verifying [OF o(1) verifying.start [OF o(2)] _ o(3)]) auto
  moreover have "map (\<lambda>i. plane_names b (expected_walk b ! i)) [0..<unat (bm_expected_layer_frames b)] = map (plane_names b) (expected_walk b)"
    by (rule nth_equalityI) (simp_all add: n)
  moreover obtain w v' where "verify_seal S V v seal = (Inr w, v')" using o(5) by (metis prod.collapse)
  moreover have "map_of (bd_top d) (ascii ''READY'') = Some (Regular (ready_marker seal))"
    using o(6) by (simp add: read_regular_bounded_Inr)
  ultimately show ?thesis using that o(1,4) by auto
qed

text \<open>Property C12.  A bundle that reopens without error is complete and untouched.  Its planes are exactly the
  planes of its manifest's walk with the declared sizes and digests, the payloads add up to the
  declared total, the layers directory holds their files and nothing else, and the ready marker names
  the artifact digest of the seal, which covers the begin manifest, all headers and the seal core.\<close>

theorem reopened_bundle_complete:
  assumes "open_verified S V d limits = Inr (b, planes, seal)"
  shows "map (\<lambda>p. (lh_layer (vp_header p), lh_role (vp_header p))) planes = expected_walk b
    \<and> (\<forall>i < length planes. follows S b i (planes ! i))
    \<and> length (concat (map vp_bytes planes)) = unat (bm_expected_payload_bytes b)
    \<and> set (map fst (bd_layers d)) = set (concat (map (plane_names b) (expected_walk b)))
    \<and> map_of (bd_top d) (ascii ''READY'') = Some (Regular (ready_marker seal))
    \<and> artifact_sha256 S V b (map vp_header planes) (sl_core seal) = Inr (sl_artifact_sha256 seal)"
proof -
  obtain v verified v' where o: "verifying S V b limits v planes" "verify_seal S V v seal = (Inr verified, v')"
    "set (map fst (bd_layers d)) = set (concat (map (plane_names b) (expected_walk b)))"
    "map_of (bd_top d) (ascii ''READY'') = Some (Regular (ready_marker seal))"
    using open_verified_Inr [OF assms] .
  show ?thesis using sealed_complete [OF o(1,2)] o(3,4) by blast
qed

section \<open>Reachable stagers\<close>

definition no_faults :: fs_faults where
  "no_faults = (\<lambda>_. None)"

definition after_verify :: "verified_plane hresult \<Rightarrow> verified_plane list \<Rightarrow> verified_plane list" where
  "after_verify r ps = (case r of Inl _ \<Rightarrow> ps | Inr p \<Rightarrow> ps @ [p])"

text \<open>A stager after any calls on a file system that does not fail, with the planes its verifier accepted.\<close>

inductive staging ::
  "'n services \<Rightarrow> 'n v1_serdes \<Rightarrow> begin_manifest \<Rightarrow> validation_limits \<Rightarrow> bundle_stager \<Rightarrow> verified_plane list \<Rightarrow> bool"
  for S V b limits where
  create: "bundle_create S V no_faults (Inr ()) Free b limits = Inr s \<Longrightarrow> staging S V b limits s []"
| ingest: "staging S V b limits s ps \<Longrightarrow> bundle_ingest S V no_faults s h payload = (r, s')
    \<Longrightarrow> staging S V b limits s' (after_verify (fst (verify_plane S V (bs_verifier s) h payload)) ps)"
| stage: "staging S V b limits s ps \<Longrightarrow> stage_verified S V no_faults s p = (r, s')
    \<Longrightarrow> staging S V b limits s' (after_verify (fst (verify_plane S V (bs_verifier s) (vp_header p) (vp_bytes p))) ps)"
| prepare: "staging S V b limits s ps \<Longrightarrow> prepare_seal S V no_faults s w = (r, s') \<Longrightarrow> staging S V b limits s' ps"
| seal: "staging S V b limits s ps \<Longrightarrow> bundle_seal S V no_faults s m = (r, s') \<Longrightarrow> staging S V b limits s' ps"
| publish: "staging S V b limits s ps \<Longrightarrow> bundle_publish no_faults s = (r, s') \<Longrightarrow> staging S V b limits s' ps"
| abort: "staging S V b limits s ps \<Longrightarrow> bundle_abort no_faults s = (r, s') \<Longrightarrow> staging S V b limits s' ps"

text \<open>The files of the accepted planes, latest first, and the four phases of a stager.\<close>

definition plane_files :: "'n services \<Rightarrow> 'n v1_serdes \<Rightarrow> begin_manifest \<Rightarrow> verified_plane \<Rightarrow> entries" where
  "plane_files S V b p = (let h = vp_header p in
     [(payload_name b (lh_layer h) (lh_role h), Regular (vp_bytes p)),
      (header_name (lh_layer h) (lh_role h), Regular (projr (canonical_json S (vs_header V) h)))])"

definition layer_files :: "'n services \<Rightarrow> 'n v1_serdes \<Rightarrow> begin_manifest \<Rightarrow> verified_plane list \<Rightarrow> entries" where
  "layer_files S V b ps = concat (map (plane_files S V b) (rev ps))"

definition begin_entries :: "'n services \<Rightarrow> 'n v1_serdes \<Rightarrow> begin_manifest \<Rightarrow> entries" where
  "begin_entries S V b = [(ascii ''begin.json'', Regular (projr (canonical_json S (vs_begin V) b))), (ascii ''layers'', Directory)]"

definition seal_entries :: "'n services \<Rightarrow> 'n v1_serdes \<Rightarrow> begin_manifest \<Rightarrow> seal_manifest \<Rightarrow> entries" where
  "seal_entries S V b seal = (ascii ''seal.json'', Regular (projr (canonical_json S (vs_seal V) seal))) # begin_entries S V b"

definition sealed_by :: "'n services \<Rightarrow> 'n v1_serdes \<Rightarrow> begin_manifest \<Rightarrow> validation_limits \<Rightarrow> verified_plane list \<Rightarrow> seal_manifest \<Rightarrow> bool" where
  "sealed_by S V b limits ps seal \<longleftrightarrow> is_ok (canonical_json S (vs_seal V) seal)
     \<and> (\<exists>v w v'. verifying S V b limits v ps \<and> verify_seal S V v seal = (Inr w, v'))"

definition phase_ok ::
  "'n services \<Rightarrow> 'n v1_serdes \<Rightarrow> begin_manifest \<Rightarrow> validation_limits \<Rightarrow> bundle_stager \<Rightarrow> verified_plane list \<Rightarrow> bool" where
  "phase_ok S V b limits s ps \<longleftrightarrow>
     (receiving s \<and> bs_final s = None \<and> bs_staging s = Some \<lparr>bd_top = begin_entries S V b, bd_layers = layer_files S V b ps\<rparr>)
   \<or> (\<exists>seal. \<not> bs_committed s \<and> \<not> bs_aborted s \<and> bs_prepared s = Some seal \<and> sealed_by S V b limits ps seal \<and> iv_sealed (bs_verifier s)
        \<and> bs_final s = None \<and> bs_staging s = Some \<lparr>bd_top = seal_entries S V b seal, bd_layers = layer_files S V b ps\<rparr>)
   \<or> (\<exists>seal. bs_committed s \<and> bs_prepared s = Some seal \<and> sealed_by S V b limits ps seal \<and> iv_sealed (bs_verifier s) \<and> bs_staging s = None
        \<and> bs_final s = Some \<lparr>bd_top = (ascii ''READY'', Regular (ready_marker seal)) # seal_entries S V b seal,
             bd_layers = layer_files S V b ps\<rparr>)
   \<or> (bs_aborted s \<and> \<not> bs_committed s \<and> bs_staging s = None \<and> bs_final s = None)"

definition stager_ok ::
  "'n services \<Rightarrow> 'n v1_serdes \<Rightarrow> begin_manifest \<Rightarrow> validation_limits \<Rightarrow> bundle_stager \<Rightarrow> verified_plane list \<Rightarrow> bool" where
  "stager_ok S V b limits s ps \<longleftrightarrow> verifying S V b limits (bs_verifier s) ps \<and> bs_begin s = b \<and> phase_ok S V b limits s ps"

lemma walk_of_distinct:
  assumes "begin_validate b limits = Inr ()"
  shows "distinct (expected_walk b)" "length (expected_walk b) = unat (bm_expected_layer_frames b)"
proof -
  show "length (expected_walk b) = unat (bm_expected_layer_frames b)"
    using v2_counts_walk(1) [OF begin_validate_v2 [OF assms]] by (simp add: expected_walk_def)
  show "distinct (expected_walk b)"
  proof (cases "is_v2 b")
    case True
    note v = begin_validate_v2(1) [OF assms True]
    have "inj_on snd (set (layout_walk_v2 b))" using walk_layer_class [OF v] by (auto intro!: inj_onI)
    then show ?thesis using True walk_distinct [OF v] by (simp add: expected_walk_def distinct_map)
  next
    case False
    let ?n = "unat (bm_expected_layer_frames b)"
    have pos: "i = j" if "i < ?n" "j < ?n" "(of_nat (i div 2) :: u32) = of_nat (j div 2)" "(i mod 2 = 0) = (j mod 2 = 0)" for i j
    proof -
      have "?n < 2 ^ 32" using unat_bound [of "bm_expected_layer_frames b"] by simp
      then have "i div 2 < 2 ^ 32" "j div 2 < 2 ^ 32" using that by simp_all
      then have "i div 2 = j div 2" using that(3) by (simp add: word_unat_eq_iff unat_of_nat)
      then show ?thesis using that(4) by presburger
    qed
    have "inj_on (\<lambda>i. (of_nat (i div 2) :: u32, if i mod 2 = 0 then Key else Value)) (set [0..<?n])"
    proof (rule inj_onI)
      fix i j
      assume ij: "i \<in> set [0..<?n]" "j \<in> set [0..<?n]"
        and eq: "(of_nat (i div 2) :: u32, if i mod 2 = 0 then Key else Value) = (of_nat (j div 2), if j mod 2 = 0 then Key else Value)"
      have par: "(i mod 2 = 0) = (j mod 2 = 0)"
        using eq by (cases "i mod 2 = 0"; cases "j mod 2 = 0") simp_all
      have "(of_nat (i div 2) :: u32) = of_nat (j div 2)" using eq by (rule Pair_inject)
      with ij par show "i = j" by (intro pos) simp_all
    qed
    then show ?thesis using False by (simp add: expected_walk_def distinct_map)
  qed
qed

lemma fresh_names:
  assumes "verifying S V b limits v (ps @ [p])"
  shows "map_of (layer_files S V b ps) (header_name (lh_layer (vp_header p)) (lh_role (vp_header p))) = None"
    "map_of (layer_files S V b ps) (payload_name b (lh_layer (vp_header p)) (lh_role (vp_header p))) = None"
proof -
  note t = verifying_tracks [OF assms]
  have b: "begin_validate b limits = Inr ()" using t by (simp add: follows_stream_def)
  have walk: "(lh_layer (vp_header ((ps @ [p]) ! i)), lh_role (vp_header ((ps @ [p]) ! i))) = expected_walk b ! i" if "i \<le> length ps" for i
    using tracks_prefix(2) [OF t, of i] that by (simp add: follows_def)
  have n: "length ps < length (expected_walk b)" using tracks_prefix(1) [OF t] walk_of_distinct(2) [OF b] by simp
  have other: "(lh_layer (vp_header q), lh_role (vp_header q)) \<noteq> (lh_layer (vp_header p), lh_role (vp_header p))" if "q \<in> set ps" for q
  proof -
    obtain i where i: "i < length ps" "q = ps ! i" using \<open>q \<in> set ps\<close> by (metis in_set_conv_nth)
    have "expected_walk b ! i \<noteq> expected_walk b ! length ps" using i(1) n walk_of_distinct(1) [OF b] by (simp add: nth_eq_iff_index_eq)
    then show ?thesis using walk [of i] walk [of "length ps"] i by (simp add: nth_append)
  qed
  have "header_name (lh_layer (vp_header p)) (lh_role (vp_header p)) \<notin> fst ` set (layer_files S V b ps)"
    "payload_name b (lh_layer (vp_header p)) (lh_role (vp_header p)) \<notin> fst ` set (layer_files S V b ps)"
    using other by (fastforce simp: layer_files_def plane_files_def Let_def names_differ names_differ(3) [symmetric])+
  then show "map_of (layer_files S V b ps) (header_name (lh_layer (vp_header p)) (lh_role (vp_header p))) = None"
    "map_of (layer_files S V b ps) (payload_name b (lh_layer (vp_header p)) (lh_role (vp_header p))) = None"
    by (simp_all add: map_of_eq_None_iff)
qed

lemma write_verified_no_faults:
  assumes "receiving s" "bs_staging s = Some d" "bs_begin s = b" "canonical_json S (vs_header V) (vp_header p) = Inr json"
    and "map_of (bd_layers d) (header_name (lh_layer (vp_header p)) (lh_role (vp_header p))) = None"
    "map_of (bd_layers d) (payload_name b (lh_layer (vp_header p)) (lh_role (vp_header p))) = None"
  shows "write_verified S V no_faults s p =
    (Inr (), s\<lparr>bs_staging := Some (d\<lparr>bd_layers := plane_files S V b p @ bd_layers d\<rparr>)\<rparr>)"
  using assms names_differ(3) [symmetric]
  by (simp add: write_verified_def Let_def stage_layer_def write_new_sync_def no_faults_def plane_files_def)

lemma accepted_plane:
  assumes "verifying S V b limits v ps" "verify_plane S V v h payload = (Inr p, v')"
  shows "\<not> iv_sealed v" "\<not> iv_sealed v'" "verifying S V b limits v' (ps @ [p])" "p = \<lparr>vp_header = h, vp_bytes = payload\<rparr>"
    "\<exists>json. canonical_json S (vs_header V) (vp_header p) = Inr json"
proof -
  show "verifying S V b limits v' (ps @ [p])" by (rule verifying.accept [OF assms])
  from assms(2) show "p = \<lparr>vp_header = h, vp_bytes = payload\<rparr>" by (auto elim: verify_plane_Inr)
  from assms(2) obtain nx enc where c: "check_plane S V v h payload = Inr (nx, enc)" "p = \<lparr>vp_header = h, vp_bytes = payload\<rparr>"
    "v' = v\<lparr>iv_payload_hash := iv_payload_hash v @ payload, iv_descriptor_hash := iv_descriptor_hash v @ enc @ [10],
            iv_artifact_prefix_hash := iv_artifact_prefix_hash v @ enc @ [10], iv_payload_bytes := nx,
            iv_headers := iv_headers v @ [h]\<rparr>" by (rule verify_plane_Inr)
  then show "\<not> iv_sealed v" by (auto simp: check_plane_def)
  then show "\<not> iv_sealed v'" using c(3) by simp
  show "\<exists>json. canonical_json S (vs_header V) (vp_header p) = Inr json"
    using check_plane_Inr(7) [OF verifying_tracks [OF assms(1)] c(1)] c(2) by simp
qed

lemma stage_accepted:
  assumes ok: "stager_ok S V b limits s ps" and acc: "verify_plane S V (bs_verifier s) h payload = (Inr p, v')"
    and w: "write_verified S V no_faults (s\<lparr>bs_verifier := v'\<rparr>) p = (r, s')"
  shows "stager_ok S V b limits s' (ps @ [p])"
proof -
  have v: "verifying S V b limits (bs_verifier s) ps" and bg: "bs_begin s = b" and ph: "phase_ok S V b limits s ps"
    using ok by (simp_all add: stager_ok_def)
  note a = accepted_plane [OF v acc]
  obtain json where json: "canonical_json S (vs_header V) (vp_header p) = Inr json" using a(5) by blast
  note f = fresh_names [OF a(3)]
  consider (rec) "receiving s" "bs_final s = None" "bs_staging s = Some \<lparr>bd_top = begin_entries S V b, bd_layers = layer_files S V b ps\<rparr>"
    | (ab) "bs_aborted s" "\<not> bs_committed s" "bs_staging s = None" "bs_final s = None"
    using ph a(1) by (auto simp: phase_ok_def)
  then show ?thesis
  proof cases
    case rec
    have "s' = s\<lparr>bs_verifier := v', bs_staging := Some \<lparr>bd_top = begin_entries S V b, bd_layers = layer_files S V b (ps @ [p])\<rparr>\<rparr>"
      using w write_verified_no_faults [of "s\<lparr>bs_verifier := v'\<rparr>" "\<lparr>bd_top = begin_entries S V b, bd_layers = layer_files S V b ps\<rparr>" b S V p json]
        rec bg json f by (simp add: receiving_def layer_files_def)
    then show ?thesis using rec a(3) bg by (simp add: stager_ok_def phase_ok_def receiving_def)
  next
    case ab
    then have "s' = s\<lparr>bs_verifier := v'\<rparr>" using w by (simp add: write_verified_def receiving_def)
    then show ?thesis using ab a(3) bg by (simp add: stager_ok_def phase_ok_def)
  qed
qed

lemma verify_seal_Inr:
  assumes "verify_seal S V v seal = (Inr w, v')"
  shows "\<not> iv_sealed v" "iv_sealed v'" "vl_seal w = seal"
  using assms by (auto simp: verify_seal_def check_seal_def Let_def ok_iff split: sum.splits if_splits)

lemma verify_seal_Inl: "verify_seal S V v seal = (Inl e, v') \<Longrightarrow> v' = v"
  by (auto simp: verify_seal_def split: sum.splits)

lemma prepare_phase:
  assumes ok: "stager_ok S V b limits s ps" and rc: "receiving s" and vs: "verify_seal S V (bs_verifier s) m = (Inr w, v')"
    and wp: "write_prepared_seal S V no_faults (s\<lparr>bs_verifier := v'\<rparr>) m = (r, s')"
  shows "stager_ok S V b limits s' ps"
proof -
  have v: "verifying S V b limits (bs_verifier s) ps" and bg: "bs_begin s = b" and ph: "phase_ok S V b limits s ps"
    using ok by (simp_all add: stager_ok_def)
  have v': "verifying S V b limits v' ps" by (rule verifying.seal [OF v vs])
  have d: "bs_final s = None" "bs_staging s = Some \<lparr>bd_top = begin_entries S V b, bd_layers = layer_files S V b ps\<rparr>"
    using ph rc by (auto simp: phase_ok_def receiving_def)
  show ?thesis
  proof (cases "canonical_json S (vs_seal V) m")
    case (Inl e)
    then have "s' = s\<lparr>bs_verifier := v'\<rparr>" using wp by (simp add: write_prepared_seal_def)
    then show ?thesis using v' bg d rc by (simp add: stager_ok_def phase_ok_def receiving_def)
  next
    case (Inr json)
    have fresh: "map_of (begin_entries S V b) (ascii ''seal.json'') = None" by (simp add: begin_entries_def ascii_inject)
    have "s' = s\<lparr>bs_verifier := v', bs_staging := Some \<lparr>bd_top = seal_entries S V b m, bd_layers = layer_files S V b ps\<rparr>, bs_prepared := Some m\<rparr>"
      using wp d Inr fresh by (simp add: write_prepared_seal_def stage_top_def write_new_sync_def no_faults_def sync_staging_def attempt_def seal_entries_def)
    moreover have "sealed_by S V b limits ps m" using Inr v vs by (auto simp: sealed_by_def)
    ultimately show ?thesis using v' bg d rc verify_seal_Inr(2) [OF vs] by (simp add: stager_ok_def phase_ok_def receiving_def)
  qed
qed

lemma publish_phase:
  assumes ok: "stager_ok S V b limits s ps" and "bundle_publish no_faults s = (r, s')"
  shows "stager_ok S V b limits s' ps"
proof (cases "\<not> bs_committed s \<and> \<not> bs_aborted s \<and> bs_prepared s \<noteq> None")
  case True
  then obtain seal where p: "bs_prepared s = Some seal" "sealed_by S V b limits ps seal" "iv_sealed (bs_verifier s)" "bs_final s = None"
    "bs_staging s = Some \<lparr>bd_top = seal_entries S V b seal, bd_layers = layer_files S V b ps\<rparr>"
    using ok by (auto simp: stager_ok_def phase_ok_def receiving_def)
  have fresh: "map_of (seal_entries S V b seal) (ascii ''READY'') = None" by (simp add: seal_entries_def begin_entries_def ascii_inject)
  have "s' = s\<lparr>bs_final := Some \<lparr>bd_top = (ascii ''READY'', Regular (ready_marker seal)) # seal_entries S V b seal,
             bd_layers = layer_files S V b ps\<rparr>, bs_staging := None, bs_committed := True\<rparr>"
    using assms(2) True p fresh
    by (auto simp: bundle_publish_def stage_top_def write_new_sync_def no_faults_def sync_staging_def attempt_def Let_def)
  then show ?thesis using ok p by (simp add: stager_ok_def phase_ok_def)
next
  case False
  then have "s' = s" using assms(2) by (auto simp: bundle_publish_def split: if_splits)
  then show ?thesis using ok by simp
qed

lemma staging_ok: "staging S V b limits s ps \<Longrightarrow> stager_ok S V b limits s ps"
proof (induction rule: staging.induct)
  case (create s)
  then show ?case
    by (auto simp: bundle_create_def attempt_def ok_iff stager_ok_def phase_ok_def receiving_def empty_staging_def write_new_sync_def no_faults_def
        begin_entries_def layer_files_def ascii_inject intro: verifying.start)
next
  case (ingest s ps h payload r s')
  then have v: "verifying S V b limits (bs_verifier s) ps" by (simp add: stager_ok_def)
  obtain q v' where c: "verify_plane S V (bs_verifier s) h payload = (q, v')" by (cases "verify_plane S V (bs_verifier s) h payload")
  show ?case
  proof (cases q)
    case (Inl e)
    then show ?thesis using ingest c verify_plane_Inl [of S V "bs_verifier s" h payload e v'] by (simp add: bundle_ingest_def after_verify_def)
  next
    case (Inr p)
    then show ?thesis using ingest c stage_accepted [OF ingest.IH, of h payload p v' r s'] by (simp add: bundle_ingest_def after_verify_def)
  qed
next
  case (stage s ps p r s')
  obtain q v' where c: "verify_plane S V (bs_verifier s) (vp_header p) (vp_bytes p) = (q, v')"
    by (cases "verify_plane S V (bs_verifier s) (vp_header p) (vp_bytes p)")
  have v: "verifying S V b limits (bs_verifier s) ps" using stage.IH by (simp add: stager_ok_def)
  show ?case
  proof (cases q)
    case (Inl e)
    then show ?thesis using stage c verify_plane_Inl [of S V "bs_verifier s" "vp_header p" "vp_bytes p" e v']
      by (simp add: stage_verified_def after_verify_def)
  next
    case (Inr local)
    then have "local = p" using accepted_plane(4) [OF v, of "vp_header p" "vp_bytes p" local v'] c by simp
    then show ?thesis using Inr stage c stage_accepted [OF stage.IH, of "vp_header p" "vp_bytes p" p v' r s']
      by (simp add: stage_verified_def after_verify_def)
  qed
next
  case (prepare s ps w r s')
  obtain q v' where c: "verify_seal S V (bs_verifier s) (vl_seal w) = (q, v')" by (cases "verify_seal S V (bs_verifier s) (vl_seal w)")
  show ?case
  proof (cases q)
    case (Inl e)
    then show ?thesis using prepare c verify_seal_Inl [of S V "bs_verifier s" "vl_seal w" e v'] by (auto simp: prepare_seal_def split: if_splits)
  next
    case (Inr local)
    have keep: "stager_ok S V b limits (s\<lparr>bs_verifier := v'\<rparr>) ps" if "receiving s"
      using that prepare.IH verifying.seal [of S V b limits "bs_verifier s" ps "vl_seal w" q v'] c
      by (auto simp: stager_ok_def phase_ok_def receiving_def)
    show ?thesis using Inr prepare c keep prepare_phase [OF prepare.IH, of "vl_seal w" local v' r s']
      by (auto simp: prepare_seal_def split: if_splits)
  qed
next
  case (seal s ps m r s')
  obtain q v' where c: "verify_seal S V (bs_verifier s) m = (q, v')" by (cases "verify_seal S V (bs_verifier s) m")
  show ?case
  proof (cases q)
    case (Inl e)
    then show ?thesis using seal c verify_seal_Inl [of S V "bs_verifier s" m e v'] by (auto simp: bundle_seal_def split: if_splits)
  next
    case (Inr w)
    have m: "vl_seal w = m" using verify_seal_Inr(3) c Inr by blast
    obtain q1 s1 where w1: "write_prepared_seal S V no_faults (s\<lparr>bs_verifier := v'\<rparr>) m = (q1, s1)"
      by (cases "write_prepared_seal S V no_faults (s\<lparr>bs_verifier := v'\<rparr>) m")
    have s1: "stager_ok S V b limits s1 ps" if "receiving s"
      using prepare_phase [OF seal.IH that _ w1] c Inr by blast
    show ?thesis using Inr seal c m w1 s1 publish_phase [of S V b limits s1 ps r s']
      by (auto simp: bundle_seal_def split: if_splits sum.splits)
  qed
next
  case (publish s ps r s')
  then show ?case by (blast intro: publish_phase)
next
  case (abort s ps r s')
  then show ?case by (auto simp: bundle_abort_def no_faults_def stager_ok_def phase_ok_def receiving_def split: if_splits)
qed

section \<open>A published bundle reopens\<close>

text \<open>The JSON library reads back what it printed, and the text fits the bound on manifest files.\<close>

definition reads_back :: "'n services \<Rightarrow> ('a, 'n) serde \<Rightarrow> 'a \<Rightarrow> bool" where
  "reads_back S D x \<longleftrightarrow> (\<exists>json. canonical_json S D x = Inr json \<and> json \<noteq> [] \<and> length json \<le> MANIFEST_MAX_BYTES
     \<and> sd_from_slice D json = Inr x)"

lemma reads_backD:
  assumes "reads_back S D x"
  shows "read_regular_bounded es name MANIFEST_MAX_BYTES = Inr (projr (canonical_json S D x))
      \<longleftrightarrow> map_of es name = Some (Regular (projr (canonical_json S D x)))"
    "decode_canonical_json S D (projr (canonical_json S D x)) MANIFEST_MAX_BYTES = Inr x"
  using assms by (auto simp: reads_back_def read_regular_bounded_Inr decode_canonical_json_def map_canonical_def)

lemma layer_files_distinct: "verifying S V b limits v ps \<Longrightarrow> distinct (map fst (layer_files S V b ps))"
proof -
  assume v: "verifying S V b limits v ps"
  note t = verifying_tracks [OF v]
  have b: "begin_validate b limits = Inr ()" using t by (simp add: follows_stream_def)
  have "map (\<lambda>p. (lh_layer (vp_header p), lh_role (vp_header p))) ps = take (length ps) (expected_walk b)"
    using tracks_prefix [OF t] walk_of_distinct(2) [OF b] by (intro nth_equalityI) (auto simp: follows_def)
  then have "distinct (map (\<lambda>p. (lh_layer (vp_header p), lh_role (vp_header p))) ps)"
    using walk_of_distinct(1) [OF b] by simp
  then show ?thesis
  proof (induction ps rule: rev_induct)
    case (snoc p ps)
    then show ?case
      by (auto simp: layer_files_def plane_files_def Let_def names_differ names_differ(3) [symmetric])
  qed (simp add: layer_files_def)
qed

lemma layer_files_lookup:
  assumes "verifying S V b limits v ps" "p \<in> set ps"
  shows "map_of (layer_files S V b ps) (header_name (lh_layer (vp_header p)) (lh_role (vp_header p)))
      = Some (Regular (projr (canonical_json S (vs_header V) (vp_header p))))"
    "map_of (layer_files S V b ps) (payload_name b (lh_layer (vp_header p)) (lh_role (vp_header p))) = Some (Regular (vp_bytes p))"
proof -
  have "set (plane_files S V b p) \<subseteq> set (layer_files S V b ps)" using assms(2) by (auto simp: layer_files_def)
  then have "(header_name (lh_layer (vp_header p)) (lh_role (vp_header p)), Regular (projr (canonical_json S (vs_header V) (vp_header p)))) \<in> set (layer_files S V b ps)"
    "(payload_name b (lh_layer (vp_header p)) (lh_role (vp_header p)), Regular (vp_bytes p)) \<in> set (layer_files S V b ps)"
    by (auto simp: plane_files_def Let_def)
  from this [THEN map_of_is_SomeI [OF layer_files_distinct [OF assms(1)]]]
  show "map_of (layer_files S V b ps) (header_name (lh_layer (vp_header p)) (lh_role (vp_header p)))
      = Some (Regular (projr (canonical_json S (vs_header V) (vp_header p))))"
    "map_of (layer_files S V b ps) (payload_name b (lh_layer (vp_header p)) (lh_role (vp_header p))) = Some (Regular (vp_bytes p))" .
qed

lemma expected_size_positive:
  assumes b: "begin_validate b limits = Inr ()" and i: "i < unat (bm_expected_layer_frames b)"
  shows "0 < expected_size b i"
proof (cases "is_v2 b")
  case True
  note v = begin_validate_v2 [OF b True]
  have iw: "i < length (layout_walk_v2 b)" using v2_counts_walk(1) [OF v] i by simp
  obtain ci layer role where w: "layout_walk_v2 b ! i = (ci, layer, role)" by (cases "layout_walk_v2 b ! i")
  let ?c = "bm_layout_table b ! unat ci"
  have "class_ok b ?c" using validated_table(1) [OF v(1)] walk_class_valid(1) [OF v(1) iw w] by (simp add: list_all_length)
  moreover have "window_of b ?c \<noteq> 0" using begin_validate_counts(2) [OF b] by (simp add: window_of_def min_def)
  moreover have "plane_element_bytes_v2 b role \<noteq> 0" by (simp add: plane_element_bytes_v2_def)
  ultimately show ?thesis using True by (simp add: expected_size_def entry_size_def w plane_size_def class_ok_def unat_gt_0)
next
  case False
  then show ?thesis by (rule v1_bytes(2) [OF b])
qed

lemma reopen_all:
  assumes w: "verifying S V b limits w ps" and d: "bd_layers d = layer_files S V b ps"
    and rb: "\<forall>p \<in> set ps. reads_back S (vs_header V) (vp_header p)"
  shows "verifying S V b limits v (take k ps) \<Longrightarrow> \<not> iv_sealed v \<Longrightarrow> k \<le> length ps
    \<Longrightarrow> \<exists>v'. try_fold (reopen_plane S V d limits b) (v, take k ps, names) [k..<length ps]
        = Inr (v', ps, names @ concat (map (\<lambda>p. plane_names b (lh_layer (vp_header p), lh_role (vp_header p))) (drop k ps)))
      \<and> verifying S V b limits v' ps \<and> \<not> iv_sealed v'"
proof (induction "length ps - k" arbitrary: k v names)
  case 0
  then show ?case by auto
next
  case (Suc m)
  note t = verifying_tracks [OF w]
  have b: "begin_validate b limits = Inr ()" using t by (simp add: follows_stream_def)
  have k: "k < length ps" using Suc.hyps(2) by simp
  let ?p = "ps ! k"
  let ?l = "lh_layer (vp_header ?p)" and ?r = "lh_role (vp_header ?p)"
  have f: "follows S b k ?p" by (rule tracks_prefix(2) [OF t k])
  have kf: "k < unat (bm_expected_layer_frames b)" using tracks_prefix(1) [OF t] k by simp
  have pos: "position_role b (of_nat k) = Inr (?l, ?r)" using position_role_walk [OF b kf] f by (simp add: follows_def)
  note lk = layer_files_lookup [OF w nth_mem [OF k]]
  have rh: "reads_back S (vs_header V) (vp_header ?p)" using rb nth_mem [OF k] by blast
  have len: "length (vp_bytes ?p) = expected_size b k" using f by (simp add: follows_def)
  have payload: "read_regular_bounded (bd_layers d) (payload_name b ?l ?r) (unat (vl_max_frame_bytes limits)) = Inr (vp_bytes ?p)"
    using lk(2) len expected_size_positive [OF b kf] expected_frame_bound [OF b kf] by (auto simp: read_regular_bounded_Inr d)
  have header: "read_regular_bounded (bd_layers d) (header_name ?l ?r) MANIFEST_MAX_BYTES = Inr (projr (canonical_json S (vs_header V) (vp_header ?p)))"
    using reads_backD(1) [OF rh] lk(1) by (simp add: d)
  obtain v1 where v1: "verify_plane S V v (vp_header ?p) (vp_bytes ?p) = (Inr ?p, v1)" "\<not> iv_sealed v1"
    using accepted_again [OF t verifying_tracks [OF Suc.prems(1)] Suc.prems(2) k] .
  have rj: "reject_symlink (bd_layers d) (header_name ?l ?r) what = Inr ()" "reject_symlink (bd_layers d) (payload_name b ?l ?r) what = Inr ()" for what
    by (simp_all add: reject_symlink_def d lk)
  have step: "reopen_plane S V d limits b (v, take k ps, names) k = Inr (v1, take (Suc k) ps, names @ plane_names b (?l, ?r))"
    using k by (simp add: reopen_plane_def pos Let_def header payload reads_backD(2) [OF rh] v1 plane_names_def rj take_Suc_conv_app_nth)
  have acc: "verifying S V b limits v1 (take (Suc k) ps)"
    using verifying.accept [OF Suc.prems(1) v1(1)] k by (simp add: take_Suc_conv_app_nth)
  have "m = length ps - Suc k" using Suc.hyps(2) by simp
  from Suc.hyps(1) [OF this acc v1(2), of "names @ plane_names b (?l, ?r)"] k
  show ?case using step Cons_nth_drop_Suc [OF k, symmetric] by (simp add: upt_conv_Cons)
qed

lemma sealed_again:
  assumes "sealed_by S V b limits ps seal" "verifying S V b limits v ps" "\<not> iv_sealed v"
  shows "\<exists>w. fst (verify_seal S V v seal) = Inr w" "length ps = unat (bm_expected_layer_frames b)"
    "artifact_sha256 S V b (map vp_header ps) (sl_core seal) = Inr (sl_artifact_sha256 seal)"
proof -
  obtain u w u' where u: "verifying S V b limits u ps" "verify_seal S V u seal = (Inr w, u')" using assms(1) by (auto simp: sealed_by_def)
  note c = check_seal_reference [OF verifying_tracks]
  have "check_seal S V u seal = check_seal S V v seal"
    using c [OF u(1) verify_seal_Inr(1) [OF u(2)]] c [OF assms(2,3)] by simp
  moreover have "check_seal S V u seal = Inr w" using u(2) by (auto simp: verify_seal_def split: sum.splits)
  ultimately have "check_seal S V v seal = Inr w" by simp
  then show "\<exists>w. fst (verify_seal S V v seal) = Inr w" by (simp add: verify_seal_def)
  have b: "begin_validate b limits = Inr ()" using verifying_tracks [OF u(1)] by (simp add: follows_stream_def)
  note sc = sealed_complete [OF u]
  show "length ps = unat (bm_expected_layer_frames b)"
    using sc walk_of_distinct(2) [OF b] by (metis length_map)
  show "artifact_sha256 S V b (map vp_header ps) (sl_core seal) = Inr (sl_artifact_sha256 seal)" using sc by blast
qed

lemma final_reopens:
  assumes ok: "stager_ok S V b limits s ps" and fin: "bs_final s = Some d" and seal: "bs_prepared s = Some seal"
    and S: "hex_ok S" "digests_32 (sv_crypto S)"
    and rb: "reads_back S (vs_begin V) b" "\<forall>p \<in> set ps. reads_back S (vs_header V) (vp_header p)" "reads_back S (vs_seal V) seal"
  shows "open_verified S V d limits = Inr (b, ps, seal)"
proof -
  have w: "verifying S V b limits (bs_verifier s) ps" and sb: "sealed_by S V b limits ps seal"
    and d: "bd_top d = (ascii ''READY'', Regular (ready_marker seal)) # seal_entries S V b seal" "bd_layers d = layer_files S V b ps"
    using ok fin seal by (auto simp: stager_ok_def phase_ok_def)
  have b: "begin_validate b limits = Inr ()" using verifying_tracks [OF w] by (simp add: follows_stream_def)
  obtain json where json: "canonical_json S (vs_begin V) b = Inr json" using rb(1) by (auto simp: reads_back_def)
  obtain v where v: "verifier_new S V b limits = Inr v" "\<not> iv_sealed v" using b json by (simp add: verifier_new_def)
  obtain v' where v': "try_fold (reopen_plane S V d limits b) (v, [], []) [0..<length ps]
        = Inr (v', ps, concat (map (\<lambda>p. plane_names b (lh_layer (vp_header p), lh_role (vp_header p))) ps))"
    "verifying S V b limits v' ps" "\<not> iv_sealed v'"
    using reopen_all [OF w d(2) rb(2), of v 0 "[]"] verifying.start [OF v(1)] v(2) by auto
  note sl = sealed_again [OF sb v'(2,3)]
  obtain x where x: "fst (verify_seal S V v' seal) = Inr x" using sl(1) by blast
  have names: "set (map fst (bd_layers d)) = set (concat (map (\<lambda>p. plane_names b (lh_layer (vp_header p), lh_role (vp_header p))) ps))"
    by (auto simp: d(2) layer_files_def plane_files_def plane_names_def Let_def image_UN)
  obtain y where "sha256_hex S y = sl_artifact_sha256 seal" using sl(3) by (auto simp: artifact_sha256_def ok_iff)
  then have "valid_sha256 (sl_artifact_sha256 seal)" using token_digest_valid(2) [OF S, of y] by simp
  then have "length (ready_marker seal) = 65" by (simp add: ready_marker_def valid_sha256_def)
  then have ready: "read_regular_bounded (bd_top d) (ascii ''READY'') 65 = Inr (ready_marker seal)"
    by (auto simp: read_regular_bounded_Inr d(1) ready_marker_def)
  have top: "map_of (bd_top d) (ascii ''begin.json'') = Some (Regular (projr (canonical_json S (vs_begin V) b)))"
    "map_of (bd_top d) (ascii ''seal.json'') = Some (Regular (projr (canonical_json S (vs_seal V) seal)))"
    "map_of (bd_top d) (ascii ''READY'') = Some (Regular (ready_marker seal))"
    "map_of (bd_top d) (ascii ''layers'') = Some Directory"
    by (simp_all add: d(1) seal_entries_def begin_entries_def ascii_inject)
  have rd: "read_regular_bounded (bd_top d) (ascii ''begin.json'') MANIFEST_MAX_BYTES = Inr (projr (canonical_json S (vs_begin V) b))"
    "read_regular_bounded (bd_top d) (ascii ''seal.json'') MANIFEST_MAX_BYTES = Inr (projr (canonical_json S (vs_seal V) seal))"
    using reads_backD(1) [OF rb(1)] reads_backD(1) [OF rb(3)] top by simp_all
  show ?thesis
    unfolding open_verified_def
    using v'(1) [unfolded sl(2)] names x
    by (simp add: reject_symlink_def top rd reads_backD(2) [OF rb(1)] reads_backD(2) [OF rb(3)] b v(1) ready)
qed


section \<open>A producer's stream is published\<close>

fun ingest_all ::
  "'n services \<Rightarrow> 'n v1_serdes \<Rightarrow> fs_faults \<Rightarrow> bundle_stager \<Rightarrow> (layer_header \<times> bytes) list \<Rightarrow> bundle_stager hresult" where
  "ingest_all S V F s [] = Inr s"
| "ingest_all S V F s ((h, payload) # rest) =
     (case bundle_ingest S V F s h payload of (Inl e, _) \<Rightarrow> Inl e | (Inr _, s') \<Rightarrow> ingest_all S V F s' rest)"

lemma ingest_producer_plane:
  assumes b: "begin_validate b limits = Inr ()" and S: "hex_ok S" "digests_32 (sv_crypto S)" "serdes_total S V"
    and fit: "fitting b payloads" and st: "staging S V b limits s (map (producer_plane S b payloads) [0..<k])" "receiving s" "\<not> iv_sealed (bs_verifier s)"
    and k: "k < length payloads"
  obtains s' where "bundle_ingest S V no_faults s (plane_header S b k (payloads ! k)) (payloads ! k) = (Inr (), s')"
    "staging S V b limits s' (map (producer_plane S b payloads) [0..<Suc k])" "receiving s'" "\<not> iv_sealed (bs_verifier s')"
proof -
  let ?ps = "map (producer_plane S b payloads) [0..<k]"
  note ok = staging_ok [OF st(1)]
  have v: "verifying S V b limits (bs_verifier s) ?ps" and bg: "bs_begin s = b" using ok by (simp_all add: stager_ok_def)
  have len: "length ?ps = k" by simp
  obtain v' where v': "verify_plane S V (bs_verifier s) (plane_header S b k (payloads ! k)) (payloads ! k) = (Inr (producer_plane S b payloads k), v')" "\<not> iv_sealed v'"
    using producer_plane_accepted [OF b S fit verifying_tracks [OF v] st(3)] k unfolding len by blast
  note a = accepted_plane [OF v v'(1)]
  obtain json where json: "canonical_json S (vs_header V) (vp_header (producer_plane S b payloads k)) = Inr json" using a(5) by blast
  have d: "bs_staging s = Some \<lparr>bd_top = begin_entries S V b, bd_layers = layer_files S V b ?ps\<rparr>"
    using ok st(2) by (auto simp: stager_ok_def phase_ok_def receiving_def)
  let ?s' = "s\<lparr>bs_verifier := v', bs_staging := Some \<lparr>bd_top = begin_entries S V b,
    bd_layers = plane_files S V b (producer_plane S b payloads k) @ layer_files S V b ?ps\<rparr>\<rparr>"
  have i: "bundle_ingest S V no_faults s (plane_header S b k (payloads ! k)) (payloads ! k) = (Inr (), ?s')"
    using write_verified_no_faults [of "s\<lparr>bs_verifier := v'\<rparr>" "\<lparr>bd_top = begin_entries S V b, bd_layers = layer_files S V b ?ps\<rparr>" b S V
        "producer_plane S b payloads k" json] st(2) d bg json fresh_names [OF a(3)] v'(1)
    by (simp add: bundle_ingest_def receiving_def)
  have "staging S V b limits ?s' (map (producer_plane S b payloads) [0..<Suc k])"
    using staging.ingest [OF st(1) i] v'(1) by (simp add: after_verify_def)
  then show ?thesis using that [OF i] st(2) v'(2) by (simp add: receiving_def)
qed

lemma ingest_all_producer:
  assumes b: "begin_validate b limits = Inr ()" and S: "hex_ok S" "digests_32 (sv_crypto S)" "serdes_total S V" and fit: "fitting b payloads"
  shows "staging S V b limits s (map (producer_plane S b payloads) [0..<k]) \<Longrightarrow> receiving s \<Longrightarrow> \<not> iv_sealed (bs_verifier s) \<Longrightarrow> k \<le> length payloads
    \<Longrightarrow> \<exists>s'. ingest_all S V no_faults s (map (\<lambda>i. (plane_header S b i (payloads ! i), payloads ! i)) [k..<length payloads]) = Inr s'
      \<and> staging S V b limits s' (map (producer_plane S b payloads) [0..<length payloads]) \<and> receiving s' \<and> \<not> iv_sealed (bs_verifier s')"
proof (induction "length payloads - k" arbitrary: k s)
  case 0
  then have "k = length payloads" by simp
  then show ?case using "0.prems" by auto
next
  case (Suc m)
  have k: "k < length payloads" and m: "m = length payloads - Suc k" using Suc.hyps(2) by simp_all
  obtain s1 where s1: "bundle_ingest S V no_faults s (plane_header S b k (payloads ! k)) (payloads ! k) = (Inr (), s1)"
    "staging S V b limits s1 (map (producer_plane S b payloads) [0..<Suc k])" "receiving s1" "\<not> iv_sealed (bs_verifier s1)"
    using ingest_producer_plane [OF b S fit Suc.prems(1-3) k] .
  from Suc.hyps(1) [OF m s1(2-4)] k s1(1) show ?case by (simp add: upt_conv_Cons)
qed

lemma producer_published:
  assumes b: "begin_validate b limits = Inr ()" and S: "hex_ok S" "digests_32 (sv_crypto S)" "serdes_total S V"
    and fit: "fitting b payloads"
    and tokens: "token_ids_sha256 S tokens = bm_token_ids_sha256 b" "length tokens = unat (bm_cached_token_count b) + 1"
    and canary: "\<And>chain. canary_ok b (producer_core S b chain (concat payloads) tokens canary)"
    and hs: "hs = map (\<lambda>i. plane_header S b i (payloads ! i)) [0..<length payloads]"
    and sj: "\<And>seal. producer_seal S V b hs (concat payloads) tokens canary key = Inr seal \<Longrightarrow> is_ok (canonical_json S (vs_seal V) seal)"
  obtains s0 s1 seal s2 d where "bundle_create S V no_faults (Inr ()) Free b limits = Inr s0"
    "ingest_all S V no_faults s0 (map (\<lambda>i. (plane_header S b i (payloads ! i), payloads ! i)) [0..<length payloads]) = Inr s1"
    "producer_seal S V b hs (concat payloads) tokens canary key = Inr seal" "bundle_seal S V no_faults s1 seal = (Inr (), s2)"
    "staging S V b limits s2 (map (producer_plane S b payloads) [0..<length payloads])" "bs_final s2 = Some d" "bs_prepared s2 = Some seal"
    "bm_hmac_key_id b \<noteq> None \<Longrightarrow> authenticate_hmac S V seal b hs key = Inr ()"
proof -
  define ps where "ps = map (producer_plane S b payloads) [0..<length payloads]"
  obtain json where json: "canonical_json S (vs_begin V) b = Inr json" using serdes_totalD(1) [OF S(3)] by blast
  obtain s0 where s0: "bundle_create S V no_faults (Inr ()) Free b limits = Inr s0" "receiving s0" "\<not> iv_sealed (bs_verifier s0)"
    using b json by (simp add: bundle_create_def attempt_def verifier_new_def write_new_sync_def no_faults_def empty_staging_def ascii_inject receiving_def)
  obtain s1 where s1: "ingest_all S V no_faults s0 (map (\<lambda>i. (plane_header S b i (payloads ! i), payloads ! i)) [0..<length payloads]) = Inr s1"
    "staging S V b limits s1 ps" "receiving s1" "\<not> iv_sealed (bs_verifier s1)"
    using ingest_all_producer [OF b S fit, of s0 0] staging.create [OF s0(1)] s0(2,3) by (auto simp: ps_def)
  note ok = staging_ok [OF s1(2)]
  have v: "verifying S V b limits (bs_verifier s1) ps"
    and d: "bs_staging s1 = Some \<lparr>bd_top = begin_entries S V b, bd_layers = layer_files S V b ps\<rparr>" "bs_final s1 = None"
    using ok s1(3) by (auto simp: stager_ok_def phase_ok_def receiving_def)
  have hs': "map vp_header ps = hs" and bytes: "map vp_bytes ps = payloads"
    by (auto simp: ps_def hs producer_plane_def intro!: nth_equalityI)
  have "length hs = unat (bm_expected_layer_frames b)" using fit by (simp add: hs fitting_def)
  from producer_seal_valid [OF b S this tokens canary] obtain seal where sl: "producer_seal S V b hs (concat payloads) tokens canary key = Inr seal"
    "seal_validate_for S V seal b hs (bm_expected_payload_bytes b) (sha256_hex S (concat payloads)) = Inr ()"
    "bm_hmac_key_id b \<noteq> None \<Longrightarrow> authenticate_hmac S V seal b hs key = Inr ()" by metis
  have "length (concat payloads) = unat (bm_expected_payload_bytes b)"
    using concat_sizes [of payloads "expected_size b"] expected_total [OF b] fit by (simp add: fitting_def)
  then obtain w where w: "check_seal S V (bs_verifier s1) seal = Inr w"
    using check_seal_reference [OF verifying_tracks [OF v] s1(4), of seal] sl(2) unfolding hs' bytes by simp
  then have vs: "verify_seal S V (bs_verifier s1) seal = (Inr w, (bs_verifier s1)\<lparr>iv_sealed := True\<rparr>)" by (simp add: verify_seal_def)
  obtain sjson where sjson: "canonical_json S (vs_seal V) seal = Inr sjson" using sj [OF sl(1)] by (auto simp: is_ok_iff)
  have fresh: "map_of (begin_entries S V b) (ascii ''seal.json'') = None" "map_of (seal_entries S V b seal) (ascii ''READY'') = None"
    by (simp_all add: seal_entries_def begin_entries_def ascii_inject)
  obtain s2 where s2: "bundle_seal S V no_faults s1 seal = (Inr (), s2)" "bs_final s2 \<noteq> None" "bs_prepared s2 = Some seal"
    using s1(3) vs verify_seal_Inr(3) [OF vs] sjson d fresh
    by (simp add: bundle_seal_def write_prepared_seal_def bundle_publish_def stage_top_def write_new_sync_def no_faults_def sync_staging_def attempt_def
        receiving_def seal_entries_def begin_entries_def ascii_inject Let_def)
  have "staging S V b limits s2 ps" by (rule staging.seal [OF s1(2) s2(1)])
  then show ?thesis using that [OF s0(1) s1(1) sl(1) s2(1) _ _ s2(3) sl(3)] s2(2) by (auto simp: ps_def)
qed

section \<open>An example bundle\<close>

definition sample_header :: "nat \<Rightarrow> layer_header" where
  "sample_header i = plane_header sample_services sample_begin_v1 i (sample_payloads ! i)"

definition bundle_serdes :: "seal_manifest \<Rightarrow> nat v1_serdes" where
  "bundle_serdes seal = \<lparr>vs_begin = \<lparr>sd_to_value = \<lambda>_. Inr Null, sd_from_slice = \<lambda>_. Inr sample_begin_v1\<rparr>,
     vs_header = \<lparr>sd_to_value = \<lambda>h. Inr (Object [([ucast (lh_sequence h)], Null)]), sd_from_slice = \<lambda>bs. Inr (sample_header (unat (hd bs)))\<rparr>,
     vs_core = sample_serde, vs_seal = \<lparr>sd_to_value = \<lambda>_. Inr Null, sd_from_slice = \<lambda>_. Inr seal\<rparr>,
     vs_abort = sample_serde, vs_ack = sample_serde\<rparr>"

definition sample_headers :: "layer_header list" where
  "sample_headers = map sample_header [0..<4]"

text \<open>The seal does not depend on how seals are read.\<close>

definition sample_seal :: seal_manifest where
  "sample_seal = projr (producer_seal sample_services (bundle_serdes undefined) sample_begin_v1 sample_headers (concat sample_payloads)
     [7, 8, 9] sample_canary [])"

lemma sample_seal_reader:
  "producer_seal sample_services (bundle_serdes seal) = producer_seal sample_services (bundle_serdes seal')"
  unfolding producer_seal_def descriptor_chain_sha256_def absorb_headers_def artifact_sha256_def artifact_stream_def
    artifact_hmac_sha256_def artifact_mac_stream_def bundle_serdes_def v1_serdes.select_convs by (rule refl)

lemma bundle_serdes_total: "serdes_total sample_services (bundle_serdes seal)"
  by (simp add: serdes_total_def bundle_serdes_def sample_serde_def canonical_json_def map_canonical_def sample_services_def)

lemma sample_bundle_reads:
  "reads_back sample_services (vs_begin (bundle_serdes seal)) sample_begin_v1" "reads_back sample_services (vs_seal (bundle_serdes seal)) seal"
  "i < 4 \<Longrightarrow> reads_back sample_services (vs_header (bundle_serdes seal)) (sample_header i)"
proof -
  show "reads_back sample_services (vs_begin (bundle_serdes seal)) sample_begin_v1" "reads_back sample_services (vs_seal (bundle_serdes seal)) seal"
    by (simp_all add: reads_back_def bundle_serdes_def canonical_json_def map_canonical_def sample_services_def MANIFEST_MAX_BYTES_def)
  assume "i < 4"
  then have "i = 0 \<or> i = 1 \<or> i = 2 \<or> i = 3" by auto
  then have "unat (ucast (lh_sequence (sample_header i)) :: byte) = i"
    by (auto simp: sample_header_def plane_header_def sample_prerope Let_def)
  then show "reads_back sample_services (vs_header (bundle_serdes seal)) (sample_header i)"
    by (simp add: reads_back_def bundle_serdes_def canonical_json_def map_canonical_def sample_services_def MANIFEST_MAX_BYTES_def)
qed

lemma sample_published:
  obtains s d where "staging sample_services (bundle_serdes sample_seal) sample_begin_v1 sample_limits s
      (map (producer_plane sample_services sample_begin_v1 sample_payloads) [0..<4])" "bs_final s = Some d" "bs_prepared s = Some sample_seal"
proof -
  have n: "length sample_payloads = 4" by (simp add: sample_payloads_def)
  have hs: "sample_headers = map (\<lambda>i. plane_header sample_services sample_begin_v1 i (sample_payloads ! i)) [0..<length sample_payloads]"
    by (simp add: sample_headers_def sample_header_def n)
  have ok: "is_ok (canonical_json sample_services (vs_seal (bundle_serdes sample_seal)) m)" for m
    by (simp add: bundle_serdes_def canonical_json_def map_canonical_def sample_services_def)
  have t: "token_ids_sha256 sample_services [7, 8, 9] = bm_token_ids_sha256 sample_begin_v1"
    "length [7, 8, 9 :: u32] = unat (bm_cached_token_count sample_begin_v1) + 1" by (simp_all add: sample_fields)
  show ?thesis
  proof (rule producer_published [where key = "[]", OF sample_begin_v1_valid sample_hex_ok sample_services_digests
        bundle_serdes_total [of sample_seal] sample_fitting t sample_canary_ok hs ok])
    fix s0 s1 seal s2 d
    assume p: "producer_seal sample_services (bundle_serdes sample_seal) sample_begin_v1 sample_headers (concat sample_payloads)
      [7, 8, 9] sample_canary [] = Inr seal"
    "staging sample_services (bundle_serdes sample_seal) sample_begin_v1 sample_limits s2
      (map (producer_plane sample_services sample_begin_v1 sample_payloads) [0..<length sample_payloads])" "bs_final s2 = Some d" "bs_prepared s2 = Some seal"
    have "producer_seal sample_services (bundle_serdes undefined) sample_begin_v1 sample_headers (concat sample_payloads)
      [7, 8, 9] sample_canary [] = Inr seal" by (subst sample_seal_reader [of undefined sample_seal]) (rule p(1))
    then have "seal = sample_seal" by (simp add: sample_seal_def)
    then show thesis using that p(2-4) n by simp
  qed
qed


theorem reopened_bundle_complete_witness:
  "\<exists>d :: bundle_dir. map_of (bd_top d) (ascii ''READY'') = Some (Regular (ready_marker sample_seal))
    \<and> set (map fst (bd_layers d)) = set (concat (map (plane_names sample_begin_v1) (expected_walk sample_begin_v1)))"
proof -
  obtain s d where p: "staging sample_services (bundle_serdes sample_seal) sample_begin_v1 sample_limits s
      (map (producer_plane sample_services sample_begin_v1 sample_payloads) [0..<4])" "bs_final s = Some d" "bs_prepared s = Some sample_seal"
    by (rule sample_published)
  have "\<forall>q \<in> set (map (producer_plane sample_services sample_begin_v1 sample_payloads) [0..<4]).
      reads_back sample_services (vs_header (bundle_serdes sample_seal)) (vp_header q)"
    using sample_bundle_reads(3) by (auto simp: producer_plane_def sample_header_def)
  from reopened_bundle_complete [OF final_reopens [OF staging_ok [OF p(1)] p(2,3) sample_hex_ok sample_services_digests
      sample_bundle_reads(1) this sample_bundle_reads(2)]] show ?thesis by blast
qed

end
