(* ===== verification/Spec2Isabelle.thy ===== *)
theory Spec2Isabelle
  imports Cut_Chain Pack Transform Quant Handoff_V2_Run Handoff_Bundle
begin

text \<open>
  A verification library for kvpack, a store and transport for exact transformer KV caches.  The
  sources are under \<^verbatim>\<open>src/crates\<close>; the core crate is \<^verbatim>\<open>kvpack-core\<close>, the live transfer between
  machines is \<^verbatim>\<open>kvpack-handoff\<close>, the host crate with files, stores and engines is \<^verbatim>\<open>kvpack\<close>.

  \<^bold>\<open>Conventions.\<close>  Machine integers are words of their width, \<^verbatim>\<open>usize\<close> is a natural number with the
  64-bit bound written out, byte strings are lists of bytes.  A \<^verbatim>\<open>Result\<close> is a sum whose left side is
  the error, \<^verbatim>\<open>?\<close> is \<^const>\<open>rbind\<close>, loops with early exit are \<^const>\<open>try_fold\<close>, and every early
  return of the source is a branch.  Floating-point values are their bit patterns; their arithmetic is
  exact integer arithmetic in units of \<open>2 ^ -149\<close> followed by one rounding.  Hashes, ciphers, random
  bytes, serializers and sinks are parameters; what a theorem needs of them is a named hypothesis, and
  its witness instantiates it with a concrete function.

  \<^bold>\<open>Theories.\<close>
  \<^item> \<open>Kvpack_Prelude\<close>: results, checked arithmetic, slices, little-endian numbers, tilings.
  \<^item> \<open>Canonical\<close> (\<^verbatim>\<open>canonical.rs\<close>): the encoder and the bounds-checked decoder.  The locale
    \<open>wire_codec\<close> is the contract of one wire type (what is encoded decodes to itself, what decodes was
    encoded), \<open>canonical_object\<close> the contract of a whole object; both are interpreted for every type.
  \<^item> \<open>Wire_Types\<close>, \<open>Identity\<close>, \<open>Manifest\<close> (\<^verbatim>\<open>consts.rs\<close>, \<^verbatim>\<open>enums.rs\<close>, \<^verbatim>\<open>identity.rs\<close>,
    \<^verbatim>\<open>manifest.rs\<close>): the wire enums, the representation family, the realized schema and the cut
    manifest, with their codecs; decoding is characterized exactly.
  \<^item> \<open>Validator\<close> (\<^verbatim>\<open>validator.rs\<close>): manifest validation.  Lemmas: token and byte partitions, exact
    totals, allocation bounds, group partition, dense strides, and the dependency graph check with its
    depth-first search.  \<open>Validated_Wire\<close> composes the validator with the codec.
  \<^item> \<open>Codec_Frame\<close> (\<^verbatim>\<open>chunk.rs\<close>): the raw and run-length codec frames.
  \<^item> \<open>Ids\<close>, \<open>Cut_Chain\<close> (\<^verbatim>\<open>ids.rs\<close>, \<^verbatim>\<open>keys.rs\<close>): keyed identities and the streaming cut deriver,
    which refines a specification of cut boundaries for every split of the input.
  \<^item> \<open>Chunk_Object\<close>, \<open>Pack\<close> (\<^verbatim>\<open>chunk.rs\<close>, \<^verbatim>\<open>pack.rs\<close>): sealed chunk objects and authenticated packs;
    round trips, what acceptance establishes, binding of tags.
  \<^item> \<open>Half\<close>, \<open>Stats\<close>, \<open>Bit_Pack\<close>, \<open>Quant\<close> (\<^verbatim>\<open>half.rs\<close>, \<^verbatim>\<open>stats.rs\<close>, \<^verbatim>\<open>quant.rs\<close>): half-precision
    conversion, the statistics sidecar, bit packing and the quantization codec.
  \<^item> \<open>Transform\<close> (\<^verbatim>\<open>transform.rs\<close>, \<^verbatim>\<open>transform/exec.rs\<close>): repack descriptors and their executors.
  \<^item> \<open>Handoff_Base\<close>, \<open>Handoff_V2\<close>, \<open>Handoff_V2_Run\<close> (\<^verbatim>\<open>canonical.rs\<close>, \<^verbatim>\<open>mac.rs\<close>, \<^verbatim>\<open>handoff_v2.rs\<close> of the
    handoff crate): canonical JSON, keyed tags, and the atomic receiver as a state machine with its
    session invariant, atomicity and progress.

  \<^item> \<open>Handoff_Manifest\<close> (\<^verbatim>\<open>manifest.rs\<close>, \<^verbatim>\<open>manifest/validation.rs\<close> of the handoff crate): the manifests of the
    first handoff protocol and their validation.  The walk of a validated layout table covers every
    layer once and adds up to the declared frames and bytes, whatever the schedule.
  \<^item> \<open>Handoff_Verify\<close> (\<^verbatim>\<open>verify.rs\<close>): the incremental verifier.  The relation \<open>verifying\<close> reaches a state
    by any calls; an accepted seal proves a complete stream, the running hashes agree with the
    recomputed ones, and a stream that follows the manifest is always accepted.
  \<^item> \<open>Handoff_Bundle\<close> (\<^verbatim>\<open>bundle.rs\<close>): staging, publishing and reopening a bundle over a directory of named
    nodes.  The relation \<open>staging\<close> reaches a stager by any calls on a file system that does not fail;
    every published bundle reopens to what was accepted, and what reopens is complete.  The operations
    themselves take failures, but the round trip says nothing about a caller that goes on after one.

  \<^bold>\<open>Bounds and fuel.\<close>  The subnormal normalization of \<open>Half\<close> takes fuel; ten rounds suffice for the ten
  mantissa bits, by a lemma of that theory.  The cut loop is a partial function proved to return.  The
  depth-first search of the validator and all other recursions are functions with termination proofs.

  \<^bold>\<open>Not modelled.\<close>  Sockets, TLS, threads, memory mapping, databases and GPU execution are I/O.  In the
  handoff crate this leaves out the byte framing (\<^verbatim>\<open>frame.rs\<close>), the permit pool and layer events
  (\<^verbatim>\<open>coordinator.rs\<close>) and the receiver; of bundles, the resolution of paths and changes to files by
  others.  In the core crate the rotation descriptors (\<^verbatim>\<open>rotation.rs\<close>) are left out.  The host crate
  \<^verbatim>\<open>kvpack\<close> is left out: most of it orchestrates I/O around the core objects modelled here, but its
  retention policy, capacity rules, restore plans and model layouts are pure code that this
  development does not cover.
\<close>

section \<open>The canonical objects\<close>

text \<open>Property C1.  Decoding a manifest accepts exactly the canonical encodings, within the
  production bound, of well-formed manifests, and returns the manifest that was encoded: the codec
  is a bijection between well-formed manifests and accepted byte strings.\<close>

theorem manifest_decode_iff:
  "manifest_decode_canonical bs = Inr m \<longleftrightarrow>
     ok_manifest m \<and> manifest_encode_canonical m = Inr bs \<and> length bs \<le> MAX_MANIFEST_BYTES"
  by (rule manifest_object.decode_iff)

text \<open>The same for the static representation family.\<close>

theorem family_decode_iff:
  "family_decode_canonical bs = Inr f \<longleftrightarrow>
     ok_family f \<and> family_encode_canonical f = Inr bs \<and> length bs < 2 ^ 64"
  by (rule family_object.decode_iff)

text \<open>The same for the realized cut schema.\<close>

theorem schema_decode_iff:
  "schema_decode_canonical bs = Inr s \<longleftrightarrow>
     ok_schema s \<and> schema_encode_canonical s = Inr bs \<and> length bs < 2 ^ 64"
  by (rule schema_object.decode_iff)

end
